(* ===== verification/Prelude.thy ===== *)
theory Prelude
  imports Main "HOL-Library.Word"
begin

text \<open>
  Shared vocabulary of the development: the C integer types as words of their width, the
  outcome type of code that may not return, and the generic lemmas and fact collections
  that the component theories use.
\<close>

unbundle bit_operations_syntax

section \<open>C integer types\<close>

type_synonym u8 = "8 word"
type_synonym u16 = "16 word"
type_synonym u32 = "32 word"
type_synonym u64 = "64 word"

section \<open>Outcomes\<close>

text \<open>
  Code of this program can fail to return in three ways: it waits for a lock that is held
  (\<open>Spinning\<close>), it leaves the array it indexes (\<open>OutOfBounds\<close>, undefined behaviour in C),
  or it parks the core for ever in a \<^verbatim>\<open>while (1) wfe\<close> loop (\<open>Halted\<close>).  An error code
  that the C function returns is an ordinary value, not one of these.
\<close>

datatype stuck = Spinning | OutOfBounds | Halted

type_synonym 'a exec = "stuck + 'a"

primrec bind_exec :: "'a exec \<Rightarrow> ('a \<Rightarrow> 'b exec) \<Rightarrow> 'b exec" where
  "bind_exec (Inl e) f = Inl e"
| "bind_exec (Inr x) f = f x"

lemma bind_exec_Inr_iff:
  "bind_exec m f = Inr y \<longleftrightarrow> (\<exists>x. m = Inr x \<and> f x = Inr y)"
  by (cases m) auto

lemma bind_exec_assoc:
  "bind_exec (bind_exec m f) g = bind_exec m (\<lambda>x. bind_exec (f x) g)"
  by (cases m) auto

lemma bind_exec_return [simp]: "bind_exec m Inr = m"
  by (cases m) auto

section \<open>Fact collections\<close>

named_theorems inv_defs "definitions of the component invariants"
named_theorems frame "fields an operation leaves alone"

section \<open>Lists\<close>

lemma nth_update_split:
  "i < length xs \<Longrightarrow> xs[i := x] ! j = (if i = j then x else xs ! j)"
  by simp

lemma take_Suc_update:
  "i < length xs \<Longrightarrow> take (Suc i) (xs[i := x]) = take i xs @ [x]"
  by (simp add: take_Suc_conv_app_nth)

lemma fold_invariant_upt:
  assumes "P m s" and "m \<le> n"
    and "\<And>i s. m \<le> i \<Longrightarrow> i < n \<Longrightarrow> P i s \<Longrightarrow> P (Suc i) (f i s)"
  shows "P n (fold f [m..<n] s)"
  using assms(2,1,3)
proof (induction n rule: nat_induct_at_least)
  case base
  then show ?case by simp
next
  case (Suc n)
  then show ?case by simp
qed

section \<open>Words\<close>

lemma unat_and_mask: "unat ((x :: 'a::len word) AND mask n) = unat x mod 2 ^ n"
  by (simp flip: take_bit_eq_mask add: unsigned_take_bit_eq flip: take_bit_eq_mod)

lemma unat_and_255 [simp]: "unat ((x :: u32) AND 255) = unat x mod 256"
  using unat_and_mask [of x 8] by (simp add: mask_eq_exp_minus_1)

lemma unat_and_15 [simp]: "unat ((x :: 'a::len word) AND 15) = unat x mod 16"
  using unat_and_mask [of x 4] by (simp add: mask_eq_exp_minus_1)

lemma or_eq_0_word_iff [simp]: "(x :: 'a::len word) OR y = 0 \<longleftrightarrow> x = 0 \<and> y = 0"
  by (auto simp: bit_eq_iff bit_simps)

lemma xor_eq_0_word_iff [simp]: "(x :: 'a::len word) XOR y = 0 \<longleftrightarrow> x = y"
  by (metis xor.assoc xor_self_eq xor.left_neutral xor.right_neutral)

lemma unat_Suc_u32: "unat x < 2 ^ 32 - 1 \<Longrightarrow> unat ((x :: u32) + 1) = Suc (unat x)"
  by (simp add: unat_word_ariths)

end
