(* ===== verification/Bounded_Queue.thy ===== *)
theory Bounded_Queue
  imports Prelude
begin

text \<open>
  The interface a byte queue offers to the code that moves characters between cores: a
  non-blocking \<open>put\<close> and \<open>get\<close> in C style (an \<^verbatim>\<open>int\<close> status, an out parameter), with the
  laws of a FIFO of bounded capacity.  The client lemmas are proved once from the laws; the
  ring buffer of \<^verbatim>\<open>include/ringbuffer\<close> interprets the locale in its own theory.
\<close>

section \<open>Operations and the list queue they implement\<close>

datatype 'a qop = Put 'a | Get

text \<open>The abstract queue: a list that never grows beyond \<open>cap\<close>.\<close>

definition list_put :: "nat \<Rightarrow> 'a list \<Rightarrow> 'a \<Rightarrow> (int \<times> 'a list) exec" where
  "list_put cap xs x = Inr (if length xs < cap then (0, xs @ [x]) else (-1, xs))"

definition list_get :: "'a list \<Rightarrow> 'a \<Rightarrow> (int \<times> 'a \<times> 'a list) exec" where
  "list_get xs c = Inr (case xs of [] \<Rightarrow> (-1, c, []) | y # ys \<Rightarrow> (0, y, ys))"

text \<open>
  A client run: the accepted and the received elements, the last value of the out
  parameter and the final queue.
\<close>

fun queue_run ::
  "('q \<Rightarrow> 'a \<Rightarrow> (int \<times> 'q) exec) \<Rightarrow> ('q \<Rightarrow> 'a \<Rightarrow> (int \<times> 'a \<times> 'q) exec) \<Rightarrow>
   'a qop list \<Rightarrow> 'a \<Rightarrow> 'q \<Rightarrow> ('a list \<times> 'a list \<times> 'a \<times> 'q) exec" where
  "queue_run put get [] c q = Inr ([], [], c, q)"
| "queue_run put get (Put x # ops) c q =
     bind_exec (put q x) (\<lambda>(r, q1).
     bind_exec (queue_run put get ops c q1) (\<lambda>(acc, rcv, c', q').
       Inr (if r = 0 then x # acc else acc, rcv, c', q')))"
| "queue_run put get (Get # ops) c q =
     bind_exec (get q c) (\<lambda>(r, c1, q1).
     bind_exec (queue_run put get ops c1 q1) (\<lambda>(acc, rcv, c', q').
       Inr (acc, if r = 0 then c1 # rcv else rcv, c', q')))"

section \<open>The interface\<close>

locale bounded_queue =
  fixes put :: "'q \<Rightarrow> 'a \<Rightarrow> (int \<times> 'q) exec"
    and get :: "'q \<Rightarrow> 'a \<Rightarrow> (int \<times> 'a \<times> 'q) exec"
    and content :: "'q \<Rightarrow> 'a list"
    and valid :: "'q \<Rightarrow> bool"
    and cap :: nat
  assumes put_room: "valid q \<Longrightarrow> length (content q) < cap \<Longrightarrow>
      \<exists>q'. put q x = Inr (0, q') \<and> valid q' \<and> content q' = content q @ [x]"
    and put_full: "valid q \<Longrightarrow> \<not> length (content q) < cap \<Longrightarrow> put q x = Inr (-1, q)"
    and get_some: "valid q \<Longrightarrow> content q = y # ys \<Longrightarrow>
      \<exists>q'. get q c = Inr (0, y, q') \<and> valid q' \<and> content q' = ys"
    and get_none: "valid q \<Longrightarrow> content q = [] \<Longrightarrow> get q c = Inr (-1, c, q)"
    and content_cap: "valid q \<Longrightarrow> length (content q) \<le> cap"
begin

lemma put_cases:
  assumes "valid q"
  obtains (room) q' where "length (content q) < cap" "put q x = Inr (0, q')"
      "valid q'" "content q' = content q @ [x]"
    | (full) "\<not> length (content q) < cap" "put q x = Inr (-1, q)"
  using assms put_room [of q x] put_full [of q x] by blast

lemma get_cases:
  assumes "valid q"
  obtains (some) y ys q' where "content q = y # ys" "get q c = Inr (0, y, q')"
      "valid q'" "content q' = ys"
    | (none) "content q = []" "get q c = Inr (-1, c, q)"
  using assms get_some [of q _ _ c] get_none [of q c] by (cases "content q") auto

text \<open>Every run returns, keeps the queue valid, and computes what the list queue computes.\<close>

lemma run_refines:
  assumes "valid q"
  shows "\<exists>acc rcv c' q'. queue_run put get ops c q = Inr (acc, rcv, c', q') \<and> valid q' \<and>
    queue_run (list_put cap) list_get ops c (content q) = Inr (acc, rcv, c', content q')"
  using assms
proof (induction ops arbitrary: c q)
  case Nil
  then show ?case by simp
next
  case (Cons op ops)
  show ?case
  proof (cases op)
    case [simp]: (Put x)
    from Cons.prems show ?thesis
    proof (cases rule: put_cases [of q x])
      case (room q')
      with Cons.IH [of q' c] show ?thesis by (force simp: list_put_def)
    next
      case full
      with Cons.IH [of q c] Cons.prems show ?thesis by (force simp: list_put_def)
    qed
  next
    case [simp]: Get
    from Cons.prems show ?thesis
    proof (cases rule: get_cases [of q c])
      case (some y ys q')
      with Cons.IH [of q' y] show ?thesis by (force simp: list_get_def)
    next
      case none
      with Cons.IH [of q c] Cons.prems show ?thesis by (force simp: list_get_def)
    qed
  qed
qed

text \<open>
  First in, first out and nothing lost: what was in the queue and what was accepted is
  exactly what came out, in order, followed by what is still in the queue.
\<close>

lemma run_fifo:
  assumes "valid q" and "queue_run put get ops c q = Inr (acc, rcv, c', q')"
  shows "content q @ acc = rcv @ content q'"
  using assms
proof (induction ops arbitrary: c q acc rcv)
  case Nil
  then show ?case by simp
next
  case (Cons op ops)
  show ?case
  proof (cases op)
    case [simp]: (Put x)
    from Cons.prems(1) show ?thesis
    proof (cases rule: put_cases [of q x])
      case (room q1)
      with Cons.prems show ?thesis
        by (auto simp: bind_exec_Inr_iff dest: Cons.IH [of q1])
    next
      case full
      with Cons.prems show ?thesis
        by (auto simp: bind_exec_Inr_iff dest: Cons.IH [of q])
    qed
  next
    case [simp]: Get
    from Cons.prems(1) show ?thesis
    proof (cases rule: get_cases [of q c])
      case (some y ys q1)
      with Cons.prems show ?thesis
        by (auto simp: bind_exec_Inr_iff dest: Cons.IH [of q1])
    next
      case none
      with Cons.prems show ?thesis
        by (auto simp: bind_exec_Inr_iff dest: Cons.IH [of q])
    qed
  qed
qed

lemma run_total:
  assumes "valid q"
  obtains acc rcv c' q' where "queue_run put get ops c q = Inr (acc, rcv, c', q')"
    "valid q'" "content q @ acc = rcv @ content q'"
  using run_refines [OF assms, of ops c] run_fifo [OF assms] by blast

text \<open>A queue with room for all of them accepts a burst of elements whole.\<close>

lemma run_puts:
  assumes "valid q" and "length (content q) + length xs \<le> cap"
  shows "\<exists>q'. queue_run put get (map Put xs) c q = Inr (xs, [], c, q') \<and> valid q' \<and>
    content q' = content q @ xs"
  using assms
proof (induction xs arbitrary: q)
  case Nil
  then show ?case by simp
next
  case (Cons x xs)
  then obtain q1 where "put q x = Inr (0, q1)" "valid q1" "content q1 = content q @ [x]"
    using put_room [of q x] by auto
  moreover from this Cons.prems Cons.IH [of q1]
  obtain q' where "queue_run put get (map Put xs) c q1 = Inr (xs, [], c, q')" "valid q'"
      "content q' = content q1 @ xs"
    by auto
  ultimately show ?case by simp
qed

end

end
