(* ===== verification/Ring_Buffer.thy ===== *)
theory Ring_Buffer
  imports Bounded_Queue
begin

text \<open>
  \<^verbatim>\<open>include/ringbuffer/ringbuf.c\<close>: the byte ring in shared memory.  The operations as the
  code has them, the invariant of the indices, the list of bytes the ring holds, and the
  interpretation of the bounded-queue interface.
\<close>

section \<open>Data and operations\<close>

definition RING_BUFFER_SIZE :: nat where
  "RING_BUFFER_SIZE = 256"

record ring_buffer =
  rb_head :: u32
  rb_tail :: u32
  rb_data :: "u8 list"

definition ring_buffer_init :: "ring_buffer \<Rightarrow> ring_buffer" where
  "ring_buffer_init rb = rb\<lparr>rb_head := 0, rb_tail := 0\<rparr>"

definition next_index :: "u32 \<Rightarrow> u32" where
  "next_index i = (i + 1) AND (of_nat RING_BUFFER_SIZE - 1)"

text \<open>
  The status code is the C function's return value.  An index outside \<open>rb_data\<close> would be
  an access outside the struct: \<open>OutOfBounds\<close>.
\<close>

definition ring_buffer_put :: "ring_buffer \<Rightarrow> u8 \<Rightarrow> (int \<times> ring_buffer) exec" where
  "ring_buffer_put rb c =
     (let next_head = next_index (rb_head rb) in
      if next_head = rb_tail rb then Inr (-1, rb)
      else if unat (rb_head rb) < length (rb_data rb) then
        Inr (0, rb\<lparr>rb_data := (rb_data rb)[unat (rb_head rb) := c], rb_head := next_head\<rparr>)
      else Inl OutOfBounds)"

text \<open>The second argument is the old value of \<^verbatim>\<open>*c\<close>, kept when the buffer is empty.\<close>

definition ring_buffer_get :: "ring_buffer \<Rightarrow> u8 \<Rightarrow> (int \<times> u8 \<times> ring_buffer) exec" where
  "ring_buffer_get rb c =
     (if rb_head rb = rb_tail rb then Inr (-1, c, rb)
      else if unat (rb_tail rb) < length (rb_data rb) then
        Inr (0, rb_data rb ! unat (rb_tail rb), rb\<lparr>rb_tail := next_index (rb_tail rb)\<rparr>)
      else Inl OutOfBounds)"

section \<open>Index arithmetic\<close>

lemma next_index_eq: "unat (next_index i) = Suc (unat i) mod 256"
proof -
  have "unat (i + 1) mod 256 = (unat i + 1) mod 2 ^ 32 mod 256"
    by (simp add: unat_word_ariths)
  also have "\<dots> = Suc (unat i) mod 256"
    by (subst mod_mod_cancel) simp_all
  finally show ?thesis
    by (simp add: next_index_def RING_BUFFER_SIZE_def)
qed

text \<open>The number of steps from the tail to the head, and the slot \<open>i\<close> steps after the tail.\<close>

definition gap :: "nat \<Rightarrow> nat \<Rightarrow> nat" where
  "gap t h = (if t \<le> h then h - t else h + 256 - t)"

definition slot :: "nat \<Rightarrow> nat \<Rightarrow> nat" where
  "slot t i = (if t + i < 256 then t + i else t + i - 256)"

lemma succ_mod_256: "(h::nat) < 256 \<Longrightarrow> Suc h mod 256 = (if h = 255 then 0 else Suc h)"
  by auto

lemma gap_bound: "t < 256 \<Longrightarrow> h < 256 \<Longrightarrow> gap t h < 256"
  by (auto simp: gap_def)

lemma gap_0_iff: "t < 256 \<Longrightarrow> h < 256 \<Longrightarrow> gap t h = 0 \<longleftrightarrow> t = h"
  by (auto simp: gap_def)

lemma gap_full_iff: "t < 256 \<Longrightarrow> h < 256 \<Longrightarrow> Suc h mod 256 = t \<longleftrightarrow> gap t h = 255"
  by (auto simp: gap_def succ_mod_256 split: if_splits)

lemma gap_succ_head:
  "t < 256 \<Longrightarrow> h < 256 \<Longrightarrow> gap t h \<noteq> 255 \<Longrightarrow> gap t (Suc h mod 256) = Suc (gap t h)"
  by (auto simp: gap_def succ_mod_256)

lemma gap_succ_tail:
  "t < 256 \<Longrightarrow> h < 256 \<Longrightarrow> t \<noteq> h \<Longrightarrow> gap t h = Suc (gap (Suc t mod 256) h)"
  by (auto simp: gap_def succ_mod_256)

lemma slot_0 [simp]: "t < 256 \<Longrightarrow> slot t 0 = t"
  by (simp add: slot_def)

lemma slot_bound: "t < 256 \<Longrightarrow> i < 256 \<Longrightarrow> slot t i < 256"
  by (auto simp: slot_def)

lemma slot_gap: "t < 256 \<Longrightarrow> h < 256 \<Longrightarrow> slot t (gap t h) = h"
  by (auto simp: slot_def gap_def)

lemma slot_Suc: "t < 256 \<Longrightarrow> i < 255 \<Longrightarrow> slot t (Suc i) = slot (Suc t mod 256) i"
  by (auto simp: slot_def succ_mod_256 split: if_splits)

lemma slot_inj: "t < 256 \<Longrightarrow> i < 256 \<Longrightarrow> j < 256 \<Longrightarrow> slot t i = slot t j \<longleftrightarrow> i = j"
  by (auto simp: slot_def split: if_splits)

section \<open>Invariant and content\<close>

definition rb_ok :: "ring_buffer \<Rightarrow> bool" where
  [inv_defs]: "rb_ok rb \<longleftrightarrow>
     unat (rb_head rb) < 256 \<and> unat (rb_tail rb) < 256 \<and> length (rb_data rb) = 256"

definition rb_count :: "ring_buffer \<Rightarrow> nat" where
  "rb_count rb = gap (unat (rb_tail rb)) (unat (rb_head rb))"

definition rb_list :: "ring_buffer \<Rightarrow> u8 list" where
  "rb_list rb = map (\<lambda>i. rb_data rb ! slot (unat (rb_tail rb)) i) [0..<rb_count rb]"

lemma length_rb_list [simp]: "length (rb_list rb) = rb_count rb"
  by (simp add: rb_list_def)

lemma rb_count_bound: "rb_ok rb \<Longrightarrow> rb_count rb < 256"
  by (simp add: rb_ok_def rb_count_def gap_bound)

lemma rb_empty_iff: "rb_ok rb \<Longrightarrow> rb_head rb = rb_tail rb \<longleftrightarrow> rb_list rb = []"
  by (auto simp: rb_ok_def rb_list_def rb_count_def gap_0_iff word_unat_eq_iff)

lemma rb_full_iff: "rb_ok rb \<Longrightarrow> next_index (rb_head rb) = rb_tail rb \<longleftrightarrow> rb_count rb = 255"
  by (simp add: rb_ok_def rb_count_def word_unat_eq_iff next_index_eq gap_full_iff)

text \<open>
  Storing at the head leaves the content alone, moving the head then appends the stored byte,
  and moving the tail drops the first one.
\<close>

lemma rb_store:
  assumes "rb_ok rb"
    and rb': "rb' = rb\<lparr>rb_data := (rb_data rb)[unat (rb_head rb) := c]\<rparr>"
  shows "rb_ok rb'" and "rb_list rb' = rb_list rb"
proof -
  let ?t = "unat (rb_tail rb)" and ?h = "unat (rb_head rb)"
  from assms(1) have b: "?t < 256" "?h < 256"
    by (auto simp: rb_ok_def)
  show "rb_ok rb'"
    using assms(1) by (simp add: rb' rb_ok_def)
  have "slot ?t (rb_count rb) = ?h"
    using b by (simp add: rb_count_def slot_gap)
  then have "i < rb_count rb \<Longrightarrow> slot ?t i \<noteq> ?h" for i
    using slot_inj [of ?t i "rb_count rb"] b rb_count_bound [OF assms(1)] by auto
  then show "rb_list rb' = rb_list rb"
    by (auto simp: rb_list_def rb_count_def rb') (metis nth_list_update_neq)
qed

lemma rb_publish:
  assumes "rb_ok rb" and "rb_count rb \<noteq> 255"
    and rb': "rb' = rb\<lparr>rb_head := next_index (rb_head rb)\<rparr>"
  shows "rb_ok rb'" and "rb_list rb' = rb_list rb @ [rb_data rb ! unat (rb_head rb)]"
    and "rb_count rb' = Suc (rb_count rb)"
proof -
  let ?t = "unat (rb_tail rb)" and ?h = "unat (rb_head rb)"
  from assms(1) have b: "?t < 256" "?h < 256"
    by (auto simp: rb_ok_def)
  show "rb_ok rb'"
    using assms(1) by (simp add: rb' rb_ok_def next_index_eq)
  show cnt: "rb_count rb' = Suc (rb_count rb)"
    using assms(2) b by (simp add: rb' rb_count_def next_index_eq gap_succ_head)
  have "slot ?t (rb_count rb) = ?h"
    using b by (simp add: rb_count_def slot_gap)
  then show "rb_list rb' = rb_list rb @ [rb_data rb ! ?h]"
    by (simp add: rb_list_def cnt) (simp add: rb')
qed

lemma rb_push:
  assumes "rb_ok rb" and "rb_count rb \<noteq> 255"
    and rb': "rb' = rb\<lparr>rb_data := (rb_data rb)[unat (rb_head rb) := c],
                      rb_head := next_index (rb_head rb)\<rparr>"
  shows "rb_ok rb'" and "rb_list rb' = rb_list rb @ [c]"
proof -
  let ?m = "rb\<lparr>rb_data := (rb_data rb)[unat (rb_head rb) := c]\<rparr>"
  note store = rb_store [OF assms(1) refl, of c]
  have "rb_count ?m \<noteq> 255" "rb' = ?m\<lparr>rb_head := next_index (rb_head ?m)\<rparr>"
    using assms(2) by (simp_all add: rb' rb_count_def)
  note publish = rb_publish [OF store(1) this]
  show "rb_ok rb'" by (rule publish)
  show "rb_list rb' = rb_list rb @ [c]"
    using publish(2) store(2) assms(1) by (simp add: rb_ok_def)
qed

lemma rb_pop:
  assumes "rb_ok rb" and "rb_list rb \<noteq> []"
    and rb': "rb' = rb\<lparr>rb_tail := next_index (rb_tail rb)\<rparr>"
  shows "rb_ok rb'" and "rb_list rb = rb_data rb ! unat (rb_tail rb) # rb_list rb'"
proof -
  let ?t = "unat (rb_tail rb)" and ?h = "unat (rb_head rb)"
  from assms(1) have b: "?t < 256" "?h < 256" "length (rb_data rb) = 256"
    by (auto simp: rb_ok_def)
  show "rb_ok rb'"
    using b by (simp add: rb' rb_ok_def next_index_eq)
  have "?t \<noteq> ?h"
    using assms(1,2) rb_empty_iff [of rb] by (auto simp: word_unat_eq_iff)
  then have cnt: "rb_count rb = Suc (rb_count rb')"
    using b by (simp add: rb' rb_count_def next_index_eq gap_succ_tail)
  have "rb_count rb' < 255"
    using rb_count_bound [OF assms(1)] cnt by simp
  then have "map (\<lambda>i. rb_data rb ! slot ?t (Suc i)) [0..<rb_count rb'] = rb_list rb'"
    using b by (auto simp: rb_list_def rb' next_index_eq slot_Suc)
  then show "rb_list rb = rb_data rb ! unat (rb_tail rb) # rb_list rb'"
    using b by (simp add: rb_list_def cnt upt_conv_Cons map_Suc_upt [symmetric] comp_def
        del: upt_Suc)
qed

section \<open>The ring buffer is a bounded queue of capacity 255\<close>

interpretation ring: bounded_queue ring_buffer_put ring_buffer_get rb_list rb_ok 255
proof unfold_locales
  fix rb x assume ok: "rb_ok rb" and "length (rb_list rb) < 255"
  then have "rb_count rb \<noteq> 255" by simp
  with ok show "\<exists>rb'. ring_buffer_put rb x = Inr (0, rb') \<and> rb_ok rb' \<and>
      rb_list rb' = rb_list rb @ [x]"
    using rb_push [OF ok _ refl, of x] rb_full_iff [OF ok]
    by (auto simp: ring_buffer_put_def rb_ok_def)
next
  fix rb x assume ok: "rb_ok rb" and "\<not> length (rb_list rb) < 255"
  then have "rb_count rb = 255" using rb_count_bound [OF ok] by simp
  with ok show "ring_buffer_put rb x = Inr (-1, rb)"
    by (simp add: ring_buffer_put_def rb_full_iff)
next
  fix rb y ys c assume ok: "rb_ok rb" and "rb_list rb = y # ys"
  then show "\<exists>rb'. ring_buffer_get rb c = Inr (0, y, rb') \<and> rb_ok rb' \<and> rb_list rb' = ys"
    using rb_pop [OF ok _ refl] rb_empty_iff [OF ok]
    by (auto simp: ring_buffer_get_def rb_ok_def)
next
  fix rb c assume "rb_ok rb" and "rb_list rb = []"
  then show "ring_buffer_get rb c = Inr (-1, c, rb)"
    by (simp add: ring_buffer_get_def rb_empty_iff)
next
  fix rb assume "rb_ok rb"
  then show "length (rb_list rb) \<le> 255"
    using rb_count_bound [of rb] by simp
qed

lemma rb_init_ok:
  "length (rb_data rb) = 256 \<Longrightarrow> rb_ok (ring_buffer_init rb) \<and> rb_list (ring_buffer_init rb) = []"
  by (simp add: rb_ok_def ring_buffer_init_def rb_list_def rb_count_def gap_def)

section \<open>Properties\<close>

text \<open>A ring with two free slots, its indices just before the wrap-around.\<close>

definition nearly_full_ring :: ring_buffer where
  "nearly_full_ring = \<lparr>rb_head = 253, rb_tail = 0, rb_data = replicate 256 7\<rparr>"

lemma nearly_full_ring_ok: "rb_ok nearly_full_ring \<and> rb_list nearly_full_ring = replicate 253 7"
  by (auto simp: nearly_full_ring_def rb_ok_def rb_list_def rb_count_def gap_def slot_def
      intro: nth_equalityI)

text \<open>
  \<^verbatim>\<open>ring_buffer_put\<close> on every branch.  It returns -1 and leaves the ring alone
  exactly when 255 bytes are stored; otherwise it returns 0 and the ring holds one byte more,
  at the end, without leaving the array.
\<close>
theorem ring_put_spec:
  assumes "rb_ok rb"
  shows "if rb_count rb = 255 then ring_buffer_put rb c = Inr (-1, rb)
    else \<exists>rb'. ring_buffer_put rb c = Inr (0, rb') \<and> rb_ok rb' \<and> rb_list rb' = rb_list rb @ [c]"
  using ring.put_room [OF assms, of c] ring.put_full [OF assms, of c] rb_count_bound [OF assms]
  by auto

lemma ring_put_spec_witness:
  "rb_count nearly_full_ring = 253 \<and> (\<exists>rb'. ring_buffer_put nearly_full_ring 9 = Inr (0, rb') \<and>
     rb_ok rb' \<and> rb_list rb' = replicate 253 7 @ [9])"
proof -
  have ok: "rb_ok nearly_full_ring" and l: "rb_list nearly_full_ring = replicate 253 7"
    using nearly_full_ring_ok by auto
  have "rb_count nearly_full_ring = 253"
    by (simp flip: length_rb_list add: l)
  with ring_put_spec [OF ok, of 9] l show ?thesis by simp
qed

text \<open>
  Property C31: any sequence of \<^verbatim>\<open>ring_buffer_put\<close> and \<^verbatim>\<open>ring_buffer_get\<close> calls returns, and the
  accepted bytes, the received bytes, the out parameter and the final content are those of a
  list queue bounded by 255, although the code only masks two 32-bit indices.
\<close>
theorem ring_refines_list_queue:
  assumes "rb_ok rb"
  shows "\<exists>acc rcv c' rb'.
    queue_run ring_buffer_put ring_buffer_get ops c rb = Inr (acc, rcv, c', rb') \<and> rb_ok rb' \<and>
    queue_run (list_put 255) list_get ops c (rb_list rb) = Inr (acc, rcv, c', rb_list rb')"
  by (rule ring.run_refines [OF assms])

lemma ring_refines_list_queue_witness:
  "\<exists>rb'. queue_run ring_buffer_put ring_buffer_get [Put 1, Put 2, Put 3, Get] 0 nearly_full_ring
     = Inr ([1, 2], [7], 7, rb') \<and> rb_list rb' = replicate 252 7 @ [1, 2]"
proof -
  have ok: "rb_ok nearly_full_ring" and l: "rb_list nearly_full_ring = replicate 253 7"
    using nearly_full_ring_ok by auto
  have "replicate 253 (7::u8) = 7 # replicate 252 7"
    by (simp flip: replicate_Suc)
  then have "queue_run (list_put 255) list_get [Put 1, Put 2, Put 3, Get] 0 (replicate 253 (7::u8))
    = Inr ([1, 2], [7], 7, replicate 252 7 @ [1, 2])"
    by (simp add: list_put_def list_get_def)
  with ring_refines_list_queue [OF ok, of "[Put 1, Put 2, Put 3, Get]" 0] l show ?thesis
    by auto
qed

text \<open>
  \<^verbatim>\<open>ring_buffer_get\<close> on every branch.  On an empty ring it returns -1 and writes
  neither \<^verbatim>\<open>*c\<close> nor the ring; otherwise it returns 0, stores the oldest byte and removes it.
\<close>
theorem ring_get_spec:
  assumes "rb_ok rb"
  shows "case rb_list rb of
      [] \<Rightarrow> ring_buffer_get rb c = Inr (-1, c, rb)
    | y # ys \<Rightarrow> (\<exists>rb'. ring_buffer_get rb c = Inr (0, y, rb') \<and> rb_ok rb' \<and> rb_list rb' = ys)"
  using ring.get_none [OF assms] ring.get_some [OF assms] by (auto split: list.split)

lemma ring_get_spec_witness:
  "\<exists>rb'. ring_buffer_get nearly_full_ring 0 = Inr (0, 7, rb') \<and> rb_list rb' = replicate 252 7"
proof -
  have ok: "rb_ok nearly_full_ring" and l: "rb_list nearly_full_ring = replicate 253 7"
    using nearly_full_ring_ok by auto
  have "replicate 253 (7::u8) = 7 # replicate 252 7"
    by (simp flip: replicate_Suc)
  with ring_get_spec [OF ok, of 0] l show ?thesis by auto
qed

end
