(* ===== verification/Ring_Spsc.thy ===== *)
theory Ring_Spsc
  imports Ring_Buffer
begin

text \<open>
  The ring buffer under concurrency: one core runs \<^verbatim>\<open>ring_buffer_put\<close>, another
  \<^verbatim>\<open>ring_buffer_get\<close>, with no lock.  Every access to the shared struct is a step of its own
  and the two cores interleave freely; the barriers of the code (\<^verbatim>\<open>dmb sy\<close>) are taken to give
  the accesses of each core in program order.  The ghost fields record which bytes a \<^verbatim>\<open>put\<close>
  has published and which a \<^verbatim>\<open>get\<close> has returned.
\<close>

section \<open>The two programs as steps\<close>

datatype prod_pc =
    P_Idle
  | P_Call u8        \<comment> \<open>entered with the byte \<open>c\<close>\<close>
  | P_Test u8 u32    \<comment> \<open>\<open>next_head\<close> computed, the tail not yet read\<close>
  | P_Store u8 u32   \<comment> \<open>room seen, about to write \<open>data[head]\<close>\<close>
  | P_Publish u8 u32 \<comment> \<open>byte written, about to move the head\<close>

datatype cons_pc =
    C_Idle
  | C_Test u32       \<comment> \<open>the head read, the tail not yet\<close>
  | C_Load           \<comment> \<open>data seen, about to read \<open>data[tail]\<close>\<close>
  | C_Advance u8     \<comment> \<open>byte read, about to move the tail\<close>

record spsc =
  sp_ring :: ring_buffer
  sp_prod :: prod_pc
  sp_cons :: cons_pc
  sp_sent :: "u8 list"
  sp_received :: "u8 list"

inductive put_step :: "spsc \<Rightarrow> spsc \<Rightarrow> bool" where
  put_call: "sp_prod s = P_Idle \<Longrightarrow> put_step s (s\<lparr>sp_prod := P_Call c\<rparr>)"
| put_head: "sp_prod s = P_Call c \<Longrightarrow>
    put_step s (s\<lparr>sp_prod := P_Test c (next_index (rb_head (sp_ring s)))\<rparr>)"
| put_full: "sp_prod s = P_Test c n \<Longrightarrow> n = rb_tail (sp_ring s) \<Longrightarrow>
    put_step s (s\<lparr>sp_prod := P_Idle\<rparr>)"
| put_room: "sp_prod s = P_Test c n \<Longrightarrow> n \<noteq> rb_tail (sp_ring s) \<Longrightarrow>
    put_step s (s\<lparr>sp_prod := P_Store c n\<rparr>)"
| put_store: "sp_prod s = P_Store c n \<Longrightarrow>
    unat (rb_head (sp_ring s)) < length (rb_data (sp_ring s)) \<Longrightarrow>
    put_step s (s\<lparr>sp_ring := (sp_ring s)\<lparr>rb_data :=
        (rb_data (sp_ring s))[unat (rb_head (sp_ring s)) := c]\<rparr>, sp_prod := P_Publish c n\<rparr>)"
| put_publish: "sp_prod s = P_Publish c n \<Longrightarrow>
    put_step s (s\<lparr>sp_ring := (sp_ring s)\<lparr>rb_head := n\<rparr>, sp_prod := P_Idle,
        sp_sent := sp_sent s @ [c]\<rparr>)"

inductive get_step :: "spsc \<Rightarrow> spsc \<Rightarrow> bool" where
  get_head: "sp_cons s = C_Idle \<Longrightarrow>
    get_step s (s\<lparr>sp_cons := C_Test (rb_head (sp_ring s))\<rparr>)"
| get_empty: "sp_cons s = C_Test h \<Longrightarrow> h = rb_tail (sp_ring s) \<Longrightarrow>
    get_step s (s\<lparr>sp_cons := C_Idle\<rparr>)"
| get_some: "sp_cons s = C_Test h \<Longrightarrow> h \<noteq> rb_tail (sp_ring s) \<Longrightarrow>
    get_step s (s\<lparr>sp_cons := C_Load\<rparr>)"
| get_load: "sp_cons s = C_Load \<Longrightarrow>
    unat (rb_tail (sp_ring s)) < length (rb_data (sp_ring s)) \<Longrightarrow>
    get_step s (s\<lparr>sp_cons := C_Advance (rb_data (sp_ring s) ! unat (rb_tail (sp_ring s)))\<rparr>)"
| get_advance: "sp_cons s = C_Advance c \<Longrightarrow>
    get_step s (s\<lparr>sp_ring := (sp_ring s)\<lparr>rb_tail := next_index (rb_tail (sp_ring s))\<rparr>,
        sp_cons := C_Idle, sp_received := sp_received s @ [c]\<rparr>)"

definition spsc_step :: "spsc \<Rightarrow> spsc \<Rightarrow> bool" where
  "spsc_step s t \<longleftrightarrow> put_step s t \<or> get_step s t"

definition spsc_init :: "ring_buffer \<Rightarrow> spsc" where
  "spsc_init rb = \<lparr>sp_ring = ring_buffer_init rb, sp_prod = P_Idle, sp_cons = C_Idle,
     sp_sent = [], sp_received = []\<rparr>"

inductive spsc_reachable :: "ring_buffer \<Rightarrow> spsc \<Rightarrow> bool" for rb where
  start: "spsc_reachable rb (spsc_init rb)"
| step: "spsc_reachable rb s \<Longrightarrow> spsc_step s t \<Longrightarrow> spsc_reachable rb t"

section \<open>Invariant\<close>

text \<open>
  What each program counter knows about the ring, stable under the steps of the other core:
  the free slot the producer saw stays free, the byte the consumer saw stays unread, and an
  out-of-date head the consumer holds is never ahead of the real one.
\<close>

fun prod_ok :: "ring_buffer \<Rightarrow> prod_pc \<Rightarrow> bool" where
  "prod_ok rb P_Idle = True"
| "prod_ok rb (P_Call c) = True"
| "prod_ok rb (P_Test c n) \<longleftrightarrow> n = next_index (rb_head rb)"
| "prod_ok rb (P_Store c n) \<longleftrightarrow> n = next_index (rb_head rb) \<and> rb_count rb \<noteq> 255"
| "prod_ok rb (P_Publish c n) \<longleftrightarrow> n = next_index (rb_head rb) \<and> rb_count rb \<noteq> 255 \<and>
     rb_data rb ! unat (rb_head rb) = c"

fun cons_ok :: "ring_buffer \<Rightarrow> cons_pc \<Rightarrow> bool" where
  "cons_ok rb C_Idle = True"
| "cons_ok rb (C_Test h) \<longleftrightarrow> unat h < 256 \<and> gap (unat (rb_tail rb)) (unat h) \<le> rb_count rb"
| "cons_ok rb C_Load \<longleftrightarrow> rb_list rb \<noteq> []"
| "cons_ok rb (C_Advance c) \<longleftrightarrow> (\<exists>cs. rb_list rb = c # cs)"

definition spsc_inv :: "spsc \<Rightarrow> bool" where
  [inv_defs]: "spsc_inv s \<longleftrightarrow> rb_ok (sp_ring s) \<and>
     sp_sent s = sp_received s @ rb_list (sp_ring s) \<and>
     prod_ok (sp_ring s) (sp_prod s) \<and> cons_ok (sp_ring s) (sp_cons s)"

lemma spsc_inv_init: "length (rb_data rb) = 256 \<Longrightarrow> spsc_inv (spsc_init rb)"
  by (simp add: spsc_inv_def spsc_init_def rb_init_ok)

lemma cons_ok_store:
  assumes "rb_ok rb" and "cons_ok rb pc"
  shows "cons_ok (rb\<lparr>rb_data := (rb_data rb)[unat (rb_head rb) := c]\<rparr>) pc"
  using assms rb_store(2) [OF assms(1) refl, of c] by (cases pc) (simp_all add: rb_count_def)

lemma cons_ok_publish:
  assumes "rb_ok rb" and "rb_count rb \<noteq> 255" and "cons_ok rb pc"
  shows "cons_ok (rb\<lparr>rb_head := next_index (rb_head rb)\<rparr>) pc"
  using assms rb_publish(2,3) [OF assms(1,2) refl] by (cases pc) auto

lemma prod_ok_advance:
  assumes "rb_ok rb" and "rb_list rb \<noteq> []" and "prod_ok rb pc"
  shows "prod_ok (rb\<lparr>rb_tail := next_index (rb_tail rb)\<rparr>) pc"
proof -
  let ?rb' = "rb\<lparr>rb_tail := next_index (rb_tail rb)\<rparr>"
  have "rb_count rb = Suc (rb_count ?rb')"
    using arg_cong [OF rb_pop(2) [OF assms(1,2) refl], of length] by simp
  then show ?thesis
    using assms(3) rb_count_bound [OF assms(1)] by (cases pc) auto
qed

lemma put_step_inv: "put_step s t \<Longrightarrow> spsc_inv s \<Longrightarrow> spsc_inv t"
proof (induction rule: put_step.induct)
  case (put_room s c n)
  then show ?case by (auto simp: spsc_inv_def rb_full_iff)
next
  case (put_store s c n)
  then have "rb_ok (sp_ring s)" by (simp add: spsc_inv_def)
  from put_store rb_store [OF this refl, of c] cons_ok_store [OF this] show ?case
    by (auto simp: spsc_inv_def rb_count_def)
next
  case (put_publish s c n)
  then have ok: "rb_ok (sp_ring s)" "rb_count (sp_ring s) \<noteq> 255"
    by (auto simp: spsc_inv_def)
  from put_publish rb_publish [OF ok refl] cons_ok_publish [OF ok] show ?case
    by (auto simp: spsc_inv_def)
qed (auto simp: spsc_inv_def)

lemma get_step_inv: "get_step s t \<Longrightarrow> spsc_inv s \<Longrightarrow> spsc_inv t"
proof (induction rule: get_step.induct)
  case (get_head s)
  then show ?case by (auto simp: spsc_inv_def rb_ok_def rb_count_def)
next
  case (get_some s h)
  then have "rb_ok (sp_ring s)" "unat h < 256"
    "gap (unat (rb_tail (sp_ring s))) (unat h) \<le> rb_count (sp_ring s)"
    by (auto simp: spsc_inv_def)
  moreover from this get_some have "gap (unat (rb_tail (sp_ring s))) (unat h) \<noteq> 0"
    by (simp add: gap_0_iff rb_ok_def word_unat_eq_iff)
  ultimately have "rb_list (sp_ring s) \<noteq> []"
    by (simp flip: length_0_conv)
  with get_some show ?case by (auto simp: spsc_inv_def)
next
  case (get_load s)
  then have "rb_ok (sp_ring s)" "rb_list (sp_ring s) \<noteq> []" by (auto simp: spsc_inv_def)
  from get_load rb_pop(2) [OF this refl] show ?case by (auto simp: spsc_inv_def)
next
  case (get_advance s c)
  then have ok: "rb_ok (sp_ring s)" "rb_list (sp_ring s) \<noteq> []" by (auto simp: spsc_inv_def)
  from get_advance rb_pop [OF ok refl] prod_ok_advance [OF ok] show ?case
    by (auto simp: spsc_inv_def)
qed (auto simp: spsc_inv_def)

lemma spsc_reachable_inv:
  assumes "spsc_reachable rb s" and "length (rb_data rb) = 256"
  shows "spsc_inv s"
  using assms by (induction rule: spsc_reachable.induct)
    (auto simp: spsc_inv_init spsc_step_def intro: put_step_inv get_step_inv)

section \<open>Properties\<close>

text \<open>
  Neither core ever gets stuck: the next step of each is a function of the state (and of the
  byte the producer is called with), and it is always enabled, in particular no access leaves
  the array.
\<close>

definition put_next :: "u8 \<Rightarrow> spsc \<Rightarrow> spsc" where
  "put_next c s = (let rb = sp_ring s in case sp_prod s of
     P_Idle \<Rightarrow> s\<lparr>sp_prod := P_Call c\<rparr>
   | P_Call d \<Rightarrow> s\<lparr>sp_prod := P_Test d (next_index (rb_head rb))\<rparr>
   | P_Test d n \<Rightarrow> s\<lparr>sp_prod := (if n = rb_tail rb then P_Idle else P_Store d n)\<rparr>
   | P_Store d n \<Rightarrow> s\<lparr>sp_ring := rb\<lparr>rb_data := (rb_data rb)[unat (rb_head rb) := d]\<rparr>,
       sp_prod := P_Publish d n\<rparr>
   | P_Publish d n \<Rightarrow> s\<lparr>sp_ring := rb\<lparr>rb_head := n\<rparr>, sp_prod := P_Idle,
       sp_sent := sp_sent s @ [d]\<rparr>)"

definition get_next :: "spsc \<Rightarrow> spsc" where
  "get_next s = (let rb = sp_ring s in case sp_cons s of
     C_Idle \<Rightarrow> s\<lparr>sp_cons := C_Test (rb_head rb)\<rparr>
   | C_Test h \<Rightarrow> s\<lparr>sp_cons := (if h = rb_tail rb then C_Idle else C_Load)\<rparr>
   | C_Load \<Rightarrow> s\<lparr>sp_cons := C_Advance (rb_data rb ! unat (rb_tail rb))\<rparr>
   | C_Advance c \<Rightarrow> s\<lparr>sp_ring := rb\<lparr>rb_tail := next_index (rb_tail rb)\<rparr>, sp_cons := C_Idle,
       sp_received := sp_received s @ [c]\<rparr>)"

lemma put_next_step: "rb_ok (sp_ring s) \<Longrightarrow> put_step s (put_next c s)"
  by (cases "sp_prod s") (auto simp: put_next_def Let_def rb_ok_def intro: put_step.intros)

lemma get_next_step: "rb_ok (sp_ring s) \<Longrightarrow> get_step s (get_next s)"
  by (cases "sp_cons s") (auto simp: get_next_def Let_def rb_ok_def intro: get_step.intros)

lemma spsc_reachable_ok:
  "spsc_reachable rb s \<Longrightarrow> length (rb_data rb) = 256 \<Longrightarrow> rb_ok (sp_ring s)"
  using spsc_reachable_inv [of rb s] by (simp add: spsc_inv_def)

text \<open>A schedule: \<open>Some c\<close> lets the producer move (its next call sends \<open>c\<close>), \<open>None\<close> the consumer.\<close>

fun spsc_run :: "u8 option list \<Rightarrow> spsc \<Rightarrow> spsc" where
  "spsc_run [] s = s"
| "spsc_run (Some c # es) s = spsc_run es (put_next c s)"
| "spsc_run (None # es) s = spsc_run es (get_next s)"

lemma spsc_run_reachable:
  assumes "spsc_reachable rb s" and "length (rb_data rb) = 256"
  shows "spsc_reachable rb (spsc_run es s)"
  using assms(1)
proof (induction es s rule: spsc_run.induct)
  case (2 c es s)
  then show ?case
    using put_next_step [OF spsc_reachable_ok [OF "2.prems" assms(2)]]
    by (simp add: spsc_reachable.step spsc_step_def)
next
  case (3 es s)
  then show ?case
    using get_next_step [OF spsc_reachable_ok [OF "3.prems" assms(2)]]
    by (simp add: spsc_reachable.step spsc_step_def)
qed simp

text \<open>
  Run without interference, the steps of each core are the C function.
\<close>

lemma put_steps_are_ring_buffer_put:
  assumes "sp_prod s = P_Idle" and "ring_buffer_put (sp_ring s) c = Inr (r, rb')"
  shows "put_step\<^sup>*\<^sup>* s (s\<lparr>sp_ring := rb', sp_prod := P_Idle,
    sp_sent := sp_sent s @ (if r = 0 then [c] else [])\<rparr>)"
proof -
  define n where "n = next_index (rb_head (sp_ring s))"
  define s1 where "s1 = s\<lparr>sp_prod := P_Test c n\<rparr>"
  have "put_step s (s\<lparr>sp_prod := P_Call c\<rparr>)" "put_step (s\<lparr>sp_prod := P_Call c\<rparr>) s1"
    using assms(1) put_step.put_head [of "s\<lparr>sp_prod := P_Call c\<rparr>" c]
    by (auto simp: s1_def n_def intro: put_step.put_call)
  then have test: "put_step\<^sup>*\<^sup>* s s1" by simp
  show ?thesis
  proof (cases "n = rb_tail (sp_ring s)")
    case True
    then have "put_step s1 (s1\<lparr>sp_prod := P_Idle\<rparr>)"
      by (intro put_step.put_full [of _ c n]) (simp_all add: s1_def)
    moreover have "r = -1" "rb' = sp_ring s"
      using assms True by (simp_all add: s1_def ring_buffer_put_def n_def)
    ultimately show ?thesis using test by (simp add: s1_def)
  next
    case False
    let ?h = "unat (rb_head (sp_ring s))"
    have b: "?h < length (rb_data (sp_ring s))" and r: "r = 0"
      and rb': "rb' = (sp_ring s)\<lparr>rb_data := (rb_data (sp_ring s))[?h := c], rb_head := n\<rparr>"
      using assms(2) False by (auto simp: ring_buffer_put_def n_def Let_def split: if_splits)
    define s2 where "s2 = s\<lparr>sp_prod := P_Store c n\<rparr>"
    define s3 where "s3 = s2\<lparr>sp_ring := (sp_ring s)\<lparr>rb_data :=
      (rb_data (sp_ring s))[?h := c]\<rparr>, sp_prod := P_Publish c n\<rparr>"
    have "put_step s1 s2" "put_step s2 s3"
      "put_step s3 (s\<lparr>sp_ring := rb', sp_prod := P_Idle, sp_sent := sp_sent s @ [c]\<rparr>)"
      using put_step.put_room [of s1 c n] put_step.put_store [of s2 c n]
        put_step.put_publish [of s3 c n] assms(1) False b
      by (simp_all add: s1_def s2_def s3_def rb')
    with test show ?thesis
      by (simp add: r)
  qed
qed

lemma get_steps_are_ring_buffer_get:
  assumes "sp_cons s = C_Idle" and "ring_buffer_get (sp_ring s) d = Inr (r, c, rb')"
  shows "get_step\<^sup>*\<^sup>* s (s\<lparr>sp_ring := rb', sp_cons := C_Idle,
    sp_received := sp_received s @ (if r = 0 then [c] else [])\<rparr>)"
proof -
  define h where "h = rb_head (sp_ring s)"
  define s1 where "s1 = s\<lparr>sp_cons := C_Test h\<rparr>"
  have test: "get_step s s1"
    using assms(1) by (auto simp: s1_def h_def intro: get_step.get_head)
  show ?thesis
  proof (cases "h = rb_tail (sp_ring s)")
    case True
    then have "get_step s1 (s1\<lparr>sp_cons := C_Idle\<rparr>)"
      by (intro get_step.get_empty [of _ h]) (simp_all add: s1_def)
    moreover have "r = -1" "rb' = sp_ring s"
      using assms True by (simp_all add: s1_def ring_buffer_get_def h_def)
    ultimately show ?thesis using test by (simp add: s1_def)
  next
    case False
    let ?t = "unat (rb_tail (sp_ring s))"
    have b: "?t < length (rb_data (sp_ring s))" and r: "r = 0"
      and c: "c = rb_data (sp_ring s) ! ?t"
      and rb': "rb' = (sp_ring s)\<lparr>rb_tail := next_index (rb_tail (sp_ring s))\<rparr>"
      using assms(2) False by (auto simp: ring_buffer_get_def h_def split: if_splits)
    define s2 where "s2 = s\<lparr>sp_cons := C_Load\<rparr>"
    define s3 where "s3 = s\<lparr>sp_cons := C_Advance c\<rparr>"
    have "get_step s1 s2" "get_step s2 s3"
      "get_step s3 (s\<lparr>sp_ring := rb', sp_cons := C_Idle, sp_received := sp_received s @ [c]\<rparr>)"
      using get_step.get_some [of s1 h] get_step.get_load [of s2] get_step.get_advance [of s3 c]
        assms(1) False b
      by (simp_all add: s1_def s2_def s3_def rb' c)
    with test show ?thesis
      by (simp add: r)
  qed
qed

text \<open>
  Property C1: in every interleaving of one \<^verbatim>\<open>ring_buffer_put\<close> core and one
  \<^verbatim>\<open>ring_buffer_get\<close> core, with no lock, the bytes returned by the consumer are the
  bytes published by the producer, in order and none lost or doubled, and the rest is what
  the ring still holds (at most 255 of them).
\<close>
theorem spsc_fifo:
  assumes "spsc_reachable rb s" and "length (rb_data rb) = 256"
  shows "sp_sent s = sp_received s @ rb_list (sp_ring s) \<and> length (rb_list (sp_ring s)) \<le> 255"
  using spsc_reachable_inv [OF assms] rb_count_bound [of "sp_ring s"]
  by (auto simp: spsc_inv_def)

text \<open>A run in which the consumer takes the byte while the producer is already in its next call.\<close>

definition sample_ring :: ring_buffer where
  "sample_ring = \<lparr>rb_head = 0, rb_tail = 0, rb_data = replicate 256 0\<rparr>"

definition sample_state :: spsc where
  "sample_state = spsc_run (replicate 5 (Some 65) @ [None, Some 66, None, None, Some 66, None])
     (spsc_init sample_ring)"

lemma spsc_fifo_witness:
  "sp_received sample_state = [65] \<and> sp_prod sample_state = P_Test 66 2 \<and>
   sp_sent sample_state = sp_received sample_state @ rb_list (sp_ring sample_state)"
proof -
  have len: "length (rb_data sample_ring) = 256" by (simp add: sample_ring_def)
  have "spsc_reachable sample_ring sample_state"
    unfolding sample_state_def by (rule spsc_run_reachable [OF spsc_reachable.start len])
  from spsc_fifo [OF this len] show ?thesis
    by (simp add: sample_state_def) code_simp
qed

end
