(* ===== verification/Sha256.thy ===== *)
theory Sha256
  imports Prelude
begin

text \<open>
  \<^verbatim>\<open>include/crypto/sha256.c\<close> and \<^verbatim>\<open>tc_defs.h\<close>: the streaming SHA-256 of the program, as the
  code computes it (a rolling 16-word work space, a 64-byte leftover buffer, in-place padding).
  A pointer argument that may be NULL is an option; reading or writing outside an array is
  \<open>OutOfBounds\<close>.
\<close>

section \<open>Constants and state\<close>

definition TC_CRYPTO_SUCCESS :: int where "TC_CRYPTO_SUCCESS = 1"
definition TC_CRYPTO_FAIL :: int where "TC_CRYPTO_FAIL = 0"
definition TC_SHA256_BLOCK_SIZE :: nat where "TC_SHA256_BLOCK_SIZE = 64"

record sha256_state =
  sha_iv :: "u32 list"
  sha_bits_hashed :: u64
  sha_leftover :: "u8 list"
  sha_leftover_offset :: nat

text \<open>\<^verbatim>\<open>_set(to + off, val, len)\<close> on a byte array, and on the whole state struct.\<close>

definition set_bytes :: "nat \<Rightarrow> u8 \<Rightarrow> nat \<Rightarrow> u8 list \<Rightarrow> u8 list" where
  "set_bytes off val len xs = fold (\<lambda>i ys. ys[off + i := val]) [0..<len] xs"

definition zero_state :: sha256_state where
  "zero_state = \<lparr>sha_iv = replicate 8 0, sha_bits_hashed = 0, sha_leftover = replicate 64 0,
     sha_leftover_offset = 0\<rparr>"

definition initial_iv :: "u32 list" where
  "initial_iv = [0x6a09e667, 0xbb67ae85, 0x3c6ef372, 0xa54ff53a,
                 0x510e527f, 0x9b05688c, 0x1f83d9ab, 0x5be0cd19]"

text \<open>The table, one row for each line of the initialiser.\<close>

definition k256 :: "u32 list" where
  "k256 = concat [
    [0x428a2f98, 0x71374491, 0xb5c0fbcf, 0xe9b5dba5, 0x3956c25b, 0x59f111f1],
    [0x923f82a4, 0xab1c5ed5, 0xd807aa98, 0x12835b01, 0x243185be, 0x550c7dc3],
    [0x72be5d74, 0x80deb1fe, 0x9bdc06a7, 0xc19bf174, 0xe49b69c1, 0xefbe4786],
    [0x0fc19dc6, 0x240ca1cc, 0x2de92c6f, 0x4a7484aa, 0x5cb0a9dc, 0x76f988da],
    [0x983e5152, 0xa831c66d, 0xb00327c8, 0xbf597fc7, 0xc6e00bf3, 0xd5a79147],
    [0x06ca6351, 0x14292967, 0x27b70a85, 0x2e1b2138, 0x4d2c6dfc, 0x53380d13],
    [0x650a7354, 0x766a0abb, 0x81c2c92e, 0x92722c85, 0xa2bfe8a1, 0xa81a664b],
    [0xc24b8b70, 0xc76c51a3, 0xd192e819, 0xd6990624, 0xf40e3585, 0x106aa070],
    [0x19a4c116, 0x1e376c08, 0x2748774c, 0x34b0bcb5, 0x391c0cb3, 0x4ed8aa4a],
    [0x5b9cca4f, 0x682e6ff3, 0x748f82ee, 0x78a5636f, 0x84c87814, 0x8cc70208],
    [0x90befffa, 0xa4506ceb, 0xbef9a3f7, 0xc67178f2]]"

section \<open>Logical functions\<close>

definition ROTR :: "u32 \<Rightarrow> nat \<Rightarrow> u32" where
  "ROTR a n = drop_bit n a OR push_bit (32 - n) a"

definition Sigma0 :: "u32 \<Rightarrow> u32" where
  "Sigma0 a = ROTR a 2 XOR ROTR a 13 XOR ROTR a 22"

definition Sigma1 :: "u32 \<Rightarrow> u32" where
  "Sigma1 a = ROTR a 6 XOR ROTR a 11 XOR ROTR a 25"

definition sigma0 :: "u32 \<Rightarrow> u32" where
  "sigma0 a = ROTR a 7 XOR ROTR a 18 XOR drop_bit 3 a"

definition sigma1 :: "u32 \<Rightarrow> u32" where
  "sigma1 a = ROTR a 17 XOR ROTR a 19 XOR drop_bit 10 a"

definition Ch :: "u32 \<Rightarrow> u32 \<Rightarrow> u32 \<Rightarrow> u32" where
  "Ch a b c = (a AND b) XOR (NOT a AND c)"

definition Maj :: "u32 \<Rightarrow> u32 \<Rightarrow> u32 \<Rightarrow> u32" where
  "Maj a b c = (a AND b) XOR (a AND c) XOR (b AND c)"

text \<open>Reads four bytes and advances the pointer.\<close>

fun BigEndian :: "u8 list \<Rightarrow> (u32 \<times> u8 list) exec" where
  "BigEndian (b0 # b1 # b2 # b3 # c) =
     Inr (((push_bit 24 (ucast b0) OR push_bit 16 (ucast b1)) OR push_bit 8 (ucast b2))
          OR ucast b3, c)"
| "BigEndian _ = Inl OutOfBounds"

section \<open>The compression function\<close>

type_synonym regs = "u32 \<times> u32 \<times> u32 \<times> u32 \<times> u32 \<times> u32 \<times> u32 \<times> u32"

text \<open>The body both loops share, from \<^verbatim>\<open>t1 += ...\<close> on, with \<open>w\<close> the new work-space word.\<close>

fun compress_round :: "u32 \<Rightarrow> u32 \<Rightarrow> regs \<Rightarrow> regs" where
  "compress_round w k (a, b, c, d, e, f, g, h) =
     (let t1 = w + (h + Sigma1 e + Ch e f g + k);
          t2 = Sigma0 a + Maj a b c
      in (t1 + t2, a, b, c, d + t1, e, f, g))"

function compress_first :: "nat \<Rightarrow> u8 list \<Rightarrow> regs \<Rightarrow> u32 list \<Rightarrow> (regs \<times> u32 list) exec" where
  "compress_first i data r ws =
     (if i < 16 then
        bind_exec (BigEndian data) (\<lambda>(n, data').
          compress_first (Suc i) data' (compress_round n (k256 ! i) r) (ws[i := n]))
      else Inr (r, ws))"
  by pat_completeness auto
termination
  by (relation "measure (\<lambda>(i, data, r, ws). 16 - i)") auto

function compress_rest :: "nat \<Rightarrow> regs \<Rightarrow> u32 list \<Rightarrow> regs" where
  "compress_rest i r ws =
     (if i < 64 then
        let s0 = sigma0 (ws ! ((i + 1) AND 15));
            s1 = sigma1 (ws ! ((i + 14) AND 15));
            t1 = ws ! (i AND 15) + (s0 + s1 + ws ! ((i + 9) AND 15))
        in compress_rest (Suc i) (compress_round t1 (k256 ! i) r) (ws[i AND 15 := t1])
      else r)"
  by pat_completeness auto
termination
  by (relation "measure (\<lambda>(i, r, ws). 64 - i)") auto

declare compress_first.simps [simp del] compress_rest.simps [simp del]

text \<open>The work space starts uninitialised in C; every word is written before it is read.\<close>

fun compress :: "u32 list \<Rightarrow> u8 list \<Rightarrow> u32 list exec" where
  "compress [i0, i1, i2, i3, i4, i5, i6, i7] data =
     bind_exec (compress_first 0 data (i0, i1, i2, i3, i4, i5, i6, i7) (replicate 16 0))
       (\<lambda>(r, ws). case compress_rest 16 r ws of (a, b, c, d, e, f, g, h) \<Rightarrow>
          Inr [i0 + a, i1 + b, i2 + c, i3 + d, i4 + e, i5 + f, i6 + g, i7 + h])"
| "compress _ data = Inl OutOfBounds"

section \<open>The streaming interface\<close>

definition tc_sha256_init :: "sha256_state option \<Rightarrow> int \<times> sha256_state option" where
  "tc_sha256_init s = (case s of None \<Rightarrow> (TC_CRYPTO_FAIL, None)
     | Some _ \<Rightarrow> (TC_CRYPTO_SUCCESS, Some (zero_state\<lparr>sha_iv := initial_iv\<rparr>)))"

text \<open>One iteration of the loop of \<^verbatim>\<open>tc_sha256_update\<close>, for the byte \<open>b\<close>.\<close>

definition absorb :: "u8 \<Rightarrow> sha256_state \<Rightarrow> sha256_state exec" where
  "absorb b s =
     (if sha_leftover_offset s < length (sha_leftover s) then
        let left = (sha_leftover s)[sha_leftover_offset s := b];
            off = sha_leftover_offset s + 1
        in if off \<ge> TC_SHA256_BLOCK_SIZE then
             bind_exec (compress (sha_iv s) left) (\<lambda>iv.
               Inr \<lparr>sha_iv = iv,
                    sha_bits_hashed = sha_bits_hashed s + push_bit 3 (of_nat TC_SHA256_BLOCK_SIZE),
                    sha_leftover = left, sha_leftover_offset = 0\<rparr>)
           else Inr (s\<lparr>sha_leftover := left, sha_leftover_offset := off\<rparr>)
      else Inl OutOfBounds)"

fun update_loop :: "nat \<Rightarrow> u8 list \<Rightarrow> sha256_state \<Rightarrow> sha256_state exec" where
  "update_loop 0 data s = Inr s"
| "update_loop (Suc n) [] s = Inl OutOfBounds"
| "update_loop (Suc n) (b # data) s = bind_exec (absorb b s) (update_loop n data)"

definition tc_sha256_update ::
  "sha256_state option \<Rightarrow> u8 list option \<Rightarrow> nat \<Rightarrow> (int \<times> sha256_state option) exec" where
  "tc_sha256_update s data datalen =
     (case (s, data) of
        (Some st, Some bs) \<Rightarrow>
          if datalen = 0 then Inr (TC_CRYPTO_SUCCESS, s)
          else bind_exec (update_loop datalen bs st) (\<lambda>st'. Inr (TC_CRYPTO_SUCCESS, Some st'))
      | _ \<Rightarrow> Inr (TC_CRYPTO_FAIL, s))"

text \<open>The eight stores of the bit count, in the order of the code.\<close>

definition store_length :: "u64 \<Rightarrow> u8 list \<Rightarrow> u8 list" where
  "store_length bits left =
     left[63 := ucast bits, 62 := ucast (drop_bit 8 bits), 61 := ucast (drop_bit 16 bits),
          60 := ucast (drop_bit 24 bits), 59 := ucast (drop_bit 32 bits),
          58 := ucast (drop_bit 40 bits), 57 := ucast (drop_bit 48 bits),
          56 := ucast (drop_bit 56 bits)]"

definition word_bytes :: "u32 \<Rightarrow> u8 list" where
  "word_bytes t = [ucast (drop_bit 24 t), ucast (drop_bit 16 t), ucast (drop_bit 8 t), ucast t]"

text \<open>The padding of \<^verbatim>\<open>tc_sha256_final\<close>: the first, optional block and the last one.\<close>

definition final_iv :: "sha256_state \<Rightarrow> u32 list exec" where
  "final_iv s =
     (let bits = sha_bits_hashed s + of_nat (push_bit 3 (sha_leftover_offset s)) in
      if sha_leftover_offset s < length (sha_leftover s) then
        let left = (sha_leftover s)[sha_leftover_offset s := 0x80];
            off = sha_leftover_offset s + 1
        in bind_exec
             (if off > 64 - 8 then
                let left' = set_bytes off 0 (64 - off) left in
                bind_exec (compress (sha_iv s) left') (\<lambda>iv. Inr (iv, left', 0))
              else Inr (sha_iv s, left, off))
             (\<lambda>(iv, left, off).
                compress iv (store_length bits (set_bytes off 0 (64 - 8 - off) left)))
      else Inl OutOfBounds)"

definition tc_sha256_final ::
  "u8 list option \<Rightarrow> sha256_state option \<Rightarrow> (int \<times> u8 list option \<times> sha256_state option) exec" where
  "tc_sha256_final digest s =
     (case (digest, s) of
        (Some out, Some st) \<Rightarrow>
          bind_exec (final_iv st) (\<lambda>iv.
            if length out < 32 then Inl OutOfBounds
            else Inr (TC_CRYPTO_SUCCESS, Some (concat (map word_bytes iv) @ drop 32 out),
                      Some zero_state))
      | _ \<Rightarrow> Inr (TC_CRYPTO_FAIL, digest, s))"

end
