(* ===== verification/Fips180.thy ===== *)
theory Fips180
  imports Prelude
begin

text \<open>
  The specification the hash code is measured against: SHA-256 of FIPS 180-4 on byte strings.
  It shares no definition with the model of the code: rotation is the library's, the message
  schedule is the standard's recurrence, padding and parsing are list functions, and the
  constants are the fractional parts of the roots of primes, not tables.
\<close>

section \<open>Constants\<close>

definition is_prime :: "nat \<Rightarrow> bool" where
  "is_prime n \<longleftrightarrow> 1 < n \<and> list_all (\<lambda>d. n mod d \<noteq> 0) [2..<n]"

definition primes_below :: "nat \<Rightarrow> nat list" where
  "primes_below n = filter is_prime [0..<n]"

text \<open>The integer \<open>k\<close>-th root, bit by bit from below \<open>2 ^ b\<close>.\<close>

fun root_bits :: "nat \<Rightarrow> nat \<Rightarrow> nat \<Rightarrow> nat \<Rightarrow> nat" where
  "root_bits k n 0 r = r"
| "root_bits k n (Suc b) r = root_bits k n b (if (r + 2 ^ b) ^ k \<le> n then r + 2 ^ b else r)"

definition iroot :: "nat \<Rightarrow> nat \<Rightarrow> nat" where
  "iroot k n = root_bits k n 40 0"

text \<open>
  The first 32 bits of the fractional part of the \<open>k\<close>-th root of \<open>p\<close>: the root of
  \<open>p * 2 ^ (32 * k)\<close>, rounded down, without the integer part.
\<close>

definition root_frac32 :: "nat \<Rightarrow> nat \<Rightarrow> u32" where
  "root_frac32 k p = of_nat (iroot k (p * 2 ^ (32 * k)))"

definition H0_spec :: "u32 list" where
  "H0_spec = map (root_frac32 2) (primes_below 20)"

definition K_spec :: "u32 list" where
  "K_spec = map (root_frac32 3) (primes_below 312)"

text \<open>\<open>iroot\<close> is the root.\<close>

lemma root_bits_bounds:
  assumes "r ^ k \<le> n" and "n < (r + 2 ^ b) ^ k"
  shows "root_bits k n b r ^ k \<le> n \<and> n < (root_bits k n b r + 1) ^ k"
  using assms
proof (induction b arbitrary: r)
  case 0
  then show ?case by simp
next
  case (Suc b)
  have "r + 2 ^ Suc b = (r + 2 ^ b) + 2 ^ b" by simp
  with Suc.prems have "n < ((r + 2 ^ b) + 2 ^ b) ^ k" by metis
  with Suc.prems Suc.IH [of r] Suc.IH [of "r + 2 ^ b"] show ?case
    by (cases "(r + 2 ^ b) ^ k \<le> n") simp_all
qed

lemma iroot_unique:
  assumes "0 < k" and "r ^ k \<le> n" and "n < (r + 1) ^ k" and "r < 2 ^ 40"
  shows "iroot k n = r"
proof -
  have "(r + 1) ^ k \<le> (0 + 2 ^ 40) ^ k"
    using assms(4) by (intro power_mono) simp_all
  with assms(3) have "n < (0 + 2 ^ 40) ^ k" by (rule order_less_le_trans)
  with assms have "root_bits k n 40 0 ^ k \<le> n \<and> n < (root_bits k n 40 0 + 1) ^ k"
    by (intro root_bits_bounds) (auto simp: power_0_left)
  then have "iroot k n ^ k < (r + 1) ^ k" and "r ^ k < (iroot k n + 1) ^ k"
    using assms by (auto simp: iroot_def)
  then have "iroot k n < r + 1" and "r < iroot k n + 1"
    using assms(1) by (auto intro: power_less_imp_less_base)
  then show ?thesis by simp
qed

text \<open>A 32-bit word is the fraction of a root if its integer part \<open>c\<close> makes the bounds true.\<close>

definition root_check :: "nat \<Rightarrow> nat \<Rightarrow> nat \<Rightarrow> nat \<Rightarrow> bool" where
  "root_check k p c w \<longleftrightarrow> (let r = c * 2 ^ 32 + w; n = p * 2 ^ (32 * k) in
     c < 16 \<and> w < 2 ^ 32 \<and> r ^ k \<le> n \<and> n < (r + 1) ^ k)"

lemma root_frac32_check: "0 < k \<Longrightarrow> root_check k p c w \<Longrightarrow> root_frac32 k p = of_nat w"
proof -
  assume k: "0 < k" and check: "root_check k p c w"
  then have "c * 2 ^ 32 + w < 2 ^ 40" by (simp add: root_check_def Let_def)
  with k check have "iroot k (p * 2 ^ (32 * k)) = c * 2 ^ 32 + w"
    by (intro iroot_unique) (auto simp: root_check_def Let_def)
  moreover have "(of_nat (c * 2 ^ 32) :: u32) = 0"
    by (subst word_of_nat_eq_0_iff) simp
  ultimately show ?thesis
    by (simp only: root_frac32_def of_nat_add) simp
qed

lemma root_frac32_table:
  "0 < k \<Longrightarrow> list_all (\<lambda>(p, c, w). root_check k p c w) tab \<Longrightarrow>
    map (root_frac32 k) (map fst tab) = map (\<lambda>(p, c, w). of_nat w) tab"
  by (induction tab) (auto simp: root_frac32_check)

text \<open>Below \<open>18\<^sup>2\<close> trial division by the numbers up to 17 decides primality.\<close>

fun trial_division :: "nat \<Rightarrow> nat list \<Rightarrow> bool" where
  "trial_division n [] = True"
| "trial_division n (d # ds) =
     (if n < d * d then True else if n mod d = 0 then False else trial_division n ds)"

lemma trial_division_iff:
  "sorted ds \<Longrightarrow> trial_division n ds \<longleftrightarrow> (\<forall>d \<in> set ds. d * d \<le> n \<longrightarrow> n mod d \<noteq> 0)"
proof (induction ds)
  case (Cons d ds)
  show ?case
  proof (cases "n < d * d")
    case True
    have "n < e * e" if "e \<in> set (d # ds)" for e
      using that True Cons.prems mult_le_mono [of d e d e] by fastforce
    then have "\<not> e * e \<le> n" if "e \<in> set (d # ds)" for e
      using that by (simp add: not_le)
    with True show ?thesis by fastforce
  next
    case False
    with Cons show ?thesis by auto
  qed
qed simp

lemma is_prime_trial:
  assumes "n < 18 * 18"
  shows "is_prime n \<longleftrightarrow> 1 < n \<and> trial_division n [2..<18]"
proof -
  have "(\<forall>d \<in> {2..<18}. d * d \<le> n \<longrightarrow> n mod d \<noteq> 0) \<longleftrightarrow> (\<forall>d \<in> {2..<n}. n mod d \<noteq> 0)"
    (is "?small \<longleftrightarrow> ?all")
  proof
    assume small: ?small
    show ?all
    proof (intro ballI notI)
      fix d assume d: "d \<in> {2..<n}" and "n mod d = 0"
      then obtain e where n: "n = d * e" by (auto elim: dvdE)
      with d have "2 \<le> e" by (cases e) (auto simp: numeral_2_eq_2)
      define m where "m = min d e"
      have m: "m * m \<le> n" "n mod m = 0"
        unfolding n m_def by (auto simp: min_def)
      with assms have "m < 18"
        using mult_le_mono [of 18 m 18 m] by (cases "m < 18") auto
      with m small d \<open>2 \<le> e\<close> show False
        by (auto simp: m_def)
    qed
  next
    assume all: ?all
    show ?small
    proof (intro ballI impI)
      fix d assume "d \<in> {2..<18}" and "d * d \<le> n"
      moreover from this have "2 * d \<le> n"
        by (metis atLeastLessThan_iff mult_le_mono1 order_trans)
      ultimately show "n mod d \<noteq> 0" using all by simp
    qed
  qed
  then show ?thesis
    unfolding is_prime_def list_all_iff by (simp only: trial_division_iff sorted_upt set_upt)
qed

lemma primes_below_trial:
  "n \<le> 18 * 18 \<Longrightarrow> primes_below n = filter (\<lambda>n. trial_division n [2..<18]) [2..<n]"
proof -
  assume n: "n \<le> 18 * 18"
  have "primes_below n = filter is_prime [2..<n]"
  proof (cases "2 \<le> n")
    case True
    then have "[0..<n] = [0, 1] @ [2..<n]"
      by (simp add: upt_conv_Cons numeral_2_eq_2)
    then show ?thesis by (simp add: primes_below_def is_prime_def)
  next
    case False
    then show ?thesis by (auto simp: primes_below_def is_prime_def filter_empty_conv)
  qed
  also have "\<dots> = filter (\<lambda>n. trial_division n [2..<18]) [2..<n]"
    using n by (intro filter_cong) (auto simp: is_prime_trial)
  finally show ?thesis .
qed

section \<open>Functions on words\<close>

definition f_ch :: "u32 \<Rightarrow> u32 \<Rightarrow> u32 \<Rightarrow> u32" where
  "f_ch x y z = (x AND y) XOR (NOT x AND z)"

definition f_maj :: "u32 \<Rightarrow> u32 \<Rightarrow> u32 \<Rightarrow> u32" where
  "f_maj x y z = (x AND y) XOR (x AND z) XOR (y AND z)"

definition S0 :: "u32 \<Rightarrow> u32" where
  "S0 x = word_rotr 2 x XOR word_rotr 13 x XOR word_rotr 22 x"

definition S1 :: "u32 \<Rightarrow> u32" where
  "S1 x = word_rotr 6 x XOR word_rotr 11 x XOR word_rotr 25 x"

definition s0 :: "u32 \<Rightarrow> u32" where
  "s0 x = word_rotr 7 x XOR word_rotr 18 x XOR drop_bit 3 x"

definition s1 :: "u32 \<Rightarrow> u32" where
  "s1 x = word_rotr 17 x XOR word_rotr 19 x XOR drop_bit 10 x"

section \<open>Preprocessing\<close>

text \<open>
  A message is padded by one 1 bit, the least number of 0 bits that leaves 64 bits of the last
  block, and its length in bits, modulo \<open>2 ^ 64\<close>.
\<close>

definition be64 :: "u64 \<Rightarrow> u8 list" where
  "be64 n = map (\<lambda>i. ucast (drop_bit (8 * (7 - i)) n)) [0..<8]"

definition pad :: "u8 list \<Rightarrow> u8 list" where
  "pad m = m @ 0x80 # replicate ((119 - length m mod 64) mod 64) 0 @ be64 (of_nat (8 * length m))"

function chunks :: "'a list \<Rightarrow> 'a list list" where
  "chunks xs = (if xs = [] then [] else take 64 xs # chunks (drop 64 xs))"
  by pat_completeness auto
termination
  by (relation "measure length") auto

declare chunks.simps [simp del]

fun parse_words :: "u8 list \<Rightarrow> u32 list" where
  "parse_words (a # b # c # d # bs) =
     of_nat (unat a * 2 ^ 24 + unat b * 2 ^ 16 + unat c * 2 ^ 8 + unat d) # parse_words bs"
| "parse_words _ = []"

section \<open>Hash computation\<close>

function schedule :: "u32 list \<Rightarrow> nat \<Rightarrow> u32" where
  "schedule M t =
     (if t < 16 then M ! t
      else s1 (schedule M (t - 2)) + schedule M (t - 7) + s0 (schedule M (t - 15))
           + schedule M (t - 16))"
  by pat_completeness auto
termination
  by (relation "measure snd") auto

declare schedule.simps [simp del]

type_synonym vars = "u32 \<times> u32 \<times> u32 \<times> u32 \<times> u32 \<times> u32 \<times> u32 \<times> u32"

fun fips_round :: "u32 \<Rightarrow> u32 \<Rightarrow> vars \<Rightarrow> vars" where
  "fips_round W K (a, b, c, d, e, f, g, h) =
     (let T1 = h + S1 e + f_ch e f g + K + W;
          T2 = S0 a + f_maj a b c
      in (T1 + T2, a, b, c, d + T1, e, f, g))"

definition fips_block :: "u32 list \<Rightarrow> u8 list \<Rightarrow> u32 list" where
  "fips_block H block =
     (let M = parse_words block in
      case fold (\<lambda>t. fips_round (schedule M t) (K_spec ! t)) [0..<64]
             (H ! 0, H ! 1, H ! 2, H ! 3, H ! 4, H ! 5, H ! 6, H ! 7) of
        (a, b, c, d, e, f, g, h) \<Rightarrow>
          [H ! 0 + a, H ! 1 + b, H ! 2 + c, H ! 3 + d,
           H ! 4 + e, H ! 5 + f, H ! 6 + g, H ! 7 + h])"

definition be32 :: "u32 \<Rightarrow> u8 list" where
  "be32 w = map (\<lambda>i. ucast (drop_bit (8 * (3 - i)) w)) [0..<4]"

definition sha256 :: "u8 list \<Rightarrow> u8 list" where
  "sha256 m = concat (map be32 (foldl fips_block H0_spec (chunks (pad m))))"

section \<open>Chunks and lengths\<close>

lemma chunks_Nil [simp]: "chunks [] = []"
  by (simp add: chunks.simps)

lemma chunks_append:
  "length xs mod 64 = 0 \<Longrightarrow> chunks (xs @ ys) = chunks xs @ chunks ys"
proof (induction xs rule: chunks.induct)
  case (1 xs)
  show ?case
  proof (cases "xs = []")
    case False
    with "1.prems" have len: "64 \<le> length xs"
      by (metis length_0_conv mod_less not_le)
    then have "chunks (drop 64 xs @ ys) = chunks (drop 64 xs) @ chunks ys"
      using "1.IH" False "1.prems" by (simp add: le_mod_geq)
    with False len show ?thesis
      by (simp add: chunks.simps [of xs] chunks.simps [of "xs @ ys"])
  qed simp
qed

lemma chunks_one: "length xs = 64 \<Longrightarrow> chunks xs = [xs]"
  by (subst chunks.simps) auto

lemma length_fips_block [simp]: "length (fips_block H b) = 8"
  by (simp add: fips_block_def Let_def split: prod.split)

lemma length_foldl_fips_block [simp]:
  "length H = 8 \<Longrightarrow> length (foldl fips_block H bs) = 8"
  by (induction bs rule: rev_induct) simp_all

end
