(* ===== verification/Sha256_Constants.thy ===== *)
theory Sha256_Constants
  imports Sha256 Fips180
begin

text \<open>
  The constant tables of the code are the ones the standard defines: the initial value holds
  the fractions of the square roots of the first eight primes, \<open>k256\<close> those of the cube roots
  of the first sixty-four.  Each table entry is checked with the integer part of its root.
\<close>

definition H0_table :: "(nat \<times> nat \<times> nat) list" where
  "H0_table =
    [(2, 1, 0x6a09e667), (3, 1, 0xbb67ae85), (5, 2, 0x3c6ef372), (7, 2, 0xa54ff53a),
     (11, 3, 0x510e527f), (13, 3, 0x9b05688c), (17, 4, 0x1f83d9ab), (19, 4, 0x5be0cd19)]"

definition K_table :: "(nat \<times> nat \<times> nat) list" where
  "K_table =
    [(2, 1, 0x428a2f98), (3, 1, 0x71374491), (5, 1, 0xb5c0fbcf), (7, 1, 0xe9b5dba5),
     (11, 2, 0x3956c25b), (13, 2, 0x59f111f1), (17, 2, 0x923f82a4), (19, 2, 0xab1c5ed5),
     (23, 2, 0xd807aa98), (29, 3, 0x12835b01), (31, 3, 0x243185be), (37, 3, 0x550c7dc3),
     (41, 3, 0x72be5d74), (43, 3, 0x80deb1fe), (47, 3, 0x9bdc06a7), (53, 3, 0xc19bf174),
     (59, 3, 0xe49b69c1), (61, 3, 0xefbe4786), (67, 4, 0x0fc19dc6), (71, 4, 0x240ca1cc),
     (73, 4, 0x2de92c6f), (79, 4, 0x4a7484aa), (83, 4, 0x5cb0a9dc), (89, 4, 0x76f988da),
     (97, 4, 0x983e5152), (101, 4, 0xa831c66d), (103, 4, 0xb00327c8), (107, 4, 0xbf597fc7),
     (109, 4, 0xc6e00bf3), (113, 4, 0xd5a79147), (127, 5, 0x06ca6351), (131, 5, 0x14292967),
     (137, 5, 0x27b70a85), (139, 5, 0x2e1b2138), (149, 5, 0x4d2c6dfc), (151, 5, 0x53380d13),
     (157, 5, 0x650a7354), (163, 5, 0x766a0abb), (167, 5, 0x81c2c92e), (173, 5, 0x92722c85),
     (179, 5, 0xa2bfe8a1), (181, 5, 0xa81a664b), (191, 5, 0xc24b8b70), (193, 5, 0xc76c51a3),
     (197, 5, 0xd192e819), (199, 5, 0xd6990624), (211, 5, 0xf40e3585), (223, 6, 0x106aa070),
     (227, 6, 0x19a4c116), (229, 6, 0x1e376c08), (233, 6, 0x2748774c), (239, 6, 0x34b0bcb5),
     (241, 6, 0x391c0cb3), (251, 6, 0x4ed8aa4a), (257, 6, 0x5b9cca4f), (263, 6, 0x682e6ff3),
     (269, 6, 0x748f82ee), (271, 6, 0x78a5636f), (277, 6, 0x84c87814), (281, 6, 0x8cc70208),
     (283, 6, 0x90befffa), (293, 6, 0xa4506ceb), (307, 6, 0xbef9a3f7), (311, 6, 0xc67178f2)]"

lemma primes_20: "primes_below 20 = map fst H0_table"
  by (simp add: primes_below_trial H0_table_def)

lemma primes_312: "primes_below 312 = map fst K_table"
  by (simp add: primes_below_trial K_table_def)

lemma H0_table_check: "list_all (\<lambda>(p, c, w). root_check 2 p c w) H0_table"
  by (simp add: H0_table_def root_check_def)

lemma K_table_check: "list_all (\<lambda>(p, c, w). root_check 3 p c w) K_table"
  by (simp add: K_table_def root_check_def)

lemma initial_iv_spec: "H0_spec = initial_iv"
proof -
  have "H0_spec = map (\<lambda>(p, c, w). of_nat w) H0_table"
    unfolding H0_spec_def primes_20 by (rule root_frac32_table [OF _ H0_table_check]) simp
  then show ?thesis by (simp add: H0_table_def initial_iv_def)
qed

lemma k256_spec: "K_spec = k256"
proof -
  have "K_spec = map (\<lambda>(p, c, w). of_nat w) K_table"
    unfolding K_spec_def primes_312 by (rule root_frac32_table [OF _ K_table_check]) simp
  then show ?thesis by (simp add: K_table_def k256_def)
qed

text \<open>
  The tables of \<^verbatim>\<open>sha256.c\<close> are what its comments say.  The eight initial words
  are the first 32 bits of the fractional parts of the square roots of the primes below 20,
  and the 64 words of \<open>k256\<close> those of the cube roots of the 64 primes from 2 to 311.
\<close>
theorem sha256_tables_correct:
  "initial_iv = map (root_frac32 2) (primes_below 20) \<and>
   k256 = map (root_frac32 3) (primes_below 312) \<and> length k256 = 64"
  using initial_iv_spec k256_spec by (simp add: H0_spec_def K_spec_def) (simp add: k256_def)

end
