(* ===== verification/Streaming_Hash.thy ===== *)
theory Streaming_Hash
  imports Prelude
begin

text \<open>
  The interface through which \<^verbatim>\<open>hmac_sha256.c\<close> uses a hash: the \<open>init\<close>, \<open>update\<close> and \<open>final\<close>
  calls in the C signatures of TinyCrypt, and the law that makes them a hash of the
  concatenation of what was fed in.
\<close>

locale streaming_hash =
  fixes init :: "'s option \<Rightarrow> int \<times> 's option"
    and update :: "'s option \<Rightarrow> u8 list option \<Rightarrow> nat \<Rightarrow> (int \<times> 's option) exec"
    and final :: "u8 list option \<Rightarrow> 's option \<Rightarrow> (int \<times> u8 list option \<times> 's option) exec"
    and fed :: "u8 list \<Rightarrow> 's \<Rightarrow> bool"
    and hash :: "u8 list \<Rightarrow> u8 list"
    and digest_size :: nat
  assumes init_fed: "\<exists>s'. init (Some s) = (1, Some s') \<and> fed [] s'"
    and update_fed: "fed m s \<Longrightarrow> n \<le> length d \<Longrightarrow>
      \<exists>s'. update (Some s) (Some d) n = Inr (1, Some s') \<and> fed (m @ take n d) s'"
    and final_fed: "fed m s \<Longrightarrow> digest_size \<le> length out \<Longrightarrow>
      \<exists>s'. final (Some out) (Some s) = Inr (1, Some (hash m @ drop digest_size out), Some s')"
    and hash_size: "length (hash m) = digest_size"
begin

text \<open>A client that hashes a list of buffers gets the hash of their concatenation.\<close>

lemma updates_fed:
  assumes "fed m s"
  shows "\<exists>s'. foldl (\<lambda>st d. bind_exec st (\<lambda>(_, s). update s (Some d) (length d)))
      (Inr (r, Some s)) ds = Inr (if ds = [] then r else 1, Some s') \<and> fed (m @ concat ds) s'"
  using assms
proof (induction ds arbitrary: m s r)
  case Nil
  then show ?case by simp
next
  case (Cons d ds)
  from update_fed [OF Cons.prems, of "length d" d] obtain s1
    where "update (Some s) (Some d) (length d) = Inr (1, Some s1)" "fed (m @ d) s1" by auto
  with Cons.IH [of "m @ d" s1 1] show ?case by simp
qed

text \<open>The pattern of \<^verbatim>\<open>hmac_tag_compute\<close>: one hash over two buffers, into a digest buffer.\<close>

lemma hash_two:
  assumes "n1 \<le> length d1" and "n2 \<le> length d2" and "length out = digest_size"
  shows "\<exists>s'. bind_exec (update (snd (init (Some s))) (Some d1) n1) (\<lambda>(_, s1).
     bind_exec (update s1 (Some d2) n2) (\<lambda>(_, s2). final (Some out) s2)) =
     Inr (1, Some (hash (take n1 d1 @ take n2 d2)), Some s')"
proof -
  obtain s0 where s0: "init (Some s) = (1, Some s0)" "fed [] s0" using init_fed by blast
  obtain s1 where s1: "update (Some s0) (Some d1) n1 = Inr (1, Some s1)" "fed (take n1 d1) s1"
    using update_fed [OF s0(2) assms(1)] by auto
  obtain s2 where s2: "update (Some s1) (Some d2) n2 = Inr (1, Some s2)"
      "fed (take n1 d1 @ take n2 d2) s2"
    using update_fed [OF s1(2) assms(2)] by auto
  obtain s3 where s3: "final (Some out) (Some s2) =
      Inr (1, Some (hash (take n1 d1 @ take n2 d2) @ drop digest_size out), Some s3)"
    using final_fed [OF s2(2), of out] assms(3) by auto
  show ?thesis
    using assms(3) by (simp add: s0 s1 s2 s3)
qed

end

end
