(* ===== verification/Sha256_Correct.thy ===== *)
theory Sha256_Correct
  imports Sha256_Constants Streaming_Hash
begin

text \<open>
  The streaming hash of the code refines FIPS 180-4: its word functions are the standard's,
  the rolling work space holds the message schedule, and the state after any sequence of
  updates is determined by the message absorbed so far.
\<close>

section \<open>Word functions\<close>

lemma ROTR_word_rotr:
  assumes "0 < n" and "n < 32"
  shows "ROTR a n = word_rotr n a"
proof (rule bit_eqI)
  fix i assume "possible_bit TYPE(u32) i"
  then have "i < 32" by (simp add: possible_bit_word)
  with assms show "bit (ROTR a n) i \<longleftrightarrow> bit (word_rotr n a) i"
    by (cases "i + n < 32")
      (auto simp: ROTR_def bit_simps le_mod_geq not_less add.commute dest: bit_imp_le_length)
qed

lemma sha_functions:
  "Sigma0 x = S0 x" "Sigma1 x = S1 x" "sigma0 x = s0 x" "sigma1 x = s1 x"
  "Ch x y z = f_ch x y z" "Maj x y z = f_maj x y z"
  by (simp_all add: Sigma0_def S0_def Sigma1_def S1_def sigma0_def s0_def sigma1_def s1_def
      Ch_def f_ch_def Maj_def f_maj_def ROTR_word_rotr)

lemma compress_round_fips: "compress_round = fips_round"
proof (intro ext)
  fix w k r
  show "compress_round w k r = fips_round w k r"
    by (cases "(w, k, r)" rule: compress_round.cases)
      (simp add: sha_functions Let_def ac_simps)
qed

lemma regs_cases:
  fixes r :: regs
  obtains a b c d e f g h where "r = (a, b, c, d, e, f, g, h)"
  using compress_round.cases [of "(0, 0, r)" thesis] by auto

lemma or_disjoint: "(x :: u32) AND y = 0 \<Longrightarrow> x OR y = x + y"
  by (simp add: disjunctive_add_eq_or)

lemma big_endian_word:
  fixes a b c d :: u8
  shows "((push_bit 24 (ucast a) OR push_bit 16 (ucast b)) OR push_bit 8 (ucast c)) OR ucast d =
    (of_nat (unat a * 2 ^ 24 + unat b * 2 ^ 16 + unat c * 2 ^ 8 + unat d) :: u32)"
proof -
  let ?w = "\<lambda>n x. push_bit n (ucast (x :: u8)) :: u32"
  have high: "\<not> bit (ucast (x :: u8) :: u32) i" if "8 \<le> i" for x i
    using that by (auto simp: bit_simps dest: bit_imp_le_length)
  have "?w 24 a AND ?w 16 b = 0" "(?w 24 a OR ?w 16 b) AND ?w 8 c = 0"
    "((?w 24 a OR ?w 16 b) OR ?w 8 c) AND ucast d = 0"
    by (auto simp: bit_eq_iff bit_and_iff bit_or_iff bit_push_bit_iff high)
  then have "((?w 24 a OR ?w 16 b) OR ?w 8 c) OR ucast d = ?w 24 a + ?w 16 b + ?w 8 c + ucast d"
    by (simp add: or_disjoint)
  also have "\<dots> = of_nat (unat a * 2 ^ 24 + unat b * 2 ^ 16 + unat c * 2 ^ 8 + unat d)"
    by (simp add: push_bit_eq_mult unsigned_of_nat)
  finally show ?thesis .
qed

lemma BigEndian_parse:
  "length data = 4 * Suc n \<Longrightarrow> \<exists>data'. BigEndian data = Inr (hd (parse_words data), data') \<and>
     parse_words data = hd (parse_words data) # parse_words data' \<and> length data' = 4 * n"
  by (cases data rule: parse_words.cases) (auto simp: big_endian_word simp del: of_nat_add of_nat_mult)

lemma length_parse_words: "length data = 4 * n \<Longrightarrow> length (parse_words data) = n"
proof (induction n arbitrary: data)
  case (Suc n)
  then show ?case by (cases data rule: parse_words.cases) auto
qed simp

section \<open>The two loops of the compression function\<close>

lemma compress_first_eq:
  assumes "i \<le> 16" and "length ws = 16" and "length data = 4 * (16 - i)"
  shows "compress_first i data r ws =
    Inr (fold (\<lambda>t. compress_round (parse_words data ! (t - i)) (k256 ! t)) [i..<16] r,
         take i ws @ parse_words data)"
  using assms
proof (induction i data r ws rule: compress_first.induct)
  case (1 i data r ws)
  show ?case
  proof (cases "i < 16")
    case True
    then have "length data = 4 * Suc (15 - i)" using "1.prems" by simp
    from BigEndian_parse [OF this] obtain n data' where be: "BigEndian data = Inr (n, data')"
      and p: "parse_words data = n # parse_words data'" and len: "length data' = 4 * (15 - i)"
      by (metis list.sel(1))
    have "fold (\<lambda>t. compress_round (parse_words data ! (t - i)) (k256 ! t)) [Suc i..<16] s =
        fold (\<lambda>t. compress_round (parse_words data' ! (t - Suc i)) (k256 ! t)) [Suc i..<16] s" for s
      by (intro fold_cong) (auto simp: p nth_Cons' Suc_diff_Suc)
    moreover have "take (Suc i) (ws[i := n]) = take i ws @ [n]"
      using True "1.prems" by (simp add: take_Suc_update)
    ultimately show ?thesis
      using "1.IH" [OF True, of n data'] True "1.prems" len
      by (simp add: compress_first.simps [of i] be p upt_conv_Cons)
  next
    case False
    with "1.prems" show ?thesis by (subst compress_first.simps) simp
  qed
qed

lemma and_15: "(i::nat) AND 15 = i mod 16"
  using take_bit_eq_mask [of 4 i] by (simp add: take_bit_eq_mod mask_eq_exp_minus_1)

definition window :: "u32 list \<Rightarrow> nat \<Rightarrow> u32 list \<Rightarrow> bool" where
  "window M i ws \<longleftrightarrow> length ws = 16 \<and> (\<forall>j. i \<le> j + 16 \<and> j < i \<longrightarrow> ws ! (j mod 16) = schedule M j)"

lemma window_nth:
  "window M i ws \<Longrightarrow> 16 \<le> i \<Longrightarrow> k < 16 \<Longrightarrow> ws ! ((i + k) mod 16) = schedule M (i + k - 16)"
proof -
  assume w: "window M i ws" and "16 \<le> i" "k < 16"
  then have "(i + k) mod 16 = (i + k - 16) mod 16" by (simp add: le_mod_geq)
  moreover have "i \<le> (i + k - 16) + 16 \<and> i + k - 16 < i"
    using \<open>16 \<le> i\<close> \<open>k < 16\<close> by arith
  ultimately show ?thesis using w unfolding window_def by metis
qed

lemma window_step:
  assumes "window M i ws" and "16 \<le> i"
  shows "window M (Suc i) (ws[i mod 16 := schedule M i])"
proof -
  have "i mod 16 \<noteq> j mod 16" if "Suc i \<le> j + 16" "j < i" for j
  proof
    assume "i mod 16 = j mod 16"
    then have "16 dvd i - j" using that(2) by (metis less_imp_le mod_eq_dvd_iff_nat)
    with that show False by (auto dest: dvd_imp_le)
  qed
  with assms show ?thesis
    by (auto simp: window_def nth_list_update less_Suc_eq)
qed

lemma compress_rest_eq:
  assumes "window M i ws" and "16 \<le> i"
  shows "compress_rest i r ws =
    fold (\<lambda>t. compress_round (schedule M t) (k256 ! t)) [i..<64] r"
  using assms
proof (induction i r ws rule: compress_rest.induct)
  case (1 i r ws)
  show ?case
  proof (cases "i < 64")
    case True
    define t1 where "t1 = ws ! (i mod 16) +
      (sigma0 (ws ! ((i + 1) mod 16)) + sigma1 (ws ! ((i + 14) mod 16)) + ws ! ((i + 9) mod 16))"
    have t1: "t1 = schedule M i"
      using window_nth [OF "1.prems", of 0] window_nth [OF "1.prems", of 1]
        window_nth [OF "1.prems", of 14] window_nth [OF "1.prems", of 9] "1.prems"(2)
      by (subst schedule.simps) (simp add: t1_def sha_functions ac_simps numeral_2_eq_2)
    have "compress_rest i r ws =
        compress_rest (Suc i) (compress_round t1 (k256 ! i) r) (ws[i mod 16 := t1])"
      using True by (simp add: compress_rest.simps [of i] and_15 t1_def Let_def)
    also have "\<dots> = fold (\<lambda>t. compress_round (schedule M t) (k256 ! t)) [Suc i..<64]
        (compress_round t1 (k256 ! i) r)"
      using "1.IH" [OF True refl refl refl, unfolded and_15, folded t1_def, unfolded t1]
        window_step [OF "1.prems"] "1.prems"(2)
      by (simp add: t1)
    finally show ?thesis
      using True by (simp add: t1 upt_conv_Cons)
  next
    case False
    then show ?thesis by (simp add: compress_rest.simps [of i])
  qed
qed

text \<open>The compression function of the code is the block step of the standard.\<close>

lemma compress_fips:
  assumes "length H = 8" and "length data = 64"
  shows "compress H data = Inr (fips_block H data)"
proof -
  define M where "M = parse_words data"
  obtain i0 i1 i2 i3 i4 i5 i6 i7 where H: "H = [i0, i1, i2, i3, i4, i5, i6, i7]"
    using assms(1) by (auto simp: length_Suc_conv eval_nat_numeral)
  let ?r = "(i0, i1, i2, i3, i4, i5, i6, i7)"
  let ?step = "\<lambda>t. compress_round (schedule M t) (k256 ! t)"
  have len: "length M = 16"
    using length_parse_words [of data 16] assms(2) by (simp add: M_def)
  have "fold (\<lambda>t. compress_round (parse_words data ! (t - 0)) (k256 ! t)) [0..<16] ?r =
      fold ?step [0..<16] ?r"
    by (intro fold_cong) (auto simp: M_def schedule.simps)
  with compress_first_eq [of 0 "replicate 16 0" data ?r] assms(2)
  have first: "compress_first 0 data ?r (replicate 16 0) = Inr (fold ?step [0..<16] ?r, M)"
    by (simp add: M_def)
  have "window M 16 M"
    by (simp add: window_def len schedule.simps)
  then have "compress_rest 16 (fold ?step [0..<16] ?r) M =
      fold ?step [16..<64] (fold ?step [0..<16] ?r)"
    by (rule compress_rest_eq) simp
  moreover have "[0..<64] = [0..<16] @ [16..<(64::nat)]"
    using upt_add_eq_append [of 0 16 48] by simp
  ultimately have rest: "compress_rest 16 (fold ?step [0..<16] ?r) M = fold ?step [0..<64] ?r"
    by simp
  obtain a b c d e f g h where res: "fold ?step [0..<64] ?r = (a, b, c, d, e, f, g, h)"
    by (rule regs_cases)
  then have "fips_block H data = [i0 + a, i1 + b, i2 + c, i3 + d, i4 + e, i5 + f, i6 + g, i7 + h]"
    by (simp add: H fips_block_def Let_def k256_spec compress_round_fips flip: M_def)
  then show ?thesis
    by (simp add: H first rest res)
qed

section \<open>Byte stores\<close>

lemma set_bytes_eq:
  assumes "off + len \<le> length xs"
  shows "set_bytes off v len xs = take off xs @ replicate len v @ drop (off + len) xs"
  using assms
proof (induction len)
  case 0
  then show ?case by (simp add: set_bytes_def)
next
  case (Suc len)
  have "set_bytes off v (Suc len) xs = (set_bytes off v len xs)[off + len := v]"
    by (simp add: set_bytes_def)
  also have "\<dots> = (take off xs @ replicate len v @ drop (off + len) xs)[off + len := v]"
    using Suc by simp
  also have "drop (off + len) xs = xs ! (off + len) # drop (off + Suc len) xs"
    using Suc.prems by (simp add: Cons_nth_drop_Suc)
  also have "(take off xs @ replicate len v @ xs ! (off + len) # drop (off + Suc len) xs)
      [off + len := v] = take off xs @ replicate len v @ v # drop (off + Suc len) xs"
    using Suc.prems by (simp add: list_update_append)
  finally show ?case
    by (simp add: replicate_app_Cons_same)
qed

lemma store_length_eq:
  assumes "length left = 64"
  shows "store_length bits left = take 56 left @ be64 bits"
proof -
  obtain a b where left: "left = a @ b" "length a = 56" "length b = 8"
    using assms that [of "take 56 left" "drop 56 left"] by simp
  then obtain b0 b1 b2 b3 b4 b5 b6 b7 where "b = [b0, b1, b2, b3, b4, b5, b6, b7]"
    by (auto simp: length_Suc_conv eval_nat_numeral)
  then show ?thesis
    using left by (simp add: store_length_def be64_def list_update_append upt_rec)
qed

lemma word_bytes_be32: "word_bytes = be32"
  by (rule ext) (simp add: word_bytes_def be32_def upt_rec)

section \<open>The state after a message\<close>

text \<open>
  The abstraction of the streaming state: \<open>absorbed m s\<close> says that \<open>s\<close> is the state after the
  bytes \<open>m\<close>: whole blocks are hashed, the rest is in the leftover buffer.
\<close>

definition absorbed :: "u8 list \<Rightarrow> sha256_state \<Rightarrow> bool" where
  [inv_defs]: "absorbed m s \<longleftrightarrow>
     (let q = 64 * (length m div 64) in
      length (sha_leftover s) = 64 \<and> sha_leftover_offset s = length m mod 64 \<and>
      take (length m mod 64) (sha_leftover s) = drop q m \<and>
      sha_iv s = foldl fips_block H0_spec (chunks (take q m)) \<and>
      sha_bits_hashed s = of_nat (8 * q))"

lemma length_H0_spec [simp]: "length H0_spec = 8"
  by (simp add: initial_iv_spec initial_iv_def)

lemma absorbed_init: "absorbed [] (zero_state\<lparr>sha_iv := initial_iv\<rparr>)"
  by (simp add: absorbed_def zero_state_def initial_iv_spec)

lemma absorbed_iv_length: "absorbed m s \<Longrightarrow> length (sha_iv s) = 8"
  by (simp add: absorbed_def Let_def)

lemma absorb_step:
  assumes "absorbed m s"
  shows "\<exists>s'. absorb b s = Inr s' \<and> absorbed (m @ [b]) s'"
proof -
  define q r where "q = length m div 64" and "r = length m mod 64"
  have len: "length m = 64 * q + r" and r: "r < 64"
    by (simp_all add: q_def r_def)
  from assms have s: "length (sha_leftover s) = 64" "sha_leftover_offset s = r"
      "take r (sha_leftover s) = drop (64 * q) m"
      "sha_iv s = foldl fips_block H0_spec (chunks (take (64 * q) m))"
      "sha_bits_hashed s = of_nat (8 * (64 * q))"
    by (simp_all add: absorbed_def Let_def q_def r_def)
  define left where "left = (sha_leftover s)[r := b]"
  have left: "take (Suc r) left = drop (64 * q) m @ [b]" "length left = 64"
    using s r by (simp_all add: left_def take_Suc_update)
  show ?thesis
  proof (cases "Suc r < 64")
    case True
    then have d: "Suc (length m) div 64 = q" "Suc (length m) mod 64 = Suc r"
      using len by (simp_all add: div_add1_eq)
    have qle: "64 * q \<le> length m" using len by simp
    have "absorb b s = Inr (s\<lparr>sha_leftover := left, sha_leftover_offset := Suc r\<rparr>)"
      using True s r by (simp add: absorb_def left_def TC_SHA256_BLOCK_SIZE_def)
    moreover have "absorbed (m @ [b]) (s\<lparr>sha_leftover := left, sha_leftover_offset := Suc r\<rparr>)"
      using qle left s by (simp add: absorbed_def Let_def d)
    ultimately show ?thesis by blast
  next
    case False
    with r have r63: "r = 63" by simp
    then have d: "Suc (length m) div 64 = Suc q" "Suc (length m) mod 64 = 0"
      using len by (simp_all add: div_add1_eq)
    from left r63 have whole: "left = drop (64 * q) m @ [b]" by simp
    have split: "m @ [b] = take (64 * q) m @ left" by (simp add: whole)
    then have "chunks (m @ [b]) = chunks (take (64 * q) m) @ [left]"
      using len left(2) by (simp add: chunks_append chunks_one)
    then have iv: "fips_block (sha_iv s) left = foldl fips_block H0_spec (chunks (m @ [b]))"
      by (simp add: s(4))
    define s' where "s' = \<lparr>sha_iv = fips_block (sha_iv s) left,
      sha_bits_hashed = sha_bits_hashed s + 512, sha_leftover = left, sha_leftover_offset = 0\<rparr>"
    have "absorb b s = Inr s'"
      using compress_fips [of "sha_iv s" left] absorbed_iv_length [OF assms] s left r63
      by (simp add: absorb_def left_def TC_SHA256_BLOCK_SIZE_def s'_def push_bit_eq_mult Let_def)
    moreover have "absorbed (m @ [b]) s'"
      using len r63 left(2) by (simp add: absorbed_def Let_def d s'_def iv s(5) algebra_simps)
    ultimately show ?thesis by blast
  qed
qed

lemma update_loop_absorbed:
  assumes "absorbed m s" and "n \<le> length data"
  shows "\<exists>s'. update_loop n data s = Inr s' \<and> absorbed (m @ take n data) s'"
  using assms
proof (induction n data s arbitrary: m rule: update_loop.induct)
  case (3 n b data s)
  from absorb_step [OF "3.prems"(1), of b] obtain s1
    where "absorb b s = Inr s1" "absorbed (m @ [b]) s1" by blast
  with "3.IH" [of "m @ [b]" s1] "3.prems"(2) show ?case by simp
qed simp_all

section \<open>Finalisation\<close>

lemma length_be64 [simp]: "length (be64 n) = 8"
  by (simp add: be64_def)

text \<open>The padded message, cut where the streaming state has already hashed whole blocks.\<close>

lemma pad_split:
  assumes "length m = 64 * q + r" and "r < 64"
  shows "pad m = take (64 * q) m @
    (if r \<le> 55 then drop (64 * q) m @ 0x80 # replicate (55 - r) 0 @ be64 (of_nat (8 * length m))
     else (drop (64 * q) m @ 0x80 # replicate (63 - r) 0) @
       (replicate 56 0 @ be64 (of_nat (8 * length m))))"
proof -
  have r: "length m mod 64 = r" using assms by simp
  show ?thesis
  proof (cases "r \<le> 55")
    case True
    then have "(119 - r) mod 64 = 55 - r" by (simp add: le_mod_geq)
    with True show ?thesis by (simp add: pad_def r)
  next
    case False
    then have "(119 - r) mod 64 = (63 - r) + 56" using assms(2) by simp
    then have "replicate ((119 - r) mod 64) (0::u8) = replicate (63 - r) 0 @ replicate 56 0"
      by (simp only: replicate_add)
    with False show ?thesis by (simp add: pad_def r)
  qed
qed

text \<open>The last block, or the last two, when \<open>t\<close> are the bytes left over.\<close>

lemma last_block:
  assumes "length left = 64" and "take (Suc (length t)) left = t @ [0x80]" and "length t \<le> 55"
  shows "store_length bits (set_bytes (Suc (length t)) 0 (55 - length t) left) =
    t @ [0x80] @ replicate (55 - length t) 0 @ be64 bits"
proof -
  define A where "A = t @ [0x80] @ replicate (55 - length t) 0"
  have A: "length A = 56" using assms(3) by (simp add: A_def)
  have "set_bytes (Suc (length t)) 0 (55 - length t) left = A @ drop 56 left"
    using assms by (simp add: set_bytes_eq A_def)
  then have "store_length bits (set_bytes (Suc (length t)) 0 (55 - length t) left) = A @ be64 bits"
    using assms(1) A by (simp add: store_length_eq)
  then show ?thesis by (simp add: A_def)
qed

lemma last_two_blocks:
  assumes "length left = 64" and "take (Suc (length t)) left = t @ [0x80]" and "length t < 64"
  shows "set_bytes (Suc (length t)) 0 (63 - length t) left = t @ [0x80] @ replicate (63 - length t) 0"
    and "length b = 64 \<Longrightarrow> store_length bits (set_bytes 0 0 56 b) = replicate 56 0 @ be64 bits"
  using assms by (simp_all add: set_bytes_eq store_length_eq)

lemma final_iv_absorbed:
  assumes "absorbed m s"
  shows "final_iv s = Inr (foldl fips_block H0_spec (chunks (pad m)))"
proof -
  define q r where "q = length m div 64" and "r = length m mod 64"
  define t where "t = drop (64 * q) m"
  have len: "length m = 64 * q + r" and r: "r < 64"
    by (simp_all add: q_def r_def)
  have t: "length t = r" using len by (simp add: t_def)
  from assms have s: "length (sha_leftover s) = 64" "sha_leftover_offset s = r" "take r (sha_leftover s) = t"
      "sha_iv s = foldl fips_block H0_spec (chunks (take (64 * q) m))" "sha_bits_hashed s = of_nat (8 * (64 * q))"
    by (simp_all add: absorbed_def Let_def q_def r_def t_def)
  let ?bits = "of_nat (8 * length m) :: u64"
  have bits: "sha_bits_hashed s + of_nat (push_bit 3 r) = ?bits"
    by (simp add: s len push_bit_eq_mult algebra_simps)
  define left where "left = (sha_leftover s)[r := 0x80]"
  have left: "length left = 64" "take (Suc (length t)) left = t @ [0x80]"
    using s r by (simp_all add: left_def t take_Suc_update)
  have iv: "length (sha_iv s) = 8" using s by simp
  have blocks: "chunks (take (64 * q) m @ b) = chunks (take (64 * q) m) @ chunks b" for b
    using len by (simp add: chunks_append)
  show ?thesis
  proof (cases "r \<le> 55")
    case True
    define B where "B = t @ [0x80] @ replicate (55 - r) 0 @ be64 ?bits"
    have lenB: "length B = 64" using True by (simp add: B_def t)
    have "store_length ?bits (set_bytes (Suc r) 0 (55 - r) left) = B"
      using last_block [OF left, of ?bits] True by (simp add: B_def t)
    moreover have "pad m = take (64 * q) m @ B"
      using True pad_split [OF len r] by (simp add: B_def t_def)
    ultimately show ?thesis
      using True s r bits compress_fips [OF iv lenB] lenB
      by (simp add: final_iv_def Let_def flip: left_def) (simp add: blocks chunks_one)
  next
    case False
    define B1 where "B1 = t @ [0x80] @ replicate (63 - r) 0"
    define B2 where "B2 = replicate 56 0 @ be64 ?bits"
    have lenB: "length B1 = 64" "length B2 = 64" using False r by (simp_all add: B1_def B2_def t)
    have B: "set_bytes (Suc r) 0 (63 - r) left = B1" "store_length ?bits (set_bytes 0 0 56 B1) = B2"
      using last_two_blocks [OF left] r lenB(1) by (simp_all add: B1_def B2_def t)
    have pad: "pad m = take (64 * q) m @ (B1 @ B2)"
      using False pad_split [OF len r] by (simp add: B1_def B2_def t_def)
    have "chunks (B1 @ B2) = [B1, B2]"
      using lenB by (simp add: chunks_append chunks_one)
    then show ?thesis
      using False s r bits compress_fips [OF iv lenB(1)] compress_fips [OF _ lenB(2)] B(2)
      by (simp add: final_iv_def Let_def B(1) pad blocks flip: left_def)
  qed
qed

lemma length_be32 [simp]: "length (be32 w) = 4"
  by (simp add: be32_def)

lemma length_concat_be32: "length (concat (map be32 ws)) = 4 * length ws"
  by (induction ws) simp_all

lemma length_sha256 [simp]: "length (sha256 m) = 32"
  by (simp add: sha256_def length_concat_be32)

lemma tc_sha256_final_absorbed:
  assumes "absorbed m s" and "32 \<le> length out"
  shows "tc_sha256_final (Some out) (Some s) =
    Inr (TC_CRYPTO_SUCCESS, Some (sha256 m @ drop 32 out), Some zero_state)"
  using assms by (simp add: tc_sha256_final_def final_iv_absorbed word_bytes_be32 sha256_def)

section \<open>The interface and the properties\<close>

interpretation sha: streaming_hash tc_sha256_init tc_sha256_update tc_sha256_final absorbed sha256 32
proof unfold_locales
  show "\<exists>s'. tc_sha256_init (Some s) = (1, Some s') \<and> absorbed [] s'" for s
    by (simp add: tc_sha256_init_def TC_CRYPTO_SUCCESS_def absorbed_init)
next
  fix m s n and d :: "u8 list" assume "absorbed m s" and "n \<le> length d"
  then show "\<exists>s'. tc_sha256_update (Some s) (Some d) n = Inr (1, Some s') \<and> absorbed (m @ take n d) s'"
    using update_loop_absorbed [of m s n d]
    by (auto simp: tc_sha256_update_def TC_CRYPTO_SUCCESS_def)
next
  fix m s and out :: "u8 list" assume "absorbed m s" and "32 \<le> length out"
  then show "\<exists>s'. tc_sha256_final (Some out) (Some s) =
      Inr (1, Some (sha256 m @ drop 32 out), Some s')"
    by (simp add: tc_sha256_final_absorbed TC_CRYPTO_SUCCESS_def)
qed simp

text \<open>
  Property C7: streaming SHA-256 is FIPS 180-4.  Whatever the state struct held before
  \<^verbatim>\<open>tc_sha256_init\<close>, feeding any list of buffers with \<^verbatim>\<open>tc_sha256_update\<close> succeeds, and
  \<^verbatim>\<open>tc_sha256_final\<close> then returns success, writes the SHA-256 of their concatenation over the
  first 32 bytes of the digest buffer, and wipes the state.
\<close>
theorem sha256_stream_correct:
  assumes "32 \<le> length out"
  shows "\<exists>st r. foldl (\<lambda>st d. bind_exec st (\<lambda>(_, s). tc_sha256_update s (Some d) (length d)))
       (Inr (tc_sha256_init (Some garbage))) ds = Inr (r, Some st) \<and> r = TC_CRYPTO_SUCCESS \<and>
     tc_sha256_final (Some out) (Some st) =
       Inr (TC_CRYPTO_SUCCESS, Some (sha256 (concat ds) @ drop 32 out), Some zero_state)"
proof -
  let ?init = "zero_state\<lparr>sha_iv := initial_iv\<rparr>"
  obtain st where "foldl (\<lambda>st d. bind_exec st (\<lambda>(_, s). tc_sha256_update s (Some d) (length d)))
      (Inr (1, Some ?init)) ds = Inr (1, Some st)" "absorbed (concat ds) st"
    using sha.updates_fed [OF absorbed_init, of 1 ds] by auto
  with tc_sha256_final_absorbed [OF this(2) assms] show ?thesis
    by (simp add: tc_sha256_init_def TC_CRYPTO_SUCCESS_def)
qed

lemma sha256_stream_correct_witness:
  "\<exists>st. foldl (\<lambda>st d. bind_exec st (\<lambda>(_, s). tc_sha256_update s (Some d) (length d)))
     (Inr (tc_sha256_init (Some zero_state))) [[97], [98, 99]] = Inr (1, Some st) \<and>
   tc_sha256_final (Some (replicate 32 0)) (Some st) =
     Inr (1, Some (sha256 [97, 98, 99]), Some zero_state)"
  using sha256_stream_correct [of "replicate 32 0" zero_state "[[97], [98, 99]]"]
  by (auto simp: TC_CRYPTO_SUCCESS_def)

text \<open>
  A NULL argument is refused with \<^verbatim>\<open>TC_CRYPTO_FAIL\<close> and nothing is written, for
  all three calls; an empty update of a live state succeeds and changes nothing.
\<close>
theorem sha256_null_arguments:
  "tc_sha256_init None = (TC_CRYPTO_FAIL, None) \<and>
   tc_sha256_update None data n = Inr (TC_CRYPTO_FAIL, None) \<and>
   tc_sha256_update s None n = Inr (TC_CRYPTO_FAIL, s) \<and>
   tc_sha256_final None s = Inr (TC_CRYPTO_FAIL, None, s) \<and>
   tc_sha256_final digest None = Inr (TC_CRYPTO_FAIL, digest, None) \<and>
   tc_sha256_update (Some st) (Some bs) 0 = Inr (TC_CRYPTO_SUCCESS, Some st)"
  by (simp add: tc_sha256_init_def tc_sha256_update_def tc_sha256_final_def split: option.split)

end
