(* ===== verification/Ipc_Data.thy ===== *)
theory Ipc_Data
  imports Prelude
begin

text \<open>
  The data the cores share: the mailbox of \<^verbatim>\<open>include/ipc/ipc.h\<close>, the message types, and the
  fixed addresses of \<^verbatim>\<open>ipc.h\<close>, \<^verbatim>\<open>ringbuf.h\<close>, \<^verbatim>\<open>hmac_sha256.h\<close> and \<^verbatim>\<open>boot.S\<close>.
\<close>

section \<open>Mailboxes\<close>

definition MSG_NONE :: u32 where "MSG_NONE = 0"
definition MSG_PING :: u32 where "MSG_PING = 1"
definition MSG_DATA :: u32 where "MSG_DATA = 2"
definition MSG_ACK :: u32 where "MSG_ACK = 3"
definition MSG_SHUTDOWN :: u32 where "MSG_SHUTDOWN = 4"

record mailbox =
  mb_lock :: u32
  mb_msg_type :: u32
  mb_msg_data :: u32
  mb_sender_id :: u32
  mb_status :: u32
  mb_counter :: u32
  mb_tag :: "u8 list"

section \<open>Addresses\<close>

definition SHARED_MEM_BASE :: u64 where "SHARED_MEM_BASE = 0x40220000"
definition SPINLOCK_ADDR :: u64 where "SPINLOCK_ADDR = 0x40220000"
definition MAILBOX_BASE :: u64 where "MAILBOX_BASE = 0x40220100"
definition RING_BUFFER_BASE :: u64 where "RING_BUFFER_BASE = 0x40220200"
definition HMAC_KEY_ADDR :: u64 where "HMAC_KEY_ADDR = 0x40220310"

text \<open>\<^verbatim>\<open>sizeof\<close> of the two structs: six 32-bit words and 32 bytes; two words and 256 bytes.\<close>

definition sizeof_mailbox :: nat where "sizeof_mailbox = 6 * 4 + 32"
definition sizeof_ring_buffer :: nat where "sizeof_ring_buffer = 2 * 4 + 256"

definition GET_MAILBOX :: "int \<Rightarrow> u64" where
  "GET_MAILBOX core_id = MAILBOX_BASE + of_int core_id * of_nat sizeof_mailbox"

text \<open>The initial stack pointer \<^verbatim>\<open>boot.S\<close> computes from the core number in \<^verbatim>\<open>mpidr_el1\<close>.\<close>

definition boot_stack_top :: "u64 \<Rightarrow> u64" where
  "boot_stack_top mpidr = 0x40200000 + ((mpidr AND 0xFF) + 1) * 0x4000"

section \<open>The memory map\<close>

text \<open>A region is its first address and its size; the regions of the shared page and the stacks.\<close>

type_synonym region = "nat \<times> nat"

definition disjoint_regions :: "region \<Rightarrow> region \<Rightarrow> bool" where
  "disjoint_regions a b \<longleftrightarrow> fst a + snd a \<le> fst b \<or> fst b + snd b \<le> fst a"

definition shared_regions :: "region list" where
  "shared_regions =
     map (\<lambda>i. (unat (boot_stack_top i) - 0x4000, 0x4000)) [0, 1, 2, 3] @
     [(unat SPINLOCK_ADDR, 4)] @
     map (\<lambda>i. (unat (GET_MAILBOX i), sizeof_mailbox)) [0, 1, 2, 3] @
     [(unat RING_BUFFER_BASE, sizeof_ring_buffer), (unat HMAC_KEY_ADDR, 32)]"

lemmas memory_map_defs = SPINLOCK_ADDR_def MAILBOX_BASE_def RING_BUFFER_BASE_def HMAC_KEY_ADDR_def
  sizeof_mailbox_def sizeof_ring_buffer_def GET_MAILBOX_def boot_stack_top_def

lemma shared_regions_eq:
  "shared_regions = [(0x40200000, 0x4000), (0x40204000, 0x4000), (0x40208000, 0x4000),
     (0x4020C000, 0x4000), (0x40220000, 4), (0x40220100, 56), (0x40220138, 56), (0x40220170, 56),
     (0x402201A8, 56), (0x40220200, 264), (0x40220310, 32)]"
  by (simp add: shared_regions_def memory_map_defs)

text \<open>
  The boot stacks of the four cores, the global spinlock, the mailboxes of cores 0
  to 3, the ring buffer and the HMAC key lie at increasing addresses without overlap.
\<close>
theorem memory_map_disjoint:
  "pairwise (\<lambda>i j. disjoint_regions (shared_regions ! i) (shared_regions ! j)) {..<11} \<and>
   sorted (map fst shared_regions) \<and> length shared_regions = 11"
proof -
  have step: "sorted_wrt (\<lambda>a b. fst a + snd a \<le> fst b) shared_regions"
    by (simp add: shared_regions_eq)
  have len: "length shared_regions = 11" by (simp add: shared_regions_eq)
  have "disjoint_regions (shared_regions ! i) (shared_regions ! j)" if "i < 11" "j < 11" "i \<noteq> j" for i j
    using that sorted_wrt_nth_less [OF step, of i j] sorted_wrt_nth_less [OF step, of j i]
    by (cases "i < j") (auto simp: len disjoint_regions_def)
  then show ?thesis
    by (simp add: pairwise_def len) (simp add: shared_regions_eq)
qed

text \<open>
  The mailbox address is only meaningful for core numbers 0 to 3: the address
  computed for core 4 is inside the gap below the ring buffer and its 56 bytes run over the
  head, the tail and the first bytes of the ring.
\<close>
theorem mailbox_of_core_4_overlaps_ring:
  "\<not> disjoint_regions (unat (GET_MAILBOX 4), sizeof_mailbox) (unat RING_BUFFER_BASE, sizeof_ring_buffer)
   \<and> GET_MAILBOX 4 < RING_BUFFER_BASE"
  by (simp add: disjoint_regions_def memory_map_defs)

end
