(* ===== verification/Hmac.thy ===== *)
theory Hmac
  imports Sha256_Correct Ipc_Data
begin

text \<open>
  \<^verbatim>\<open>include/crypto/hmac_sha256.c\<close>: the authentication tag of a mailbox.  The key memory at
  \<^verbatim>\<open>HMAC_KEY_ADDR\<close> is a byte list; the tag is proved to be the HMAC of RFC 2104 (FIPS 198-1)
  over the four authenticated fields, and verification to be equality with it.
\<close>

section \<open>The code\<close>

definition HMAC_KEY_SIZE :: nat where "HMAC_KEY_SIZE = 32"
definition HMAC_IPAD :: u8 where "HMAC_IPAD = 0x36"
definition HMAC_OPAD :: u8 where "HMAC_OPAD = 0x5C"

text \<open>
  \<^verbatim>\<open>hmac_key_init\<close>: the 32 byte stores into the key memory \<open>mem\<close>, in order.  The message it
  prints afterwards is added by the caller's model of the console.
\<close>

definition hmac_key_init :: "u8 list \<Rightarrow> u8 list \<Rightarrow> u8 list exec" where
  "hmac_key_init key mem =
     (if length key < HMAC_KEY_SIZE \<or> length mem < HMAC_KEY_SIZE then Inl OutOfBounds
      else Inr (fold (\<lambda>i m. m[i := key ! i]) [0..<HMAC_KEY_SIZE] mem))"

text \<open>The 16 message bytes: sender, type, data and counter, each most significant byte first.\<close>

definition mailbox_message :: "mailbox \<Rightarrow> u8 list" where
  "mailbox_message mb =
    [ucast (drop_bit 24 (mb_sender_id mb)), ucast (drop_bit 16 (mb_sender_id mb)),
     ucast (drop_bit 8 (mb_sender_id mb)), ucast (mb_sender_id mb),
     ucast (drop_bit 24 (mb_msg_type mb)), ucast (drop_bit 16 (mb_msg_type mb)),
     ucast (drop_bit 8 (mb_msg_type mb)), ucast (mb_msg_type mb),
     ucast (drop_bit 24 (mb_msg_data mb)), ucast (drop_bit 16 (mb_msg_data mb)),
     ucast (drop_bit 8 (mb_msg_data mb)), ucast (mb_msg_data mb),
     ucast (drop_bit 24 (mb_counter mb)), ucast (drop_bit 16 (mb_counter mb)),
     ucast (drop_bit 8 (mb_counter mb)), ucast (mb_counter mb)]"

text \<open>
  \<^verbatim>\<open>hmac_tag_compute(mb, tag_out)\<close> with the key memory \<open>key\<close> and the old content of the
  \<^verbatim>\<open>tag_out\<close> buffer.  The local hash state and the buffer \<^verbatim>\<open>inner_hash\<close> start uninitialised in
  C; both are written before they are read, and the model starts them with zeros.
\<close>

definition hmac_tag_compute :: "u8 list \<Rightarrow> mailbox \<Rightarrow> u8 list \<Rightarrow> u8 list exec" where
  "hmac_tag_compute key mb tag_out =
     (if length key < HMAC_KEY_SIZE then Inl OutOfBounds else
      let k_padded = map (\<lambda>i. key ! i) [0..<32] @ replicate 32 0;
          msg = mailbox_message mb;
          ipad_key = map (\<lambda>b. b XOR HMAC_IPAD) k_padded;
          opad_key = map (\<lambda>b. b XOR HMAC_OPAD) k_padded
      in
      bind_exec
        (bind_exec (tc_sha256_update (snd (tc_sha256_init (Some zero_state))) (Some ipad_key) 64) (\<lambda>(_, s1).
         bind_exec (tc_sha256_update s1 (Some msg) 16) (\<lambda>(_, s2).
         tc_sha256_final (Some (replicate 32 0)) s2)))
        (\<lambda>(_, inner_hash, state).
      bind_exec
        (bind_exec (tc_sha256_update (snd (tc_sha256_init state)) (Some opad_key) 64) (\<lambda>(_, s3).
         bind_exec (tc_sha256_update s3 inner_hash 32) (\<lambda>(_, s4).
         tc_sha256_final (Some tag_out) s4)))
        (\<lambda>(_, tag, _). case tag of Some t \<Rightarrow> Inr t | None \<Rightarrow> Inr tag_out)))"

text \<open>The comparison loop of \<^verbatim>\<open>hmac_tag_verify\<close> never leaves early; it collects differing bits.\<close>

definition tag_difference :: "u8 list \<Rightarrow> u8 list \<Rightarrow> u8" where
  "tag_difference expected tag =
     fold (\<lambda>i change. change OR (expected ! i XOR tag ! i)) [0..<32] 0"

definition hmac_tag_verify :: "u8 list \<Rightarrow> mailbox \<Rightarrow> int exec" where
  "hmac_tag_verify key mb =
     bind_exec (hmac_tag_compute key mb (replicate 32 0)) (\<lambda>expected.
       if length (mb_tag mb) < 32 then Inl OutOfBounds
       else Inr (if tag_difference expected (mb_tag mb) = 0 then 1 else 0))"

section \<open>The specification\<close>

text \<open>HMAC over a hash \<open>H\<close> with block size \<open>B\<close>: a long key is hashed, a short one padded.\<close>

definition hmac_pad_key :: "(u8 list \<Rightarrow> u8 list) \<Rightarrow> nat \<Rightarrow> u8 list \<Rightarrow> u8 list" where
  "hmac_pad_key H B K = (let K1 = if length K > B then H K else K in K1 @ replicate (B - length K1) 0)"

definition hmac :: "(u8 list \<Rightarrow> u8 list) \<Rightarrow> nat \<Rightarrow> u8 list \<Rightarrow> u8 list \<Rightarrow> u8 list" where
  "hmac H B K text =
     (let K0 = hmac_pad_key H B K in
      H (map (\<lambda>b. b XOR 0x5C) K0 @ H (map (\<lambda>b. b XOR 0x36) K0 @ text)))"

section \<open>Lemmas\<close>

lemma length_mailbox_message [simp]: "length (mailbox_message mb) = 16"
  by (simp add: mailbox_message_def)

lemma fold_or_eq_0:
  "fold (\<lambda>i (c :: u8). c OR f i) is c = 0 \<longleftrightarrow> c = 0 \<and> (\<forall>i \<in> set is. f i = 0)"
  by (induction "is" arbitrary: c) auto

lemma tag_difference_0:
  assumes "length expected = 32" and "length tag = 32"
  shows "tag_difference expected tag = 0 \<longleftrightarrow> expected = tag"
  using assms by (auto simp: tag_difference_def fold_or_eq_0 intro: nth_equalityI)

lemma key_init_prefix:
  assumes "n \<le> length key" and "n \<le> length mem"
  shows "fold (\<lambda>i m. m[i := key ! i]) [0..<n] mem = take n key @ drop n mem"
  using assms
proof (induction n)
  case 0
  then show ?case by simp
next
  case (Suc n)
  then have "fold (\<lambda>i m. m[i := key ! i]) [0..<Suc n] mem = (take n key @ drop n mem)[n := key ! n]"
    by simp
  also have "drop n mem = mem ! n # drop (Suc n) mem"
    using Suc.prems by (simp add: Cons_nth_drop_Suc)
  finally show ?case
    using Suc.prems by (simp add: list_update_append take_Suc_conv_app_nth)
qed

lemma hmac_key_init_eq:
  "length key = 32 \<Longrightarrow> length mem = 32 \<Longrightarrow> hmac_key_init key mem = Inr key"
  by (simp add: hmac_key_init_def HMAC_KEY_SIZE_def key_init_prefix)

lemma hmac_tag_compute_eq:
  assumes key: "length key = 32" and out: "length tag_out = 32"
  shows "hmac_tag_compute key mb tag_out = Inr (hmac sha256 64 key (mailbox_message mb))"
proof -
  let ?k = "key @ replicate 32 0" and ?msg = "mailbox_message mb"
  let ?ipad = "map (\<lambda>b. b XOR HMAC_IPAD) ?k" and ?opad = "map (\<lambda>b. b XOR HMAC_OPAD) ?k"
  have k: "map (\<lambda>i. key ! i) [0..<32] = key" using key by (simp flip: key add: map_nth)
  obtain s1 where inner: "bind_exec (tc_sha256_update (snd (tc_sha256_init (Some zero_state)))
        (Some ?ipad) 64) (\<lambda>(_, s1). bind_exec (tc_sha256_update s1 (Some ?msg) 16) (\<lambda>(_, s2).
        tc_sha256_final (Some (replicate 32 0)) s2)) = Inr (1, Some (sha256 (?ipad @ ?msg)), Some s1)"
    using sha.hash_two [of 64 ?ipad 16 ?msg "replicate 32 0" zero_state] key by auto
  obtain s2 where outer: "bind_exec (tc_sha256_update (snd (tc_sha256_init (Some s1)))
        (Some ?opad) 64) (\<lambda>(_, s3). bind_exec (tc_sha256_update s3 (Some (sha256 (?ipad @ ?msg))) 32)
        (\<lambda>(_, s4). tc_sha256_final (Some tag_out) s4)) =
      Inr (1, Some (sha256 (?opad @ sha256 (?ipad @ ?msg))), Some s2)"
    using sha.hash_two [of 64 ?opad 32 "sha256 (?ipad @ ?msg)" tag_out s1] key out by auto
  have "hmac_tag_compute key mb tag_out = Inr (sha256 (?opad @ sha256 (?ipad @ ?msg)))"
    unfolding hmac_tag_compute_def Let_def k inner
    by (simp only: bind_exec.simps prod.case outer) (simp add: key HMAC_KEY_SIZE_def)
  then show ?thesis
    using key by (simp add: hmac_def hmac_pad_key_def HMAC_IPAD_def HMAC_OPAD_def Let_def)
qed

lemma length_hmac_sha256 [simp]: "length (hmac sha256 B K m) = 32"
  by (simp add: hmac_def Let_def)

lemma hmac_tag_verify_eq:
  assumes "length key = 32" and "length (mb_tag mb) = 32"
  shows "hmac_tag_verify key mb =
    Inr (if mb_tag mb = hmac sha256 64 key (mailbox_message mb) then 1 else 0)"
  using assms by (auto simp: hmac_tag_verify_def hmac_tag_compute_eq tag_difference_0)

text \<open>The message bytes determine the four fields.\<close>

lemma word_bytes_inject:
  fixes x y :: u32
  assumes "ucast (drop_bit 24 x) = (ucast (drop_bit 24 y) :: u8)"
    and "ucast (drop_bit 16 x) = (ucast (drop_bit 16 y) :: u8)"
    and "ucast (drop_bit 8 x) = (ucast (drop_bit 8 y) :: u8)"
    and "ucast x = (ucast y :: u8)"
  shows "x = y"
proof (rule bit_eqI)
  fix n assume "possible_bit TYPE(u32) n"
  then have n: "n < 32" by (simp add: possible_bit_word)
  have byte: "bit (ucast (drop_bit k z) :: u8) (n - k) = bit z n"
    if "k \<le> n" "n < k + 8" for z :: u32 and k
    using that by (simp add: bit_simps less_diff_conv2)
  have eq: "bit x n = bit y n"
    if "ucast (drop_bit k x) = (ucast (drop_bit k y) :: u8)" "k \<le> n" "n < k + 8" for k
    using that byte by metis
  have "n < 8 \<or> (8 \<le> n \<and> n < 16) \<or> (16 \<le> n \<and> n < 24) \<or> 24 \<le> n" by linarith
  then show "bit x n = bit y n"
    using eq [of 0] eq [of 8] eq [of 16] eq [of 24] assms n by auto
qed

lemma mailbox_message_inject:
  "mailbox_message a = mailbox_message b \<longleftrightarrow>
     mb_sender_id a = mb_sender_id b \<and> mb_msg_type a = mb_msg_type b \<and>
     mb_msg_data a = mb_msg_data b \<and> mb_counter a = mb_counter b"
  by (auto simp: mailbox_message_def intro: word_bytes_inject)

section \<open>Properties\<close>

text \<open>
  Property C10: the tag that \<^verbatim>\<open>hmac_tag_compute\<close> writes is the HMAC-SHA256 of RFC 2104, with the
  64-byte block size and the 32-byte key of the key memory, over the sender, type, data and
  counter of the mailbox in big-endian order.
\<close>
theorem hmac_tag_is_rfc2104:
  assumes "length key = 32" and "length tag_out = 32"
  shows "hmac_tag_compute key mb tag_out = Inr (hmac sha256 64 key (mailbox_message mb))"
  by (rule hmac_tag_compute_eq [OF assms])

definition sample_mailbox :: mailbox where
  "sample_mailbox = \<lparr>mb_lock = 0, mb_msg_type = MSG_PING, mb_msg_data = 0xFF, mb_sender_id = 0,
     mb_status = 1, mb_counter = 1, mb_tag = replicate 32 0\<rparr>"

lemma hmac_tag_is_rfc2104_witness:
  "hmac_tag_compute (replicate 32 0x2B) sample_mailbox (replicate 32 0) =
     Inr (hmac sha256 64 (replicate 32 0x2B)
       [0, 0, 0, 0, 0, 0, 0, 1, 0, 0, 0, 0xFF, 0, 0, 0, 1])"
proof -
  have "mailbox_message sample_mailbox = [0, 0, 0, 0, 0, 0, 0, 1, 0, 0, 0, 0xFF, 0, 0, 0, 1]"
    by (simp add: mailbox_message_def sample_mailbox_def MSG_PING_def)
  with hmac_tag_is_rfc2104 [of "replicate 32 0x2B" "replicate 32 0" sample_mailbox]
  show ?thesis by simp
qed

text \<open>
  \<^verbatim>\<open>hmac_tag_verify\<close> returns 1 exactly when all 32 stored tag bytes are the HMAC of
  the stored fields, and 0 otherwise; the accumulated difference hides no byte.
\<close>
theorem hmac_verify_decides_tag:
  assumes "length key = 32" and "length (mb_tag mb) = 32"
  shows "hmac_tag_verify key mb =
    Inr (if mb_tag mb = hmac sha256 64 key (mailbox_message mb) then 1 else 0)"
  by (rule hmac_tag_verify_eq [OF assms])

lemma hmac_verify_decides_tag_witness:
  "hmac_tag_verify (replicate 32 7)
     (sample_mailbox\<lparr>mb_tag := hmac sha256 64 (replicate 32 7) (mailbox_message sample_mailbox)\<rparr>)
   = Inr 1"
proof -
  let ?mb = "sample_mailbox\<lparr>mb_tag := hmac sha256 64 (replicate 32 7) (mailbox_message sample_mailbox)\<rparr>"
  have "mailbox_message ?mb = mailbox_message sample_mailbox"
    by (simp add: mailbox_message_def)
  with hmac_verify_decides_tag [of "replicate 32 7" ?mb] show ?thesis by simp
qed

text \<open>The two inputs of the inner and the outer hash of a tag.\<close>

definition inner_input :: "u8 list \<Rightarrow> mailbox \<Rightarrow> u8 list" where
  "inner_input key mb = map (\<lambda>b. b XOR HMAC_IPAD) (key @ replicate 32 0) @ mailbox_message mb"

definition outer_input :: "u8 list \<Rightarrow> mailbox \<Rightarrow> u8 list" where
  "outer_input key mb =
     map (\<lambda>b. b XOR HMAC_OPAD) (key @ replicate 32 0) @ sha256 (inner_input key mb)"

lemma hmac_outer_input:
  "length key = 32 \<Longrightarrow> hmac sha256 64 key (mailbox_message mb) = sha256 (outer_input key mb)"
  by (simp add: hmac_def hmac_pad_key_def outer_input_def inner_input_def HMAC_IPAD_def
      HMAC_OPAD_def Let_def)

text \<open>
  Property C22: tampering costs a SHA-256 collision.  If two mailboxes with the same stored tag
  both pass verification, either their sender, type, data and counter are the same, or the two
  inner or the two outer hash inputs (written out) are a collision of SHA-256.
\<close>
theorem hmac_tampering_is_collision:
  assumes "length key = 32" and "length (mb_tag a) = 32" and "mb_tag b = mb_tag a"
    and "hmac_tag_verify key a = Inr 1" and "hmac_tag_verify key b = Inr 1"
  shows "(mb_sender_id a = mb_sender_id b \<and> mb_msg_type a = mb_msg_type b \<and>
      mb_msg_data a = mb_msg_data b \<and> mb_counter a = mb_counter b)
    \<or> (inner_input key a \<noteq> inner_input key b \<and>
       sha256 (inner_input key a) = sha256 (inner_input key b))
    \<or> (outer_input key a \<noteq> outer_input key b \<and>
       sha256 (outer_input key a) = sha256 (outer_input key b))"
proof -
  have "mb_tag a = sha256 (outer_input key a)" "mb_tag b = sha256 (outer_input key b)"
    using assms by (auto simp: hmac_tag_verify_eq hmac_outer_input split: if_splits)
  then have outer: "sha256 (outer_input key a) = sha256 (outer_input key b)"
    using assms(3) by simp
  show ?thesis
  proof (cases "mailbox_message a = mailbox_message b")
    case True
    then show ?thesis by (simp add: mailbox_message_inject)
  next
    case False
    then have "inner_input key a \<noteq> inner_input key b" by (simp add: inner_input_def)
    with outer show ?thesis by (auto simp: outer_input_def)
  qed
qed

lemma hmac_tampering_is_collision_witness:
  "\<exists>a b. mb_status a \<noteq> mb_status b \<and> hmac_tag_verify (replicate 32 7) a = Inr 1 \<and>
     hmac_tag_verify (replicate 32 7) b = Inr 1 \<and> mb_counter a = mb_counter b"
proof -
  let ?k = "replicate 32 7 :: u8 list"
  define a where "a = sample_mailbox\<lparr>mb_tag := hmac sha256 64 ?k (mailbox_message sample_mailbox)\<rparr>"
  define b where "b = a\<lparr>mb_status := 2\<rparr>"
  have msg: "mailbox_message a = mailbox_message sample_mailbox" "mailbox_message b = mailbox_message a"
    by (simp_all add: a_def b_def mailbox_message_def)
  have tag: "mb_tag a = hmac sha256 64 ?k (mailbox_message a)" "mb_tag b = mb_tag a"
    by (simp_all add: msg) (simp_all add: a_def b_def)
  have ver: "hmac_tag_verify ?k a = Inr 1" "hmac_tag_verify ?k b = Inr 1"
    using hmac_tag_verify_eq [of ?k a] hmac_tag_verify_eq [of ?k b] msg tag by simp_all
  have "mb_sender_id a = mb_sender_id b \<and> mb_msg_type a = mb_msg_type b \<and>
      mb_msg_data a = mb_msg_data b \<and> mb_counter a = mb_counter b"
    using hmac_tampering_is_collision [of ?k a b] tag ver
    by (auto simp: inner_input_def outer_input_def msg)
  moreover have "mb_status a \<noteq> mb_status b" by (simp add: a_def b_def sample_mailbox_def)
  ultimately show ?thesis using ver by blast
qed

text \<open>
  \<^verbatim>\<open>hmac_key_init\<close> copies the 32 key bytes to the key memory, whatever was there.
\<close>
theorem hmac_key_init_copies:
  assumes "length key = 32" and "length mem = 32"
  shows "hmac_key_init key mem = Inr key"
  by (rule hmac_key_init_eq [OF assms])

lemma hmac_key_init_copies_witness:
  "hmac_key_init (map of_nat [0..<32]) (replicate 32 0xEE) = Inr (map of_nat [0..<32])"
  using hmac_key_init_copies [of "map of_nat [0..<32]" "replicate 32 0xEE"] by simp

end
