(* ===== verification/Uart.thy ===== *)
theory Uart
  imports Prelude
begin

text \<open>
  \<^verbatim>\<open>include/uart/uart0.c\<close>: the PL011 driver.  The device is the environment: the value the flag
  register FR and the data register DR give at each read is an input of the model, and the
  words written to DR are its output.  The polling loops may wait for ever, so they are partial
  functions: \<open>None\<close> is a call that never returns.
\<close>

section \<open>The device\<close>

record uart =
  fr_env :: "nat \<Rightarrow> u32"   \<comment> \<open>the value of the n-th read of FR\<close>
  fr_reads :: nat
  dr_env :: "nat \<Rightarrow> u32"   \<comment> \<open>the value of the n-th read of DR\<close>
  dr_reads :: nat
  tx :: "u32 list"        \<comment> \<open>the words written to DR, in order\<close>

definition newline :: char where "newline = CHR 0x0A"
definition carriage_return :: char where "carriage_return = CHR 0x0D"
definition nul :: char where "nul = CHR 0x00"

section \<open>Initialisation\<close>

datatype platform = TARGET_QEMU | TARGET_RPI5

definition UART0_BASE :: "platform \<Rightarrow> u64" where
  "UART0_BASE p = (case p of TARGET_QEMU \<Rightarrow> 0x09000000 | TARGET_RPI5 \<Rightarrow> 0x40030000)"

text \<open>The register writes of \<^verbatim>\<open>uart_init\<close>, (address, value), in program order.\<close>

definition uart_init :: "platform \<Rightarrow> (u64 \<times> u32) list" where
  "uart_init p = (case p of
     TARGET_QEMU \<Rightarrow> []
   | TARGET_RPI5 \<Rightarrow>
      [(UART0_BASE p + 0x30, 0),
       (UART0_BASE p + 0x44, 0x7FF),
       (UART0_BASE p + 0x24, 26),
       (UART0_BASE p + 0x28, 3),
       (UART0_BASE p + 0x2C, push_bit 4 1 OR push_bit 5 3),
       (UART0_BASE p + 0x38, 0),
       (UART0_BASE p + 0x30, push_bit 0 1 OR push_bit 8 1 OR push_bit 9 1)])"

section \<open>Output\<close>

definition read_fr :: "uart \<Rightarrow> u32 \<times> uart" where
  "read_fr u = (fr_env u (fr_reads u), u\<lparr>fr_reads := Suc (fr_reads u)\<rparr>)"

partial_function (option) poll_fr :: "(u32 \<Rightarrow> bool) \<Rightarrow> uart \<Rightarrow> uart option" where
  "poll_fr busy u = (if busy (fst (read_fr u)) then poll_fr busy (snd (read_fr u))
     else Some (snd (read_fr u)))"

definition tx_full :: "u32 \<Rightarrow> bool" where
  "tx_full fr \<longleftrightarrow> fr AND push_bit 5 1 \<noteq> 0"

definition uart_putc :: "char \<Rightarrow> uart \<Rightarrow> uart option" where
  "uart_putc c u = map_option (\<lambda>u. u\<lparr>tx := tx u @ [of_char c]\<rparr>) (poll_fr tx_full u)"

text \<open>A C string: the characters up to the terminating NUL, or to the end of the list.\<close>

fun uart_puts :: "string \<Rightarrow> uart \<Rightarrow> uart option" where
  "uart_puts [] u = Some u"
| "uart_puts (c # str) u =
     (if c = nul then Some u
      else Option.bind (if c = newline then uart_putc carriage_return u else Some u)
             (\<lambda>u. Option.bind (uart_putc c u) (uart_puts str)))"

definition hex_chars :: string where
  "hex_chars = ''0123456789ABCDEF''"

function puthex_loop :: "int \<Rightarrow> u64 \<Rightarrow> uart \<Rightarrow> uart option" where
  "puthex_loop i val u =
     (if i \<ge> 0 then
        Option.bind (uart_putc (hex_chars ! unat (drop_bit (nat i) val AND 0xF)) u)
          (puthex_loop (i - 4) val)
      else Some u)"
  by pat_completeness auto
termination
  by (relation "measure (\<lambda>(i, val, u). nat (i + 4))") auto

declare puthex_loop.simps [simp del]

definition uart_puthex :: "u64 \<Rightarrow> uart \<Rightarrow> uart option" where
  "uart_puthex val u = Option.bind (uart_puts ''0x'' u) (puthex_loop 60 val)"

section \<open>Input\<close>

definition has_data :: "u32 \<Rightarrow> bool" where
  "has_data fr \<longleftrightarrow> fr AND push_bit 4 1 = 0"

definition uart_has_data :: "uart \<Rightarrow> bool \<times> uart" where
  "uart_has_data u = (has_data (fst (read_fr u)), snd (read_fr u))"

definition uart_getc :: "uart \<Rightarrow> (u32 \<times> uart) option" where
  "uart_getc u = map_option
     (\<lambda>u. (ucast (ucast (dr_env u (dr_reads u) AND 0xFF) :: u8), u\<lparr>dr_reads := Suc (dr_reads u)\<rparr>))
     (poll_fr (\<lambda>fr. \<not> has_data fr) u)"

definition uart_special_chars :: "u8 \<Rightarrow> u32" where
  "uart_special_chars c =
     (if c = 0x03 then 0xFFFF0003 else if c = 0x1B then 0xFFFF001B
      else if c = 0x0D then 0xFFFF000D else 0)"

datatype key_event = KEY_NONE | KEY_CTRL_C | KEY_ENTER

definition uart_key_event :: "u8 \<Rightarrow> key_event" where
  "uart_key_event byte =
     (if byte = 0x03 then KEY_CTRL_C
      else if byte = 0x0D \<or> byte = 0x0A then KEY_ENTER
      else KEY_NONE)"

section \<open>Polling\<close>

definition ready_at :: "(u32 \<Rightarrow> bool) \<Rightarrow> uart \<Rightarrow> nat \<Rightarrow> bool" where
  "ready_at busy u n \<longleftrightarrow> fr_reads u \<le> n \<and> \<not> busy (fr_env u n)"

lemma poll_fr_stops:
  assumes "\<forall>i < k. busy (fr_env u (fr_reads u + i))" and "\<not> busy (fr_env u (fr_reads u + k))"
  shows "poll_fr busy u = Some (u\<lparr>fr_reads := Suc (fr_reads u + k)\<rparr>)"
  using assms
proof (induction k arbitrary: u)
  case 0
  then show ?case by (simp add: poll_fr.simps read_fr_def)
next
  case (Suc k)
  let ?u = "u\<lparr>fr_reads := Suc (fr_reads u)\<rparr>"
  have "busy (fr_env u (fr_reads u))" using Suc.prems(1) by (metis add_0_right zero_less_Suc)
  then have "poll_fr busy u = poll_fr busy ?u"
    by (subst poll_fr.simps) (simp add: read_fr_def)
  moreover have "\<forall>i < k. busy (fr_env ?u (fr_reads ?u + i))"
    using Suc.prems(1) by (metis Suc_less_eq add_Suc_shift uart.select_convs(1,2) uart.surjective
        uart.update_convs(2))
  ultimately show ?case using Suc.IH [of ?u] Suc.prems(2) by simp
qed

lemma poll_fr_returns:
  assumes "poll_fr busy u = Some u'"
  shows "\<exists>n. ready_at busy u n"
proof (rule poll_fr.raw_induct [where P = "\<lambda>busy u u'. \<exists>n. ready_at busy u n", OF _ assms])
  fix f busy u u'
  assume IH: "\<And>busy u u'. f busy u = Some u' \<Longrightarrow> \<exists>n. ready_at busy u n"
    and eq: "(if busy (fst (read_fr u)) then f busy (snd (read_fr u))
              else Some (snd (read_fr u))) = Some u'"
  show "\<exists>n. ready_at busy u n"
  proof (cases "busy (fst (read_fr u))")
    case True
    with eq IH obtain n where "ready_at busy (snd (read_fr u)) n" by fastforce
    then show ?thesis by (auto simp: ready_at_def read_fr_def intro: Suc_leD)
  next
    case False
    then show ?thesis by (auto simp: ready_at_def read_fr_def)
  qed
qed

lemma poll_fr_least:
  assumes "ready_at busy u n"
  obtains k where "fr_reads u \<le> k" "k \<le> n" "\<not> busy (fr_env u k)"
    "\<forall>i. fr_reads u \<le> i \<and> i < k \<longrightarrow> busy (fr_env u i)"
    "poll_fr busy u = Some (u\<lparr>fr_reads := Suc k\<rparr>)"
proof -
  define k where "k = (LEAST n. ready_at busy u n)"
  have k: "ready_at busy u k" and least: "\<And>i. i < k \<Longrightarrow> \<not> ready_at busy u i"
    unfolding k_def using assms by (auto intro: LeastI dest: not_less_Least)
  have "k \<le> n" unfolding k_def using assms by (rule Least_le)
  obtain d where d: "k = fr_reads u + d"
    using k by (auto simp: ready_at_def le_iff_add)
  have "poll_fr busy u = Some (u\<lparr>fr_reads := Suc (fr_reads u + d)\<rparr>)"
    using k least by (intro poll_fr_stops) (auto simp: ready_at_def d)
  with k least \<open>k \<le> n\<close> show ?thesis
    by (intro that [of k]) (auto simp: ready_at_def d)
qed

section \<open>What is sent\<close>

text \<open>The characters a string and a number come out as; the other components log these.\<close>

definition puts_text :: "string \<Rightarrow> string" where
  "puts_text str = concat (map (\<lambda>c. if c = newline then [carriage_return, c] else [c])
     (takeWhile (\<lambda>c. c \<noteq> nul) str))"

definition puthex_text :: "u64 \<Rightarrow> string" where
  "puthex_text val = ''0x'' @ map (\<lambda>i. hex_chars ! unat (drop_bit (60 - 4 * i) val AND 0xF)) [0..<16]"

definition sends :: "uart \<Rightarrow> string \<Rightarrow> uart \<Rightarrow> bool" where
  "sends u str u' \<longleftrightarrow> tx u' = tx u @ map of_char str \<and> fr_env u' = fr_env u \<and>
     dr_env u' = dr_env u \<and> dr_reads u' = dr_reads u"

text \<open>A live device never stays full for ever.\<close>

definition tx_live :: "uart \<Rightarrow> bool" where
  "tx_live u \<longleftrightarrow> (\<forall>n. \<exists>m \<ge> n. \<not> tx_full (fr_env u m))"

lemma sends_Nil [simp]: "sends u [] u"
  by (simp add: sends_def)

lemma sends_append: "sends u s v \<Longrightarrow> sends v t w \<Longrightarrow> sends u (s @ t) w"
  by (simp add: sends_def)

lemma sends_live: "sends u s v \<Longrightarrow> tx_live u \<Longrightarrow> tx_live v"
  by (simp add: sends_def tx_live_def)

lemma putc_sends: "tx_live u \<Longrightarrow> \<exists>u'. uart_putc c u = Some u' \<and> sends u [c] u'"
proof -
  assume "tx_live u"
  then obtain n where "ready_at tx_full u n"
    by (auto simp: tx_live_def ready_at_def)
  then obtain k where "poll_fr tx_full u = Some (u\<lparr>fr_reads := Suc k\<rparr>)"
    by (rule poll_fr_least)
  then show ?thesis by (simp add: uart_putc_def sends_def)
qed

lemma puts_sends: "tx_live u \<Longrightarrow> \<exists>u'. uart_puts str u = Some u' \<and> sends u (puts_text str) u'"
proof (induction str u rule: uart_puts.induct)
  case (1 u)
  then show ?case by (simp add: puts_text_def)
next
  case (2 c str u)
  show ?case
  proof (cases "c = nul")
    case True
    then show ?thesis by (simp add: puts_text_def)
  next
    case False
    obtain u1 where u1: "(if c = newline then uart_putc carriage_return u else Some u) = Some u1"
        "sends u (if c = newline then [carriage_return] else []) u1"
      using that [of u] putc_sends [OF "2.prems", of carriage_return] by (cases "c = newline") auto
    then have "tx_live u1" using "2.prems" sends_live by blast
    then obtain u2 where u2: "uart_putc c u1 = Some u2" "sends u1 [c] u2"
      using putc_sends by blast
    then have "tx_live u2" using \<open>tx_live u1\<close> sends_live by blast
    with "2.IH" [OF False u1(1) u2(1)] obtain u3 where u3: "uart_puts str u2 = Some u3" "sends u2 (puts_text str) u3"
      by blast
    have "uart_puts (c # str) u = Some u3"
      using False u1(1) u2(1) u3(1) by simp
    moreover have "sends u (puts_text (c # str)) u3"
      using sends_append [OF sends_append [OF u1(2) u2(2)] u3(2)] False
      by (auto simp: puts_text_def split: if_splits)
    ultimately show ?thesis by blast
  qed
qed

lemma puthex_loop_sends:
  "tx_live u \<Longrightarrow> k \<le> 16 \<Longrightarrow> \<exists>u'. puthex_loop (4 * int k - 4) val u = Some u' \<and>
     sends u (map (\<lambda>i. hex_chars ! unat (drop_bit (60 - 4 * i) val AND 0xF)) [16 - k..<16]) u'"
proof (induction k arbitrary: u)
  case 0
  then show ?case by (simp add: puthex_loop.simps)
next
  case (Suc k)
  let ?c = "hex_chars ! unat (drop_bit (4 * k) val AND 0xF)"
  obtain u1 where u1: "uart_putc ?c u = Some u1" "sends u [?c] u1"
    using putc_sends [OF Suc.prems(1)] by blast
  with Suc obtain u2 where u2: "puthex_loop (4 * int k - 4) val u1 = Some u2"
      "sends u1 (map (\<lambda>i. hex_chars ! unat (drop_bit (60 - 4 * i) val AND 0xF)) [16 - k..<16]) u2"
    using sends_live by fastforce
  have "puthex_loop (4 * int (Suc k) - 4) val u = Some u2"
    using u1(1) u2(1) by (subst puthex_loop.simps) (simp add: nat_mult_distrib)
  moreover have "[16 - Suc k..<16] = (15 - k) # [16 - k..<16]" "60 - 4 * (15 - k) = 4 * k"
    using Suc.prems(2) by (simp_all add: upt_conv_Cons Suc_diff_le [symmetric])
  ultimately show ?case
    using sends_append [OF u1(2) u2(2)] by auto
qed

lemma puthex_sends:
  assumes "tx_live u"
  shows "\<exists>u'. uart_puthex val u = Some u' \<and> sends u (puthex_text val) u'"
proof -
  obtain u1 where u1: "uart_puts ''0x'' u = Some u1" "sends u (puts_text ''0x'') u1"
    using puts_sends [OF assms] by blast
  have "puts_text ''0x'' = ''0x''"
    by (simp add: puts_text_def newline_def nul_def)
  moreover obtain u2 where "puthex_loop 60 val u1 = Some u2"
      "sends u1 (map (\<lambda>i. hex_chars ! unat (drop_bit (60 - 4 * i) val AND 0xF)) [0..<16]) u2"
    using puthex_loop_sends [OF sends_live [OF u1(2) assms], of 16 val] by auto
  ultimately show ?thesis
    using u1 sends_append by (fastforce simp: uart_puthex_def puthex_text_def)
qed

section \<open>Reading a number back\<close>

definition hex_digit :: "char \<Rightarrow> nat" where
  "hex_digit c = (let n = of_char c in if n < 65 then n - 48 else n - 55)"

definition read_hex :: "string \<Rightarrow> nat" where
  "read_hex = foldl (\<lambda>n c. 16 * n + hex_digit c) 0"

lemma hex_digit_chars: "d < 16 \<Longrightarrow> hex_digit (hex_chars ! d) = d"
proof -
  have "\<forall>d \<in> set [0, 1, 2, 3, 4, 5, 6, 7, 8, 9, 10, 11, 12, 13, 14, 15]. hex_digit (hex_chars ! d) = d"
    by (simp add: hex_digit_def hex_chars_def Let_def)
  moreover assume "d < 16"
  then have "d \<in> set [0, 1, 2, 3, 4, 5, 6, 7, 8, 9, 10, 11, 12, 13, 14, 15]"
    by (simp; presburger)
  ultimately show ?thesis by blast
qed

lemma fold_digits:
  "foldl (\<lambda>m i. 16 * m + n div 16 ^ (K - i) mod 16) 0 [0..<k] = n div 16 ^ (Suc K - k) mod 16 ^ k"
  if "k \<le> Suc K" for n :: nat
  using that
proof (induction k)
  case 0
  then show ?case by simp
next
  case (Suc k)
  have "Suc K - k = Suc (K - k)" using Suc.prems by simp
  then have "n div 16 ^ (Suc K - k) = n div 16 ^ (K - k) div 16"
    by (simp add: div_mult2_eq power_Suc2 del: power_Suc)
  then have "16 * (n div 16 ^ (Suc K - k) mod 16 ^ k) + n div 16 ^ (K - k) mod 16 =
      n div 16 ^ (K - k) mod (16 * 16 ^ k)"
    by (simp add: mod_mult2_eq)
  then show ?case using Suc by simp
qed

lemma read_hex_puthex: "read_hex (drop 2 (puthex_text val)) = unat val"
proof -
  have digit: "hex_digit (hex_chars ! (unat (drop_bit (60 - 4 * i) val) mod 16)) =
      unat val div 16 ^ (15 - i) mod 16" if "i < 16" for i
  proof -
    have "(16::nat) ^ (15 - i) = (2 ^ 4) ^ (15 - i)"
      by simp
    also have "\<dots> = 2 ^ (60 - 4 * i)"
      by (simp only: power_mult [symmetric] diff_mult_distrib2) simp
    finally have "(16::nat) ^ (15 - i) = 2 ^ (60 - 4 * i)" .
    moreover have "unat (drop_bit (60 - 4 * i) val) = unat val div 2 ^ (60 - 4 * i)"
      by (simp add: unat_drop_bit_eq flip: drop_bit_eq_div)
    ultimately show ?thesis by (simp add: hex_digit_chars)
  qed
  have "read_hex (drop 2 (puthex_text val)) =
      foldl (\<lambda>m i. 16 * m + hex_digit (hex_chars ! unat (drop_bit (60 - 4 * i) val AND 0xF))) 0 [0..<16]"
    by (simp add: puthex_text_def read_hex_def foldl_map)
  also have "\<dots> = foldl (\<lambda>m i. 16 * m + unat val div 16 ^ (15 - i) mod 16) 0 [0..<16]"
    by (intro foldl_cong) (auto simp: digit)
  also have "\<dots> = unat val mod 16 ^ 16"
    using fold_digits [of 16 15 "unat val"] by simp
  also have "\<dots> = unat val"
    using unsigned_less [where ?'a = nat and w = val] by simp
  finally show ?thesis .
qed

section \<open>Properties\<close>

text \<open>
  \<^verbatim>\<open>uart_putc\<close> returns exactly when the transmit FIFO is seen non-full at some
  later read of FR, and then it has stopped at the first such read and written the character
  to DR once.
\<close>
theorem uart_putc_termination:
  "((\<exists>u'. uart_putc c u = Some u') \<longleftrightarrow> (\<exists>n. ready_at tx_full u n)) \<and>
   (\<forall>u'. uart_putc c u = Some u' \<longrightarrow>
      tx u' = tx u @ [of_char c] \<and> fr_reads u < fr_reads u' \<and>
      \<not> tx_full (fr_env u (fr_reads u' - 1)) \<and>
      (\<forall>i. fr_reads u \<le> i \<and> i < fr_reads u' - 1 \<longrightarrow> tx_full (fr_env u i)))"
proof (cases "\<exists>n. ready_at tx_full u n")
  case True
  then obtain k where "fr_reads u \<le> k" "\<not> tx_full (fr_env u k)"
    "\<forall>i. fr_reads u \<le> i \<and> i < k \<longrightarrow> tx_full (fr_env u i)"
    "poll_fr tx_full u = Some (u\<lparr>fr_reads := Suc k\<rparr>)"
    by (metis poll_fr_least)
  with True show ?thesis by (auto simp: uart_putc_def)
next
  case False
  then have "poll_fr tx_full u = None"
    using poll_fr_returns [of tx_full u] by (cases "poll_fr tx_full u") auto
  with False show ?thesis by (simp add: uart_putc_def)
qed

text \<open>A device that is full at its first two polls and free from then on.\<close>

definition slow_uart :: uart where
  "slow_uart = \<lparr>fr_env = (\<lambda>n. if n < 2 then 32 else 0), fr_reads = 0, dr_env = (\<lambda>n. 65),
     dr_reads = 0, tx = []\<rparr>"

lemma uart_putc_termination_witness:
  "\<exists>u'. uart_putc CHR ''A'' slow_uart = Some u' \<and> tx u' = [65]"
proof -
  have "ready_at tx_full slow_uart 2"
    by (simp add: ready_at_def slow_uart_def tx_full_def)
  with uart_putc_termination [of "CHR ''A''" slow_uart] show ?thesis
    by (auto simp: slow_uart_def)
qed

text \<open>
  On a device that never stays full for ever, \<^verbatim>\<open>uart_puts\<close> returns and writes the
  characters of the string up to the NUL, each newline preceded by a carriage return, and
  nothing else.
\<close>
theorem uart_puts_output:
  assumes "tx_live u"
  shows "\<exists>u'. uart_puts str u = Some u' \<and> tx u' = tx u @ map of_char (puts_text str)"
  using puts_sends [OF assms, of str] by (auto simp: sends_def)

lemma uart_puts_output_witness:
  "\<exists>u'. uart_puts (''OK'' @ [newline, nul] @ ''junk'') slow_uart = Some u' \<and>
     tx u' = map of_char (''OK'' @ [carriage_return, newline])"
proof -
  have "\<exists>m \<ge> n. \<not> tx_full (fr_env slow_uart m)" for n
    by (intro exI [of _ "n + 2"]) (simp add: slow_uart_def tx_full_def)
  then have "tx_live slow_uart" by (simp add: tx_live_def)
  from uart_puts_output [OF this, of "''OK'' @ [newline, nul] @ ''junk''"] show ?thesis
    by (simp add: puts_text_def newline_def nul_def carriage_return_def) (simp add: slow_uart_def)
qed

text \<open>
  On such a device \<^verbatim>\<open>uart_puthex\<close> returns and writes \<open>0x\<close> and sixteen digits, and
  the digits read back give the number.
\<close>
theorem uart_puthex_roundtrip:
  assumes "tx_live u"
  shows "\<exists>u' digits. uart_puthex val u = Some u' \<and> tx u' = tx u @ map of_char (''0x'' @ digits) \<and>
    length digits = 16 \<and> read_hex digits = unat val"
proof -
  obtain u' where u': "uart_puthex val u = Some u'" "sends u (puthex_text val) u'"
    using puthex_sends [OF assms] by blast
  have "puthex_text val = ''0x'' @ drop 2 (puthex_text val)" "length (puthex_text val) = 18"
    by (simp_all add: puthex_text_def)
  with u' read_hex_puthex [of val] show ?thesis
    by (intro exI [of _ u'] exI [of _ "drop 2 (puthex_text val)"]) (auto simp: sends_def)
qed

lemma uart_puthex_roundtrip_witness:
  "\<exists>u' digits. uart_puthex 0xDEAD slow_uart = Some u' \<and>
     tx u' = map of_char (''0x'' @ digits) \<and> read_hex digits = 0xDEAD"
proof -
  have "\<exists>m \<ge> n. \<not> tx_full (fr_env slow_uart m)" for n
    by (intro exI [of _ "n + 2"]) (simp add: slow_uart_def tx_full_def)
  then have "tx_live slow_uart" by (simp add: tx_live_def)
  from uart_puthex_roundtrip [OF this, of "0xDEAD"] show ?thesis
    by (auto simp: slow_uart_def)
qed

text \<open>
  \<^verbatim>\<open>uart_getc\<close> returns exactly when FR shows data at some later read, and then
  gives the low byte of one read of DR.
\<close>
theorem uart_getc_termination:
  "((\<exists>r. uart_getc u = Some r) \<longleftrightarrow> (\<exists>n \<ge> fr_reads u. has_data (fr_env u n))) \<and>
   (\<forall>b u'. uart_getc u = Some (b, u') \<longrightarrow>
      unat b = unat (dr_env u (dr_reads u)) mod 256 \<and> dr_reads u' = Suc (dr_reads u) \<and>
      tx u' = tx u)"
proof (cases "\<exists>n. ready_at (\<lambda>fr. \<not> has_data fr) u n")
  case True
  then obtain k where "poll_fr (\<lambda>fr. \<not> has_data fr) u = Some (u\<lparr>fr_reads := Suc k\<rparr>)"
    by (metis poll_fr_least)
  moreover have "unat (ucast (ucast (x AND 0xFF) :: u8) :: u32) = unat x mod 256" for x :: u32
    by (simp add: unsigned_ucast_eq take_bit_eq_mod unat_mod_distrib)
  ultimately show ?thesis using True
    by (auto simp: uart_getc_def ready_at_def simp del: unsigned_ucast_eq)
next
  case False
  then have "poll_fr (\<lambda>fr. \<not> has_data fr) u = None"
    using poll_fr_returns [of "\<lambda>fr. \<not> has_data fr" u]
    by (cases "poll_fr (\<lambda>fr. \<not> has_data fr) u") auto
  with False show ?thesis by (auto simp: uart_getc_def ready_at_def)
qed

lemma uart_getc_termination_witness:
  "\<exists>u'. uart_getc slow_uart = Some (65, u') \<and> dr_reads u' = 1"
proof -
  have "\<exists>r. uart_getc slow_uart = Some r"
    using uart_getc_termination [of slow_uart] by (auto simp: slow_uart_def has_data_def)
  then obtain b u' where r: "uart_getc slow_uart = Some (b, u')" by auto
  then have "unat b = 65 \<and> dr_reads u' = 1"
    using uart_getc_termination [of slow_uart] by (auto simp: slow_uart_def)
  moreover from this have "b = 65" by (simp add: word_unat_eq_iff)
  ultimately show ?thesis using r by auto
qed

text \<open>
  On the RPi5 target the UART is disabled before any other register is written
  and enabled (UARTEN, TXE and RXE, nothing else) by the last write only; the divisor written
  to IBRD and FBRD is 48 MHz / (16 * 115200) rounded to 1/64.  On QEMU no register is written.
\<close>
theorem uart_init_order:
  "uart_init TARGET_QEMU = [] \<and>
   (let ws = uart_init TARGET_RPI5; cr = UART0_BASE TARGET_RPI5 + 0x30 in
      hd ws = (cr, 0) \<and> last ws = (cr, 0x301) \<and> cr \<notin> fst ` set (butlast (tl ws)) \<and>
      distinct (map fst (tl ws)) \<and>
      (let ibrd = the (map_of ws (UART0_BASE TARGET_RPI5 + 0x24));
           fbrd = the (map_of ws (UART0_BASE TARGET_RPI5 + 0x28))
       in 64 * unat ibrd + unat fbrd = (64 * 48000000 + (16 * 115200) div 2) div (16 * 115200)))"
  by (simp add: uart_init_def UART0_BASE_def Let_def)

end
