(* ===== verification/Spinlock.thy ===== *)
theory Spinlock
  imports Prelude
begin

text \<open>
  The spinlock of \<^verbatim>\<open>include/ipc/ipc.c\<close>, twice.  First one instruction at a time, for any number
  of cores: LDXR arms the core's exclusive monitor, any store to the lock word clears the
  monitors, STXR stores only while its monitor is armed and may also fail for no reason.
  Mutual exclusion is an invariant of every interleaving, and the instructions refine an
  atomic lock.  Then as one step, \<open>spinlock_acquire\<close> and \<open>spinlock_release\<close>, the form the
  sequential models of the callers use; the last property ties the two together.
\<close>

section \<open>One instruction at a time\<close>

text \<open>
  The program counter of a core: outside (\<open>Idle\<close>), at each instruction of
  \<^verbatim>\<open>spinlock_acquire\<close>, inside the critical section (\<open>Held\<close>), at each instruction of
  \<^verbatim>\<open>spinlock_release\<close>.  A step from \<open>Idle\<close> or \<open>Held\<close> is the call.
\<close>

datatype spin_pc =
  Idle | A_Mov | A_Ldxr | A_Cbnz_Locked | A_Stxr | A_Cbnz_Failed | A_Dmb | Held
  | R_Dmb | R_Store | R_Dsb | R_Sev

record spin =
  lock_word :: u32
  armed :: "nat set"            \<comment> \<open>the cores whose exclusive monitor is set\<close>
  pc :: "nat \<Rightarrow> spin_pc"
  w_tmp :: "nat \<Rightarrow> u32"         \<comment> \<open>operand 0 of the inline assembly\<close>
  w_val :: "nat \<Rightarrow> u32"         \<comment> \<open>operand 1\<close>

definition spinlock_init :: "u32 \<Rightarrow> u32" where
  "spinlock_init lock = 0"

definition spin_start :: "spin \<Rightarrow> bool" where
  "spin_start s \<longleftrightarrow> (\<exists>old. lock_word s = spinlock_init old) \<and> (\<forall>c. pc s c = Idle)"

definition goto :: "nat \<Rightarrow> spin_pc \<Rightarrow> spin \<Rightarrow> spin" where
  "goto c l s = s\<lparr>pc := (pc s)(c := l)\<rparr>"

definition set_tmp :: "nat \<Rightarrow> u32 \<Rightarrow> spin \<Rightarrow> spin" where
  "set_tmp c v s = s\<lparr>w_tmp := (w_tmp s)(c := v)\<rparr>"

text \<open>The next instruction of core \<open>c\<close>; \<open>spurious\<close> is an STXR that fails for no reason.\<close>

definition spin_exec :: "nat \<Rightarrow> bool \<Rightarrow> spin \<Rightarrow> spin" where
  "spin_exec c spurious s = (case pc s c of
     Idle \<Rightarrow> goto c A_Mov s
   | A_Mov \<Rightarrow> goto c A_Ldxr (s\<lparr>w_val := (w_val s)(c := 1)\<rparr>)
   | A_Ldxr \<Rightarrow> goto c A_Cbnz_Locked (set_tmp c (lock_word s) (s\<lparr>armed := insert c (armed s)\<rparr>))
   | A_Cbnz_Locked \<Rightarrow> goto c (if w_tmp s c \<noteq> 0 then A_Ldxr else A_Stxr) s
   | A_Stxr \<Rightarrow>
       goto c A_Cbnz_Failed
         (if c \<in> armed s \<and> \<not> spurious
          then set_tmp c 0 (s\<lparr>lock_word := w_val s c, armed := {}\<rparr>)
          else set_tmp c 1 (s\<lparr>armed := armed s - {c}\<rparr>))
   | A_Cbnz_Failed \<Rightarrow> goto c (if w_tmp s c \<noteq> 0 then A_Ldxr else A_Dmb) s
   | A_Dmb \<Rightarrow> goto c Held s
   | Held \<Rightarrow> goto c R_Dmb s
   | R_Dmb \<Rightarrow> goto c R_Store s
   | R_Store \<Rightarrow> goto c R_Dsb (s\<lparr>lock_word := 0, armed := {}\<rparr>)
   | R_Dsb \<Rightarrow> goto c R_Sev s
   | R_Sev \<Rightarrow> goto c Idle s)"

inductive spin_reach :: "spin \<Rightarrow> bool" where
  start: "spin_start s \<Longrightarrow> spin_reach s"
| step: "spin_reach s \<Longrightarrow> spin_reach (spin_exec c spurious s)"

section \<open>The owner\<close>

text \<open>A core owns the lock from its successful STXR to its releasing store.\<close>

definition owns :: "spin \<Rightarrow> nat \<Rightarrow> bool" where
  "owns s c \<longleftrightarrow> pc s c \<in> {A_Dmb, Held, R_Dmb, R_Store} \<or> pc s c = A_Cbnz_Failed \<and> w_tmp s c = 0"

definition spin_inv :: "spin \<Rightarrow> bool" where
  [inv_defs]: "spin_inv s \<longleftrightarrow>
     (\<forall>c. owns s c \<longrightarrow> lock_word s = 1) \<and>
     (\<forall>c d. owns s c \<longrightarrow> owns s d \<longrightarrow> c = d) \<and>
     (lock_word s \<noteq> 0 \<longrightarrow> (\<exists>c. owns s c)) \<and>
     (\<forall>c. c \<in> armed s \<longrightarrow> pc s c = A_Cbnz_Locked \<longrightarrow> w_tmp s c = lock_word s) \<and>
     (\<forall>c. c \<in> armed s \<longrightarrow> pc s c = A_Stxr \<longrightarrow> lock_word s = 0) \<and>
     (\<forall>c. pc s c \<in> {A_Ldxr, A_Cbnz_Locked, A_Stxr, A_Cbnz_Failed} \<longrightarrow> w_val s c = 1)"

lemma goto_simps [simp]:
  "pc (goto c l s) = (pc s)(c := l)" "lock_word (goto c l s) = lock_word s"
  "armed (goto c l s) = armed s" "w_tmp (goto c l s) = w_tmp s" "w_val (goto c l s) = w_val s"
  by (simp_all add: goto_def)

lemma set_tmp_simps [simp]:
  "w_tmp (set_tmp c v s) = (w_tmp s)(c := v)" "lock_word (set_tmp c v s) = lock_word s"
  "armed (set_tmp c v s) = armed s" "pc (set_tmp c v s) = pc s" "w_val (set_tmp c v s) = w_val s"
  by (simp_all add: set_tmp_def)

text \<open>Only two instructions change the owner, and only the owner of the core that runs them.\<close>

lemma owns_other: "d \<noteq> c \<Longrightarrow> owns (spin_exec c sp s) d \<longleftrightarrow> owns s d"
  by (cases "pc s c") (simp_all add: spin_exec_def owns_def)

lemma owns_self:
  "owns (spin_exec c sp s) c \<longleftrightarrow>
     (if pc s c = A_Stxr then c \<in> armed s \<and> \<not> sp
      else owns s c \<and> pc s c \<noteq> R_Store)"
  by (cases "pc s c") (simp_all add: spin_exec_def owns_def)

lemma lock_word_exec:
  "lock_word (spin_exec c sp s) =
     (if pc s c = A_Stxr \<and> c \<in> armed s \<and> \<not> sp then w_val s c
      else if pc s c = R_Store then 0 else lock_word s)"
  by (cases "pc s c") (simp_all add: spin_exec_def)

lemma spin_inv_start: "spin_start s \<Longrightarrow> spin_inv s"
  by (auto simp: spin_start_def spin_inv_def owns_def spinlock_init_def)

lemma spin_inv_exec:
  assumes "spin_inv s"
  shows "spin_inv (spin_exec c sp s)"
proof -
  let ?s = "spin_exec c sp s"
  from assms have I: "\<And>d. owns s d \<Longrightarrow> lock_word s = 1" "\<And>d e. owns s d \<Longrightarrow> owns s e \<Longrightarrow> d = e"
      "lock_word s \<noteq> 0 \<Longrightarrow> \<exists>d. owns s d"
      "\<And>d. d \<in> armed s \<Longrightarrow> pc s d = A_Cbnz_Locked \<Longrightarrow> w_tmp s d = lock_word s"
      "\<And>d. d \<in> armed s \<Longrightarrow> pc s d = A_Stxr \<Longrightarrow> lock_word s = 0"
      "\<And>d. pc s d \<in> {A_Ldxr, A_Cbnz_Locked, A_Stxr, A_Cbnz_Failed} \<Longrightarrow> w_val s d = 1"
    unfolding spin_inv_def by blast+
  have own: "owns ?s d \<longleftrightarrow> (if d = c then if pc s c = A_Stxr then c \<in> armed s \<and> \<not> sp
      else owns s c \<and> pc s c \<noteq> R_Store else owns s d)" for d
    by (simp add: owns_self owns_other)
  have stxr: "pc s c = A_Stxr \<Longrightarrow> \<not> owns s c" and store: "pc s c = R_Store \<Longrightarrow> owns s c"
    by (auto simp: owns_def)
  have free: "pc s c = A_Stxr \<Longrightarrow> c \<in> armed s \<Longrightarrow> \<not> owns s d" for d
    using I(1) [of d] I(5) [of c] by force
  have val: "pc s c = A_Stxr \<Longrightarrow> w_val s c = 1" using I(6) by simp
  have "\<forall>d. owns ?s d \<longrightarrow> lock_word ?s = 1"
    using I(1,2) val free store by (auto simp: own lock_word_exec split: if_splits)
  moreover have "d = e" if "owns ?s d" "owns ?s e" for d e
    using that I(2) [of d e] free [of d] free [of e] by (simp add: own split: if_splits)
  moreover have "\<exists>d. owns ?s d" if l: "lock_word ?s \<noteq> 0"
  proof (cases "pc s c = A_Stxr \<and> c \<in> armed s \<and> \<not> sp")
    case True
    then have "owns ?s c" by (auto simp: owns_self)
    then show ?thesis ..
  next
    case False
    with l have "lock_word s \<noteq> 0" "pc s c \<noteq> R_Store" by (auto simp: lock_word_exec split: if_splits)
    then obtain d where "owns s d" using I(3) by blast
    with stxr \<open>pc s c \<noteq> R_Store\<close> have "owns ?s d" by (auto simp: own)
    then show ?thesis ..
  qed
  moreover have "\<forall>d. d \<in> armed ?s \<longrightarrow> pc ?s d = A_Cbnz_Locked \<longrightarrow> w_tmp ?s d = lock_word ?s"
    using I(4) by (cases "pc s c") (auto simp: spin_exec_def split: if_splits)
  moreover have "\<forall>d. d \<in> armed ?s \<longrightarrow> pc ?s d = A_Stxr \<longrightarrow> lock_word ?s = 0"
    using I(4,5) by (cases "pc s c") (auto simp: spin_exec_def split: if_splits)
  moreover have "\<forall>d. pc ?s d \<in> {A_Ldxr, A_Cbnz_Locked, A_Stxr, A_Cbnz_Failed} \<longrightarrow> w_val ?s d = 1"
    using I(6) by (cases "pc s c") (auto simp: spin_exec_def split: if_splits)
  ultimately show ?thesis unfolding spin_inv_def by blast
qed

lemma spin_reach_inv: "spin_reach s \<Longrightarrow> spin_inv s"
  by (induction rule: spin_reach.induct) (auto intro: spin_inv_start spin_inv_exec)

lemma spin_owner_unique: "spin_reach s \<Longrightarrow> owns s c \<Longrightarrow> owns s d \<Longrightarrow> c = d"
  using spin_reach_inv unfolding spin_inv_def by blast

lemma spin_free_iff: "spin_reach s \<Longrightarrow> lock_word s = 0 \<longleftrightarrow> (\<forall>c. \<not> owns s c)"
  using spin_reach_inv [of s] unfolding spin_inv_def by (metis zero_neq_one)

section \<open>Running one core alone\<close>

abbreviation alone :: "nat \<Rightarrow> nat \<Rightarrow> spin \<Rightarrow> spin" where
  "alone c n s \<equiv> (spin_exec c False ^^ n) s"

lemma spin_reach_alone: "spin_reach s \<Longrightarrow> spin_reach (alone c n s)"
  by (induction n) (simp_all add: spin_reach.step)

lemma alone_acquires:
  assumes "pc s c \<in> {Idle, A_Mov, A_Ldxr}" and "lock_word s = 0" and "pc s c = A_Ldxr \<longrightarrow> w_val s c = 1"
  shows "\<exists>n \<le> 7. pc (alone c n s) c = Held \<and> lock_word (alone c n s) = 1"
proof -
  have ldxr: "pc (alone c 5 t) c = Held \<and> lock_word (alone c 5 t) = 1"
    if "pc t c = A_Ldxr" "lock_word t = 0" "w_val t c = 1" for t
    using that by (simp add: spin_exec_def eval_nat_numeral)
  consider "pc s c = A_Ldxr" | "pc s c = A_Mov" | "pc s c = Idle" using assms(1) by blast
  then show ?thesis
  proof cases
    case 1
    with ldxr [of s] assms show ?thesis by (intro exI [of _ 5]) simp
  next
    case 2
    with ldxr [of "alone c 1 s"] assms show ?thesis
      by (intro exI [of _ 6]) (simp add: spin_exec_def eval_nat_numeral)
  next
    case 3
    with ldxr [of "alone c 2 s"] assms show ?thesis
      by (intro exI [of _ 7]) (simp add: spin_exec_def eval_nat_numeral)
  qed
qed

text \<open>A core that finds the lock taken reads it for ever and changes nothing.\<close>

lemma alone_spins:
  assumes "pc s c = Idle" and "lock_word s \<noteq> 0"
  shows "pc (alone c n s) c \<noteq> Held \<and> lock_word (alone c n s) = lock_word s"
proof -
  have "lock_word (alone c n s) = lock_word s \<and> (pc (alone c n s) c \<in> {Idle, A_Mov, A_Ldxr} \<or>
      pc (alone c n s) c = A_Cbnz_Locked \<and> w_tmp (alone c n s) c = lock_word s)"
    using assms by (induction n) (auto simp: spin_exec_def)
  then show ?thesis by auto
qed

lemma alone_releases:
  assumes "owns s c"
  shows "\<exists>n \<le> 6. lock_word (alone c n s) = 0"
proof -
  consider "pc s c = R_Store" | "pc s c = R_Dmb" | "pc s c = Held" | "pc s c = A_Dmb"
    | "pc s c = A_Cbnz_Failed" "w_tmp s c = 0"
    using assms by (auto simp: owns_def)
  then show ?thesis
  proof cases
    case 1
    then show ?thesis by (intro exI [of _ 1]) (simp add: spin_exec_def)
  next
    case 2
    then show ?thesis by (intro exI [of _ 2]) (simp add: spin_exec_def eval_nat_numeral)
  next
    case 3
    then show ?thesis by (intro exI [of _ 3]) (simp add: spin_exec_def eval_nat_numeral)
  next
    case 4
    then show ?thesis by (intro exI [of _ 4]) (simp add: spin_exec_def eval_nat_numeral)
  next
    case 5
    then show ?thesis by (intro exI [of _ 5]) (simp add: spin_exec_def eval_nat_numeral)
  qed
qed

lemma alone_retries:
  assumes "spin_reach s" and "k \<le> 2" and "pc (alone c k s) c \<in> {Idle, A_Mov, A_Ldxr}" and "lock_word (alone c k s) = 0"
  shows "\<exists>n \<le> 9. pc (alone c n s) c = Held"
proof -
  have "pc (alone c k s) c = A_Ldxr \<longrightarrow> w_val (alone c k s) c = 1"
    using spin_reach_inv [OF spin_reach_alone [OF assms(1), of k c]] by (simp add: spin_inv_def)
  with alone_acquires [OF assms(3,4)] obtain n where "n \<le> 7" "pc (alone c n (alone c k s)) c = Held"
    by blast
  with assms(2) show ?thesis by (intro exI [of _ "n + k"]) (simp add: funpow_add)
qed

lemma alone_stores:
  assumes reach: "spin_reach s" and free: "lock_word s = 0" and at: "pc s c \<in> {A_Cbnz_Locked, A_Stxr}"
  shows "\<exists>n \<le> 9. pc (alone c n s) c = Held"
proof -
  have val: "w_val s c = 1" using at spin_reach_inv [OF reach] by (auto simp: spin_inv_def)
  consider "pc s c = A_Cbnz_Locked" "w_tmp s c \<noteq> 0" | "pc s c = A_Cbnz_Locked" "w_tmp s c = 0" "c \<in> armed s"
    | "pc s c = A_Cbnz_Locked" "w_tmp s c = 0" "c \<notin> armed s" | "pc s c = A_Stxr" "c \<in> armed s"
    | "pc s c = A_Stxr" "c \<notin> armed s" using at by auto
  then show ?thesis
  proof cases
    case 1
    with free alone_retries [OF reach, of 1] show ?thesis by (simp add: spin_exec_def)
  next
    case 2
    then show ?thesis by (intro exI [of _ 4]) (simp add: spin_exec_def eval_nat_numeral)
  next
    case 3
    with free val show ?thesis by (intro exI [of _ 8]) (simp add: spin_exec_def eval_nat_numeral)
  next
    case 4
    then show ?thesis by (intro exI [of _ 3]) (simp add: spin_exec_def eval_nat_numeral)
  next
    case 5
    with free alone_retries [OF reach, of 2] show ?thesis by (simp add: spin_exec_def eval_nat_numeral)
  qed
qed

lemma alone_progress:
  assumes reach: "spin_reach s" and free: "lock_word s = 0"
  shows "\<exists>n \<le> 9. pc (alone c n s) c = Held"
proof -
  note retry = alone_retries [OF reach]
  have no: "\<not> owns s c" using spin_free_iff [OF reach] free by simp
  consider "pc s c \<in> {Idle, A_Mov, A_Ldxr}" | "pc s c \<in> {A_Cbnz_Locked, A_Stxr}" | "pc s c = A_Cbnz_Failed"
    | "pc s c = R_Dsb" | "pc s c = R_Sev" using no by (cases "pc s c") (simp_all add: owns_def)
  then show ?thesis
  proof cases
    case 1
    with retry [of 0] free show ?thesis by simp
  next
    case 2
    with alone_stores [OF reach free] show ?thesis .
  next
    case 3
    with no have "w_tmp s c \<noteq> 0" by (simp add: owns_def)
    with 3 free retry [of 1] show ?thesis by (simp add: spin_exec_def)
  next
    case 4
    with free retry [of 2] show ?thesis by (simp add: spin_exec_def eval_nat_numeral)
  next
    case 5
    with free retry [of 1] show ?thesis by (simp add: spin_exec_def)
  qed
qed

section \<open>As one step\<close>

definition spinlock_acquire :: "u32 \<Rightarrow> u32 exec" where
  "spinlock_acquire lock = (if lock \<noteq> 0 then Inl Spinning else Inr 1)"

definition spinlock_release :: "u32 \<Rightarrow> u32" where
  "spinlock_release lock = 0"

text \<open>The atomic lock: its holder, and what a step of core \<open>c\<close> may do to it.\<close>

inductive lock_spec :: "nat \<Rightarrow> nat option \<Rightarrow> nat option \<Rightarrow> bool" where
  stutter: "lock_spec c h h"
| acquire: "lock_spec c None (Some c)"
| release: "lock_spec c (Some c) None"

inductive_simps lock_spec_Some: "lock_spec c (Some d) h"

definition holder_is :: "spin \<Rightarrow> nat option \<Rightarrow> bool" where
  "holder_is s h \<longleftrightarrow> (\<forall>c. owns s c \<longleftrightarrow> h = Some c) \<and> (lock_word s = 0 \<longleftrightarrow> h = None)"

lemma holder_exists: "spin_reach s \<Longrightarrow> \<exists>h. holder_is s h"
proof (cases "\<exists>c. owns s c")
  case True
  then obtain c where "owns s c" ..
  moreover assume "spin_reach s"
  ultimately show ?thesis
    using spin_owner_unique [of s] spin_free_iff [of s]
    by (intro exI [of _ "Some c"]) (auto simp: holder_is_def)
next
  case False
  moreover assume "spin_reach s"
  ultimately show ?thesis
    using spin_free_iff [of s] by (intro exI [of _ None]) (auto simp: holder_is_def)
qed

section \<open>Properties\<close>

text \<open>Core 0 has taken the lock, core 1 has read it as taken.\<close>

definition spin0 :: spin where
  "spin0 = \<lparr>lock_word = spinlock_init 7, armed = {}, pc = (\<lambda>c. Idle), w_tmp = (\<lambda>c. 0), w_val = (\<lambda>c. 0)\<rparr>"

lemma spin0_reach: "spin_reach spin0"
  by (rule spin_reach.start) (auto simp: spin_start_def spin0_def)

lemma spin0_held: "spin_reach (alone 0 7 spin0) \<and> pc (alone 0 7 spin0) 0 = Held"
  by (rule conjI [OF spin_reach_alone [OF spin0_reach]])
    (simp add: spin0_def spinlock_init_def spin_exec_def eval_nat_numeral)

text \<open>
  Property C2: mutual exclusion.  However the instructions of any number of cores interleave,
  and whichever STXR fail for no reason, two cores are never both between
  \<^verbatim>\<open>spinlock_acquire\<close> and \<^verbatim>\<open>spinlock_release\<close>, and the lock word is 1 while one is.
\<close>
theorem spin_mutual_exclusion:
  assumes "spin_reach s" and "pc s c = Held"
  shows "lock_word s = 1 \<and> (\<forall>d. pc s d = Held \<longrightarrow> d = c)"
  using assms spin_owner_unique [of s c] spin_reach_inv [of s] by (auto simp: owns_def spin_inv_def)

lemma spin_mutual_exclusion_witness:
  "pc (alone 0 7 spin0) 0 = Held \<and> pc (alone 0 7 spin0) 1 \<noteq> Held"
  using spin_mutual_exclusion [of "alone 0 7 spin0" 0] spin0_held by (metis zero_neq_one)

text \<open>
  Property C26: the instruction sequences implement an atomic lock.  Every reachable state has
  a holder (a core or nobody), the lock word is 0 exactly when it is nobody, and every
  instruction of a core leaves the holder alone, makes that core the holder of a free lock,
  or makes it give up its own hold.
\<close>
theorem spin_refines_atomic_lock:
  assumes "spin_reach s"
  shows "\<exists>h h'. holder_is s h \<and> holder_is (spin_exec c sp s) h' \<and> lock_spec c h h'"
proof -
  obtain h where h: "holder_is s h" using holder_exists [OF assms] ..
  obtain h' where h': "holder_is (spin_exec c sp s) h'"
    using holder_exists [OF spin_reach.step [OF assms]] by blast
  have "owns (spin_exec c sp s) d \<longleftrightarrow> owns s d" if "d \<noteq> c" for d
    using that by (rule owns_other)
  then have "h' = h \<or> h = None \<and> h' = Some c \<or> h = Some c \<and> h' = None"
    using h h' unfolding holder_is_def by (metis not_Some_eq)
  with h h' show ?thesis by (metis lock_spec.intros)
qed

lemma spin_refines_atomic_lock_witness:
  "\<exists>h'. holder_is (spin_exec 0 False (alone 0 7 spin0)) h' \<and> lock_spec 0 (Some 0) h'"
proof -
  have "owns (alone 0 7 spin0) 0" using spin0_held by (simp add: owns_def)
  with spin_refines_atomic_lock [of "alone 0 7 spin0" 0 False] spin0_held show ?thesis
    by (metis holder_is_def)
qed

text \<open>
  Property C38: no deadlock inside the lock code.  From every reachable state every core can be
  brought into the critical section by at most 15 instructions: first the owner, if there
  is one, runs to its releasing store, then the core runs alone.
\<close>
theorem spin_no_deadlock:
  assumes "spin_reach s"
  shows "\<exists>d m n. m \<le> 6 \<and> n \<le> 9 \<and> pc (alone c n (alone d m s)) c = Held"
proof (cases "lock_word s = 0")
  case True
  then obtain n where "n \<le> 9" "pc (alone c n (alone c 0 s)) c = Held"
    using alone_progress [OF assms, of c] by auto
  then show ?thesis by blast
next
  case False
  then obtain d where "owns s d" using spin_free_iff [OF assms] by blast
  from alone_releases [OF this] obtain m where m: "m \<le> 6" "lock_word (alone d m s) = 0" by blast
  from alone_progress [OF spin_reach_alone [OF assms] m(2), of c] m(1) show ?thesis by blast
qed

lemma spin_no_deadlock_witness:
  "\<exists>d m n. m \<le> 6 \<and> n \<le> 9 \<and> pc (alone 1 n (alone d m (alone 0 7 spin0))) 1 = Held"
  using spin_no_deadlock [of "alone 0 7 spin0" 1] spin0_held by blast

text \<open>
  The one-step form used for sequential code.  A core that calls
  \<^verbatim>\<open>spinlock_acquire\<close> and runs undisturbed gets the lock, after 7 instructions at most, exactly
  when \<open>spinlock_acquire\<close> returns, with the lock word it returns; when the word is not zero the
  call never returns and changes nothing.
\<close>
theorem spinlock_acquire_one_step:
  assumes "pc s c = Idle"
  shows "case spinlock_acquire (lock_word s) of
      Inr w \<Rightarrow> (\<exists>n \<le> 7. pc (alone c n s) c = Held \<and> lock_word (alone c n s) = w)
    | Inl e \<Rightarrow> e = Spinning \<and> (\<forall>n. pc (alone c n s) c \<noteq> Held \<and> lock_word (alone c n s) = lock_word s)"
  using assms alone_acquires [of s c] alone_spins [of s c] by (auto simp: spinlock_acquire_def)

lemma spinlock_acquire_one_step_witness:
  "\<exists>n \<le> 7. pc (alone 3 n spin0) 3 = Held \<and> lock_word (alone 3 n spin0) = 1"
  using spinlock_acquire_one_step [of spin0 3]
  by (simp add: spinlock_acquire_def spin0_def spinlock_init_def)

end
