(* ===== verification/Critical_Section.thy ===== *)
theory Critical_Section
  imports Prelude
begin

text \<open>
  The interface of a lock to the code between its \<open>acquire\<close> and its \<open>release\<close>.  Acquiring gives
  a handle, which the section may change and hands back: the mailbox behind the pointer for the
  locks of the mailboxes, nothing for the global lock.  The two interpret the locale in their own
  theories.
\<close>

definition under ::
  "('s \<Rightarrow> ('h \<times> 's) exec) \<Rightarrow> ('h \<Rightarrow> 's \<Rightarrow> 's) \<Rightarrow> ('h \<Rightarrow> 's \<Rightarrow> ('r \<times> 'h \<times> 's) exec) \<Rightarrow> 's \<Rightarrow> ('r \<times> 's) exec" where
  "under acquire release body s =
     bind_exec (acquire s) (\<lambda>(h, s). bind_exec (body h s) (\<lambda>(r, h, s). Inr (r, release h s)))"

locale critical_section =
  fixes acquire :: "'s \<Rightarrow> ('h \<times> 's) exec"
    and release :: "'h \<Rightarrow> 's \<Rightarrow> 's"
    and free :: "'s \<Rightarrow> bool"
    and holding :: "'h \<Rightarrow> 's \<Rightarrow> bool"
    and valid :: "'s \<Rightarrow> bool"
  assumes acquire_free: "valid s \<Longrightarrow> free s \<Longrightarrow> \<exists>h t. acquire s = Inr (h, t) \<and> holding h t"
    and acquire_taken: "valid s \<Longrightarrow> \<not> free s \<Longrightarrow> acquire s = Inl Spinning"
    and release_frees: "holding h t \<Longrightarrow> valid (release h t) \<and> free (release h t)"
    and holding_taken: "holding h t \<Longrightarrow> valid t \<and> \<not> free t"
begin

text \<open>A section whose body returns, still holding the lock, returns with the lock free.\<close>

lemma section_returns:
  assumes "valid s" and "free s" and body: "\<And>h t. holding h t \<Longrightarrow> \<exists>r h' t'. body h t = Inr (r, h', t') \<and> holding h' t'"
  shows "\<exists>r t. under acquire release body s = Inr (r, t) \<and> valid t \<and> free t"
proof -
  obtain h t where t: "acquire s = Inr (h, t)" "holding h t" using acquire_free [OF assms(1,2)] by blast
  obtain r h' t' where "body h t = Inr (r, h', t')" "holding h' t'" using body [OF t(2)] by blast
  with t(1) release_frees show ?thesis by (simp add: under_def)
qed

lemma section_spins: "valid s \<Longrightarrow> \<not> free s \<Longrightarrow> under acquire release body s = Inl Spinning"
  by (simp add: under_def acquire_taken)

text \<open>No section can begin while one is under way, on another core or in the section itself.\<close>

lemma sections_exclude: "holding h t \<Longrightarrow> under acquire release body t = Inl Spinning"
  using holding_taken section_spins by blast

end

end
