(* ===== verification/System_State.thy ===== *)
theory System_State
  imports Ring_Spsc Hmac Uart Spinlock Critical_Section
begin

text \<open>
  The memory the four cores share, as one record, and the console.  Every caller above the
  drivers works on this state: the global spinlock at \<^verbatim>\<open>SPINLOCK_ADDR\<close>, the mailboxes, the ring
  buffer \<^verbatim>\<open>UART_RX_BUFFER\<close>, the HMAC key memory, and the characters sent to the UART so far.
  The console functions append what \<^verbatim>\<open>uart0.c\<close> is proved to send on a device that is not full
  for ever; the waiting itself is the subject of the UART theory.
\<close>

section \<open>State\<close>

record system =
  sys_lock :: u32
  sys_mailboxes :: "mailbox list"
  sys_ring :: ring_buffer
  sys_key :: "u8 list"
  sys_console :: string

section \<open>Console\<close>

definition con_putc :: "char \<Rightarrow> system \<Rightarrow> system" where
  "con_putc c s = s\<lparr>sys_console := sys_console s @ [c]\<rparr>"

definition con_puts :: "string \<Rightarrow> system \<Rightarrow> system" where
  "con_puts str s = s\<lparr>sys_console := sys_console s @ puts_text str\<rparr>"

definition con_puthex :: "u64 \<Rightarrow> system \<Rightarrow> system" where
  "con_puthex val s = s\<lparr>sys_console := sys_console s @ puthex_text val\<rparr>"

text \<open>\<^verbatim>\<open>'0' + n\<close>, converted to \<^verbatim>\<open>char\<close>.\<close>

definition digit_char :: "u32 \<Rightarrow> char" where
  "digit_char n = char_of (unat (48 + n))"

text \<open>Any text; the three functions above are instances.\<close>

definition log_text :: "string \<Rightarrow> system \<Rightarrow> system" where
  "log_text str s = s\<lparr>sys_console := sys_console s @ str\<rparr>"

lemma con_log:
  "con_putc c s = log_text [c] s" "con_puts t s = log_text (puts_text t) s"
  "con_puthex v s = log_text (puthex_text v) s"
  "log_text b (log_text a s) = log_text (a @ b) s"
  by (simp_all add: log_text_def con_putc_def con_puts_def con_puthex_def)

lemma log_text_simps [simp]:
  "sys_mailboxes (log_text str s) = sys_mailboxes s" "sys_key (log_text str s) = sys_key s"
  "sys_lock (log_text str s) = sys_lock s" "sys_ring (log_text str s) = sys_ring s"
  "sys_console (log_text str s) = sys_console s @ str"
  by (simp_all add: log_text_def)

lemma con_frame [frame]:
  "sys_lock (con_putc c s) = sys_lock s" "sys_lock (con_puts t s) = sys_lock s"
  "sys_lock (con_puthex v s) = sys_lock s"
  "sys_mailboxes (con_putc c s) = sys_mailboxes s" "sys_mailboxes (con_puts t s) = sys_mailboxes s"
  "sys_mailboxes (con_puthex v s) = sys_mailboxes s"
  "sys_ring (con_putc c s) = sys_ring s" "sys_ring (con_puts t s) = sys_ring s"
  "sys_ring (con_puthex v s) = sys_ring s"
  "sys_key (con_putc c s) = sys_key s" "sys_key (con_puts t s) = sys_key s"
  "sys_key (con_puthex v s) = sys_key s"
  by (simp_all add: con_putc_def con_puts_def con_puthex_def)

declare con_frame [simp]

lemma con_console [simp]:
  "sys_console (con_putc c s) = sys_console s @ [c]"
  "sys_console (con_puts t s) = sys_console s @ puts_text t"
  "sys_console (con_puthex v s) = sys_console s @ puthex_text v"
  by (simp_all add: con_putc_def con_puts_def con_puthex_def)

section \<open>The global lock\<close>

definition acquire_global :: "system \<Rightarrow> system exec" where
  "acquire_global s = bind_exec (spinlock_acquire (sys_lock s)) (\<lambda>l. Inr (s\<lparr>sys_lock := l\<rparr>))"

definition release_global :: "system \<Rightarrow> system" where
  "release_global s = s\<lparr>sys_lock := spinlock_release (sys_lock s)\<rparr>"

text \<open>A critical section around console output, the pattern most callers use.\<close>

definition locked :: "(system \<Rightarrow> system) \<Rightarrow> system \<Rightarrow> system exec" where
  "locked f s = bind_exec (acquire_global s) (\<lambda>s. Inr (release_global (f s)))"

lemma locked_free:
  "sys_lock s = 0 \<Longrightarrow> locked f s = Inr (release_global (f (s\<lparr>sys_lock := 1\<rparr>)))"
  by (simp add: locked_def acquire_global_def spinlock_acquire_def)

section \<open>Well-formed states\<close>

definition sys_ok :: "system \<Rightarrow> bool" where
  [inv_defs]: "sys_ok s \<longleftrightarrow> length (sys_mailboxes s) = 4 \<and>
     (\<forall>mb \<in> set (sys_mailboxes s). length (mb_tag mb) = 32) \<and>
     length (sys_key s) = 32 \<and> rb_ok (sys_ring s)"

lemma sys_ok_con [simp]:
  "sys_ok (con_putc c s) = sys_ok s" "sys_ok (con_puts t s) = sys_ok s"
  "sys_ok (con_puthex v s) = sys_ok s"
  by (simp_all add: sys_ok_def)

lemma sys_ok_log [simp]: "sys_ok (log_text str s) = sys_ok s"
  by (simp add: sys_ok_def)

lemma sys_ok_lock [simp]: "sys_ok (s\<lparr>sys_lock := l\<rparr>) = sys_ok s"
  by (simp add: sys_ok_def)

lemma sys_ok_release [simp]: "sys_ok (release_global s) = sys_ok s"
  by (simp add: release_global_def)

text \<open>The global lock as a lock: there is no handle, and a locked section is a critical section.\<close>

interpretation glb: critical_section "\<lambda>s. bind_exec (acquire_global s) (\<lambda>s. Inr ((), s))" "\<lambda>_. release_global"
  "\<lambda>s. sys_lock s = 0" "\<lambda>_ s. sys_ok s \<and> sys_lock s = 1" sys_ok
  by unfold_locales (auto simp: acquire_global_def release_global_def spinlock_acquire_def spinlock_release_def)

lemma locked_section:
  "locked f s = bind_exec (under (\<lambda>s. bind_exec (acquire_global s) (\<lambda>s. Inr ((), s))) (\<lambda>_. release_global)
     (\<lambda>_ s. Inr ((), (), f s)) s) (\<lambda>(_, s). Inr s)"
  by (cases "acquire_global s") (simp_all add: locked_def under_def)

lemma locked_spins: "sys_ok s \<Longrightarrow> sys_lock s \<noteq> 0 \<Longrightarrow> locked f s = Inl Spinning"
  by (simp add: locked_section glb.section_spins)

end
