(* ===== verification/Slot_Channel.thy ===== *)
theory Slot_Channel
  imports Prelude "HOL-Library.Multiset"
begin

text \<open>
  The interface of a mailbox as its users see it: a channel with one place.  A message can be
  put in unless one is waiting, a waiting message is taken out once, and the place can be
  cleared at any time, also while a message is waiting, which loses it.  The client lemmas say
  what becomes of every accepted message; \<^verbatim>\<open>include/ipc/ipc.c\<close> interprets the locale in its
  own theory.
\<close>

section \<open>Operations and the abstract slot\<close>

datatype 'i chan_op = Send 'i | Recv | Clear

datatype 'm slot = Empty | Ready 'm | Taken

primrec pending :: "'m slot \<Rightarrow> 'm list" where
  "pending Empty = []"
| "pending (Ready m) = [m]"
| "pending Taken = []"

definition slot_send :: "('i \<Rightarrow> 'm) \<Rightarrow> 'i \<Rightarrow> 'm slot \<Rightarrow> (int \<times> 'm slot) exec" where
  "slot_send deliver i s = Inr (case s of Ready m \<Rightarrow> (-1, s) | _ \<Rightarrow> (0, Ready (deliver i)))"

definition slot_recv :: "'m \<Rightarrow> 'm slot \<Rightarrow> (int \<times> 'm \<times> 'm slot) exec" where
  "slot_recv c s = Inr (case s of Ready m \<Rightarrow> (1, m, Taken) | _ \<Rightarrow> (0, c, s))"

definition slot_clear :: "'m slot \<Rightarrow> 'm slot exec" where
  "slot_clear s = Inr Empty"

lemma slot_op_simps [simp]:
  "slot_send deliver i Empty = Inr (0, Ready (deliver i))"
  "slot_send deliver i Taken = Inr (0, Ready (deliver i))"
  "slot_send deliver i (Ready m) = Inr (-1, Ready m)"
  "slot_recv c Empty = Inr (0, c, Empty)"
  "slot_recv c Taken = Inr (0, c, Taken)"
  "slot_recv c (Ready m) = Inr (1, m, Taken)"
  "slot_clear Empty = Inr Empty"
  "slot_clear Taken = Inr Empty"
  "slot_clear (Ready m) = Inr Empty"
  by (simp_all add: slot_send_def slot_recv_def slot_clear_def)

text \<open>
  A run: the accepted inputs, the received messages, the last value of the out parameters,
  and the final state.
\<close>

fun chan_run ::
  "('i \<Rightarrow> 's \<Rightarrow> (int \<times> 's) exec) \<Rightarrow> ('m \<Rightarrow> 's \<Rightarrow> (int \<times> 'm \<times> 's) exec) \<Rightarrow> ('s \<Rightarrow> 's exec) \<Rightarrow>
   'i chan_op list \<Rightarrow> 'm \<Rightarrow> 's \<Rightarrow> ('i list \<times> 'm list \<times> 'm \<times> 's) exec" where
  "chan_run send recv clear [] c s = Inr ([], [], c, s)"
| "chan_run send recv clear (Send i # ops) c s =
     bind_exec (send i s) (\<lambda>(r, s1).
     bind_exec (chan_run send recv clear ops c s1) (\<lambda>(acc, rcv, c', s').
       Inr (if r = 0 then i # acc else acc, rcv, c', s')))"
| "chan_run send recv clear (Recv # ops) c s =
     bind_exec (recv c s) (\<lambda>(r, c1, s1).
     bind_exec (chan_run send recv clear ops c1 s1) (\<lambda>(acc, rcv, c', s').
       Inr (acc, if r = 1 then c1 # rcv else rcv, c', s')))"
| "chan_run send recv clear (Clear # ops) c s =
     bind_exec (clear s) (chan_run send recv clear ops c)"

text \<open>The messages a run clears away before anyone received them.\<close>

fun slot_lost :: "('i \<Rightarrow> 'm) \<Rightarrow> 'i chan_op list \<Rightarrow> 'm slot \<Rightarrow> 'm list" where
  "slot_lost deliver [] s = []"
| "slot_lost deliver (Send i # ops) s =
     slot_lost deliver ops (case s of Ready m \<Rightarrow> s | _ \<Rightarrow> Ready (deliver i))"
| "slot_lost deliver (Recv # ops) s =
     slot_lost deliver ops (case s of Ready m \<Rightarrow> Taken | _ \<Rightarrow> s)"
| "slot_lost deliver (Clear # ops) s = pending s @ slot_lost deliver ops Empty"

text \<open>A run that clears only right after it received (or cleared): the argument says whether it did.\<close>

fun clears_after_recv :: "bool \<Rightarrow> 'i chan_op list \<Rightarrow> bool" where
  "clears_after_recv b [] = True"
| "clears_after_recv b (Send i # ops) = clears_after_recv False ops"
| "clears_after_recv b (Recv # ops) = clears_after_recv True ops"
| "clears_after_recv b (Clear # ops) \<longleftrightarrow> b \<and> clears_after_recv True ops"

lemma no_loss:
  "clears_after_recv b ops \<Longrightarrow> b \<longrightarrow> pending s = [] \<Longrightarrow> slot_lost deliver ops s = []"
  by (induction b ops arbitrary: s rule: clears_after_recv.induct) (auto split: slot.split)

section \<open>The interface\<close>

locale slot_channel =
  fixes send :: "'i \<Rightarrow> 's \<Rightarrow> (int \<times> 's) exec"
    and recv :: "'m \<Rightarrow> 's \<Rightarrow> (int \<times> 'm \<times> 's) exec"
    and clear :: "'s \<Rightarrow> 's exec"
    and deliver :: "'i \<Rightarrow> 'm"
    and slot :: "'s \<Rightarrow> 'm slot"
    and valid :: "'s \<Rightarrow> bool"
  assumes send_full: "valid s \<Longrightarrow> slot s = Ready m \<Longrightarrow> send i s = Inr (-1, s)"
    and send_room: "valid s \<Longrightarrow> pending (slot s) = [] \<Longrightarrow>
      \<exists>s'. send i s = Inr (0, s') \<and> valid s' \<and> slot s' = Ready (deliver i)"
    and recv_some: "valid s \<Longrightarrow> slot s = Ready m \<Longrightarrow>
      \<exists>s'. recv c s = Inr (1, m, s') \<and> valid s' \<and> slot s' = Taken"
    and recv_none: "valid s \<Longrightarrow> pending (slot s) = [] \<Longrightarrow> recv c s = Inr (0, c, s)"
    and clear_slot: "valid s \<Longrightarrow> \<exists>s'. clear s = Inr s' \<and> valid s' \<and> slot s' = Empty"
begin

lemma run_refines:
  assumes "valid s"
  shows "\<exists>acc rcv c' s'. chan_run send recv clear ops c s = Inr (acc, rcv, c', s') \<and> valid s' \<and>
    chan_run (slot_send deliver) slot_recv slot_clear ops c (slot s) = Inr (acc, rcv, c', slot s')"
  using assms
proof (induction ops arbitrary: c s)
  case Nil
  then show ?case by simp
next
  case (Cons op ops)
  show ?case
  proof (cases op)
    case [simp]: (Send i)
    show ?thesis
    proof (cases "pending (slot s) = []")
      case True
      with Cons.prems obtain s1 where s1: "send i s = Inr (0, s1)" "valid s1" "slot s1 = Ready (deliver i)"
        using send_room by blast
      from Cons.IH [OF s1(2), of c] s1 True show ?thesis
        by (cases "slot s") auto
    next
      case False
      then obtain m where m: "slot s = Ready m" by (cases "slot s") auto
      from Cons.IH [OF Cons.prems, of c] send_full [OF Cons.prems m, of i] m show ?thesis
        by auto
    qed
  next
    case [simp]: Recv
    show ?thesis
    proof (cases "pending (slot s) = []")
      case True
      from Cons.IH [OF Cons.prems, of c] recv_none [OF Cons.prems True, of c] True show ?thesis
        by (cases "slot s") auto
    next
      case False
      then obtain m where m: "slot s = Ready m" by (cases "slot s") auto
      with Cons.prems obtain s1 where s1: "recv c s = Inr (1, m, s1)" "valid s1" "slot s1 = Taken"
        using recv_some by blast
      from Cons.IH [OF s1(2), of m] s1 m show ?thesis by auto
    qed
  next
    case [simp]: Clear
    from Cons.prems obtain s1 where s1: "clear s = Inr s1" "valid s1" "slot s1 = Empty"
      using clear_slot by blast
    from Cons.IH [OF s1(2), of c] s1 show ?thesis by (cases "slot s") auto
  qed
qed

end

section \<open>What becomes of the messages\<close>

text \<open>In any run of the abstract slot, in order, when nothing is cleared away too early.\<close>

lemma slot_run_fifo:
  assumes "chan_run (slot_send deliver) slot_recv slot_clear ops c s = Inr (acc, rcv, c', s')"
    and "slot_lost deliver ops s = []"
  shows "pending s @ map deliver acc = rcv @ pending s'"
  using assms
proof (induction ops arbitrary: c s acc rcv)
  case Nil
  then show ?case by simp
next
  case (Cons op ops)
  then show ?case
    by (cases op; cases s)
      (auto simp: bind_exec_Inr_iff dest!: Cons.IH)
qed

lemma slot_run_conserves:
  assumes "chan_run (slot_send deliver) slot_recv slot_clear ops c s = Inr (acc, rcv, c', s')"
  shows "mset (pending s) + mset (map deliver acc) =
    mset rcv + mset (slot_lost deliver ops s) + mset (pending s')"
  using assms
proof (induction ops arbitrary: c s acc rcv)
  case Nil
  then show ?case by simp
next
  case (Cons op ops)
  then show ?case
    by (cases op; cases s)
      (auto simp: bind_exec_Inr_iff dest!: Cons.IH)
qed

context slot_channel
begin

lemma run_conserves:
  assumes "valid s" and "chan_run send recv clear ops c s = Inr (acc, rcv, c', s')"
  shows "mset (pending (slot s)) + mset (map deliver acc) =
    mset rcv + mset (slot_lost deliver ops (slot s)) + mset (pending (slot s'))"
  using run_refines [OF assms(1), of ops c] assms(2) slot_run_conserves by fastforce

lemma run_exactly_once:
  assumes "valid s" and "chan_run send recv clear ops c s = Inr (acc, rcv, c', s')"
    and "clears_after_recv (pending (slot s) = []) ops"
  shows "pending (slot s) @ map deliver acc = rcv @ pending (slot s')"
  using run_refines [OF assms(1), of ops c] assms(2)
  by (auto intro: slot_run_fifo no_loss [OF assms(3)])

text \<open>
  A message accepted between a reception and the clearing that belongs to it is lost: nothing
  is left to receive.
\<close>

lemma run_clear_race:
  assumes "valid s" and "slot s = Ready m"
  shows "\<exists>s'. chan_run send recv clear [Recv, Send i, Clear, Recv] c s = Inr ([i], [m], m, s') \<and>
    pending (slot s') = []"
proof -
  have "chan_run (slot_send deliver) slot_recv slot_clear [Recv, Send i, Clear, Recv] c (slot s) =
      Inr ([i], [m], m, Empty)"
    using assms(2) by simp
  with run_refines [OF assms(1), of "[Recv, Send i, Clear, Recv]" c] show ?thesis
    by fastforce
qed

end

end
