(* ===== verification/Mailbox.thy ===== *)
theory Mailbox
  imports System_State Slot_Channel
begin

text \<open>
  The mailboxes of \<^verbatim>\<open>include/ipc/ipc.c\<close>.  Each operation is one critical section under the
  mailbox's own spinlock; it is a function of the shared state that spins when that lock is
  taken and leaves the memory when the core number is not one of the four mailboxes.  The
  one-place channel is interpreted on these operations.
\<close>

section \<open>Operations\<close>

definition get_mailbox :: "int \<Rightarrow> system \<Rightarrow> mailbox exec" where
  "get_mailbox core_id s =
     (if 0 \<le> core_id \<and> nat core_id < length (sys_mailboxes s)
      then Inr (sys_mailboxes s ! nat core_id) else Inl OutOfBounds)"

definition set_mailbox :: "int \<Rightarrow> mailbox \<Rightarrow> system \<Rightarrow> system" where
  "set_mailbox core_id mb s = s\<lparr>sys_mailboxes := (sys_mailboxes s)[nat core_id := mb]\<rparr>"

definition mailbox_acquire :: "int \<Rightarrow> system \<Rightarrow> (mailbox \<times> system) exec" where
  "mailbox_acquire core_id s =
     bind_exec (get_mailbox core_id s) (\<lambda>mb.
     bind_exec (spinlock_acquire (mb_lock mb)) (\<lambda>l.
       Inr (mb\<lparr>mb_lock := l\<rparr>, set_mailbox core_id (mb\<lparr>mb_lock := l\<rparr>) s)))"

definition mailbox_release :: "int \<Rightarrow> mailbox \<Rightarrow> system \<Rightarrow> system" where
  "mailbox_release core_id mb s =
     set_mailbox core_id (mb\<lparr>mb_lock := spinlock_release (mb_lock mb)\<rparr>) s"

definition mailbox_init :: "int \<Rightarrow> system \<Rightarrow> system exec" where
  "mailbox_init core_id s =
     bind_exec (get_mailbox core_id s) (\<lambda>mb.
       Inr (set_mailbox core_id (mb\<lparr>mb_lock := 0, mb_msg_type := MSG_NONE, mb_msg_data := 0,
              mb_sender_id := 0xFF, mb_status := 0, mb_counter := 0\<rparr>) s))"

text \<open>\<open>mpidr\<close> is the value the sending core reads from \<^verbatim>\<open>mpidr_el1\<close>.\<close>

definition mailbox_send :: "u64 \<Rightarrow> int \<Rightarrow> int \<Rightarrow> u32 \<Rightarrow> system \<Rightarrow> (int \<times> system) exec" where
  "mailbox_send mpidr dest_core msg_type data s =
     bind_exec (mailbox_acquire dest_core s) (\<lambda>(mb, s).
       if mb_status mb = 1 then Inr (-1, mailbox_release dest_core mb s)
       else
         let sender = (ucast mpidr :: u32) AND 0xFF;
             mb = mb\<lparr>mb_sender_id := sender, mb_msg_type := of_int msg_type, mb_msg_data := data,
                     mb_counter := mb_counter mb + 1\<rparr>
         in bind_exec (hmac_tag_compute (sys_key s) mb (mb_tag mb)) (\<lambda>tag.
              Inr (0, mailbox_release dest_core (mb\<lparr>mb_tag := tag, mb_status := 1\<rparr>) s)))"

text \<open>The loop that folds tag bytes into a 64-bit number, shifting after every byte.\<close>

definition shared_key :: "u8 list \<Rightarrow> nat \<Rightarrow> nat \<Rightarrow> u64" where
  "shared_key tag from to =
     fold (\<lambda>i k. push_bit 8 (k OR ucast (tag ! i))) [from..<to] 0"

text \<open>
  \<^verbatim>\<open>mailbox_receive\<close>; the triple is the three out parameters, passed with their old values.
  The number printed second is \<^verbatim>\<open>shared_key1\<close> again, as in the code.
\<close>

definition mailbox_receive ::
  "int \<Rightarrow> u32 \<times> u32 \<times> u32 \<Rightarrow> system \<Rightarrow> (int \<times> (u32 \<times> u32 \<times> u32) \<times> system) exec" where
  "mailbox_receive core_id out s =
     bind_exec (mailbox_acquire core_id s) (\<lambda>(mb, s).
     bind_exec (if mb_status mb = 1 then hmac_tag_verify (sys_key s) mb else Inr 0) (\<lambda>verified.
       if mb_status mb = 1 \<and> verified \<noteq> 0 then
         let out = (mb_sender_id mb, mb_msg_type mb, mb_msg_data mb);
             mb = mb\<lparr>mb_status := 2\<rparr>;
             s = con_puts (''[CRYPTO] HMAC pass with key'' @ [newline]) s;
             shared_key1 = shared_key (mb_tag mb) 0 16;
             s = con_putc newline (con_puthex shared_key1 s);
             shared_key2 = shared_key (mb_tag mb) 16 32;
             s = con_putc newline (con_puthex shared_key1 s)
         in Inr (1, out, mailbox_release core_id mb s)
       else if mb_status mb = 1 then
         let s = con_puts (''[CRYPTO] HMAC verify FAILED - message rejected'' @ [newline]) s
         in Inr (0, out, mailbox_release core_id (mb\<lparr>mb_status := 2\<rparr>) s)
       else Inr (0, out, mailbox_release core_id mb s)))"

definition mailbox_clear :: "int \<Rightarrow> system \<Rightarrow> system exec" where
  "mailbox_clear core_id s =
     bind_exec (mailbox_acquire core_id s) (\<lambda>(mb, s).
       Inr (mailbox_release core_id (mb\<lparr>mb_status := 0, mb_msg_type := MSG_NONE\<rparr>) s))"

section \<open>States between the operations\<close>

definition core_ok :: "int \<Rightarrow> bool" where
  "core_ok c \<longleftrightarrow> 0 \<le> c \<and> c < 4"

abbreviation mbox :: "int \<Rightarrow> system \<Rightarrow> mailbox" where
  "mbox c s \<equiv> sys_mailboxes s ! nat c"

definition free_mailbox :: "int \<Rightarrow> system \<Rightarrow> bool" where
  [inv_defs]: "free_mailbox c s \<longleftrightarrow> sys_ok s \<and> core_ok c \<and> mb_lock (mbox c s) = 0"

lemma free_mailboxD:
  assumes "free_mailbox c s"
  shows "0 \<le> c" "nat c < length (sys_mailboxes s)" "length (mb_tag (mbox c s)) = 32"
    "length (sys_key s) = 32" "mb_lock (mbox c s) = 0" "sys_ok s" "length (sys_mailboxes s) = 4"
proof -
  have len: "0 \<le> c" "c < 4" "length (sys_mailboxes s) = 4"
    using assms by (auto simp: free_mailbox_def core_ok_def sys_ok_def)
  then have "mbox c s \<in> set (sys_mailboxes s)" by (intro nth_mem) linarith
  with assms len show "0 \<le> c" "nat c < length (sys_mailboxes s)" "length (mb_tag (mbox c s)) = 32"
    "length (sys_key s) = 32" "mb_lock (mbox c s) = 0" "sys_ok s" "length (sys_mailboxes s) = 4"
    by (auto simp: free_mailbox_def sys_ok_def)
qed

lemma set_mailbox_simps [simp]:
  "sys_lock (set_mailbox c mb s) = sys_lock s" "sys_ring (set_mailbox c mb s) = sys_ring s"
  "sys_key (set_mailbox c mb s) = sys_key s" "sys_console (set_mailbox c mb s) = sys_console s"
  "length (sys_mailboxes (set_mailbox c mb s)) = length (sys_mailboxes s)"
  "set_mailbox c mb (set_mailbox c mb' s) = set_mailbox c mb s"
  by (simp_all add: set_mailbox_def)

lemma set_mailbox_con [simp]:
  "con_putc x (set_mailbox c mb s) = set_mailbox c mb (con_putc x s)"
  "con_puts t (set_mailbox c mb s) = set_mailbox c mb (con_puts t s)"
  "con_puthex v (set_mailbox c mb s) = set_mailbox c mb (con_puthex v s)"
  "log_text t (set_mailbox c mb s) = set_mailbox c mb (log_text t s)"
  by (simp_all add: set_mailbox_def con_log log_text_def)

lemma mbox_set_mailbox [simp]:
  "nat c < length (sys_mailboxes s) \<Longrightarrow> mbox c (set_mailbox c mb s) = mb"
  by (simp add: set_mailbox_def)

lemma set_mailbox_same: "mbox c s = mb \<Longrightarrow> set_mailbox c mb s = s"
  by (auto simp: set_mailbox_def)

lemma mbox_set_mailbox_other:
  "c \<noteq> d \<Longrightarrow> 0 \<le> c \<Longrightarrow> 0 \<le> d \<Longrightarrow> mbox d (set_mailbox c mb s) = mbox d s"
  by (simp add: set_mailbox_def eq_nat_nat_iff)

lemma sys_ok_set_mailbox:
  "sys_ok s \<Longrightarrow> length (mb_tag mb) = 32 \<Longrightarrow> sys_ok (set_mailbox c mb s)"
  using set_update_subset_insert [of "sys_mailboxes s" "nat c" mb]
  by (fastforce simp: sys_ok_def set_mailbox_def)

lemma free_set_mailbox:
  "free_mailbox c s \<Longrightarrow> length (mb_tag mb) = 32 \<Longrightarrow> mb_lock mb = 0 \<Longrightarrow>
    free_mailbox c (set_mailbox c mb s)"
  using free_mailboxD(2) [of c s] by (simp add: free_mailbox_def sys_ok_set_mailbox)

lemma free_con [simp]:
  "free_mailbox c (con_putc x s) = free_mailbox c s"
  "free_mailbox c (con_puts t s) = free_mailbox c s"
  "free_mailbox c (con_puthex v s) = free_mailbox c s"
  by (simp_all add: free_mailbox_def)

lemma acquire_free:
  "free_mailbox c s \<Longrightarrow> mailbox_acquire c s =
     Inr ((mbox c s)\<lparr>mb_lock := 1\<rparr>, set_mailbox c ((mbox c s)\<lparr>mb_lock := 1\<rparr>) s)"
  using free_mailboxD(1,2,5) [of c s]
  by (simp add: mailbox_acquire_def get_mailbox_def spinlock_acquire_def)

section \<open>The operations on a free mailbox\<close>

definition sent_mailbox :: "u8 list \<Rightarrow> u64 \<Rightarrow> int \<Rightarrow> u32 \<Rightarrow> mailbox \<Rightarrow> mailbox" where
  "sent_mailbox key mpidr ty d mb =
     (let mb = mb\<lparr>mb_sender_id := ucast mpidr AND 0xFF, mb_msg_type := of_int ty, mb_msg_data := d,
                  mb_counter := mb_counter mb + 1\<rparr>
      in mb\<lparr>mb_tag := hmac sha256 64 key (mailbox_message mb), mb_status := 1\<rparr>)"

definition authentic :: "u8 list \<Rightarrow> mailbox \<Rightarrow> bool" where
  "authentic key mb \<longleftrightarrow> mb_tag mb = hmac sha256 64 key (mailbox_message mb)"

text \<open>What a successful reception prints.\<close>

definition receive_log :: "u8 list \<Rightarrow> string" where
  "receive_log tag = puts_text (''[CRYPTO] HMAC pass with key'' @ [newline]) @
     puthex_text (shared_key tag 0 16) @ [newline] @ puthex_text (shared_key tag 0 16) @ [newline]"

definition reject_log :: string where
  "reject_log = puts_text (''[CRYPTO] HMAC verify FAILED - message rejected'' @ [newline])"

lemma free_log [simp]: "free_mailbox c (log_text str s) = free_mailbox c s"
  by (simp add: free_mailbox_def)

lemma unlock_simps:
  "mb_lock mb = 0 \<Longrightarrow> mb\<lparr>mb_lock := 0\<rparr> = mb"
  "mb_lock mb = 0 \<Longrightarrow> mb\<lparr>mb_status := st, mb_lock := 0\<rparr> = mb\<lparr>mb_status := st\<rparr>"
  "mb_lock mb = 0 \<Longrightarrow> mb\<lparr>mb_status := st, mb_msg_type := ty, mb_lock := 0\<rparr> =
     mb\<lparr>mb_status := st, mb_msg_type := ty\<rparr>"
  by (cases mb; simp)+

lemma mailbox_message_frame [simp]:
  "mailbox_message (mb\<lparr>mb_lock := l\<rparr>) = mailbox_message mb"
  "mailbox_message (mb\<lparr>mb_status := st\<rparr>) = mailbox_message mb"
  "mailbox_message (mb\<lparr>mb_tag := t\<rparr>) = mailbox_message mb"
  by (simp_all add: mailbox_message_def)

lemma sent_mailbox_simps [simp]:
  "mb_lock (sent_mailbox key mpidr ty d mb) = mb_lock mb"
  "mb_status (sent_mailbox key mpidr ty d mb) = 1"
  "length (mb_tag (sent_mailbox key mpidr ty d mb)) = 32"
  "authentic key (sent_mailbox key mpidr ty d mb)"
  "mb_sender_id (sent_mailbox key mpidr ty d mb) = ucast mpidr AND 0xFF"
  "mb_msg_type (sent_mailbox key mpidr ty d mb) = of_int ty"
  "mb_msg_data (sent_mailbox key mpidr ty d mb) = d"
  "mb_counter (sent_mailbox key mpidr ty d mb) = mb_counter mb + 1"
  by (simp_all add: sent_mailbox_def authentic_def Let_def)

lemma mailbox_send_eq:
  assumes "free_mailbox c s"
  shows "mailbox_send mpidr c ty d s =
    Inr (if mb_status (mbox c s) = 1 then (-1, s)
         else (0, set_mailbox c (sent_mailbox (sys_key s) mpidr ty d (mbox c s)) s))"
proof -
  note free = free_mailboxD [OF assms]
  obtain mb where mb: "mbox c s = mb" by blast
  show ?thesis
  proof (cases "mb_status mb = 1")
    case True
    with free mb acquire_free [OF assms] show ?thesis
      by (simp add: mailbox_send_def mailbox_release_def spinlock_release_def unlock_simps
          set_mailbox_same)
  next
    case False
    let ?mb = "mb\<lparr>mb_lock := 1, mb_sender_id := ucast mpidr AND 0xFF, mb_msg_type := of_int ty,
      mb_msg_data := d, mb_counter := mb_counter mb + 1\<rparr>"
    have "hmac_tag_compute (sys_key s) ?mb (mb_tag ?mb) =
        Inr (hmac sha256 64 (sys_key s) (mailbox_message ?mb))"
      using free mb by (intro hmac_tag_compute_eq) simp_all
    moreover have "?mb\<lparr>mb_tag := hmac sha256 64 (sys_key s) (mailbox_message ?mb),
        mb_status := 1, mb_lock := 0\<rparr> = sent_mailbox (sys_key s) mpidr ty d mb"
      using free(5) mb by (cases mb) (simp add: sent_mailbox_def mailbox_message_def Let_def)
    ultimately show ?thesis
      using False mb acquire_free [OF assms]
      by (simp add: mailbox_send_def mailbox_release_def spinlock_release_def Let_def)
  qed
qed

lemma mailbox_receive_eq:
  assumes "free_mailbox c s"
  shows "mailbox_receive c out s =
    Inr (if mb_status (mbox c s) = 1 then
           if authentic (sys_key s) (mbox c s) then
             (1, (mb_sender_id (mbox c s), mb_msg_type (mbox c s), mb_msg_data (mbox c s)),
              set_mailbox c ((mbox c s)\<lparr>mb_status := 2\<rparr>)
                (log_text (receive_log (mb_tag (mbox c s))) s))
           else (0, out, set_mailbox c ((mbox c s)\<lparr>mb_status := 2\<rparr>) (log_text reject_log s))
         else (0, out, s))"
proof -
  note free = free_mailboxD [OF assms]
  obtain mb where mb: "mbox c s = mb" by blast
  have verify: "hmac_tag_verify (sys_key s) (mb\<lparr>mb_lock := 1\<rparr>) =
      Inr (if authentic (sys_key s) mb then 1 else 0)"
    using free mb by (simp add: hmac_tag_verify_eq authentic_def)
  show ?thesis
    using verify mb free(5) acquire_free [OF assms]
    by (simp add: mailbox_receive_def mailbox_release_def spinlock_release_def Let_def unlock_simps
        con_log set_mailbox_same receive_log_def reject_log_def)
qed

lemma mailbox_clear_eq:
  assumes "free_mailbox c s"
  shows "mailbox_clear c s =
    Inr (set_mailbox c ((mbox c s)\<lparr>mb_status := 0, mb_msg_type := MSG_NONE\<rparr>) s)"
  using free_mailboxD(5) [OF assms] acquire_free [OF assms]
  by (simp add: mailbox_clear_def mailbox_release_def spinlock_release_def unlock_simps)

section \<open>Each operation is a critical section\<close>

text \<open>The handle is the mailbox the code has a pointer to; holding the lock, only its owner changes it.\<close>

definition holds_mailbox :: "int \<Rightarrow> mailbox \<Rightarrow> system \<Rightarrow> bool" where
  "holds_mailbox c mb s \<longleftrightarrow> sys_ok s \<and> core_ok c \<and> mb_lock (mbox c s) = 1 \<and> length (mb_tag mb) = 32"

interpretation mlk: critical_section "mailbox_acquire c" "mailbox_release c" "\<lambda>s. mb_lock (mbox c s) = 0" "holds_mailbox c"
  "\<lambda>s. sys_ok s \<and> core_ok c" for c :: int
proof unfold_locales
  fix s assume s: "sys_ok s \<and> core_ok c" "mb_lock (mbox c s) = 0"
  then have free: "free_mailbox c s" by (simp add: free_mailbox_def)
  note f = free_mailboxD [OF free]
  have "holds_mailbox c ((mbox c s)\<lparr>mb_lock := 1\<rparr>) (set_mailbox c ((mbox c s)\<lparr>mb_lock := 1\<rparr>) s)"
    using s f by (simp add: holds_mailbox_def sys_ok_set_mailbox mbox_set_mailbox)
  with acquire_free [OF free] show "\<exists>mb t. mailbox_acquire c s = Inr (mb, t) \<and> holds_mailbox c mb t" by blast
next
  fix s assume s: "sys_ok s \<and> core_ok c" "mb_lock (mbox c s) \<noteq> 0"
  then have "0 \<le> c" "nat c < length (sys_mailboxes s)" by (auto simp: sys_ok_def core_ok_def)
  with s show "mailbox_acquire c s = Inl Spinning"
    by (simp add: mailbox_acquire_def get_mailbox_def spinlock_acquire_def)
next
  fix mb t assume h: "holds_mailbox c mb t"
  then have "0 \<le> c" "nat c < length (sys_mailboxes t)" by (auto simp: holds_mailbox_def sys_ok_def core_ok_def)
  with h show "(sys_ok (mailbox_release c mb t) \<and> core_ok c) \<and> mb_lock (mbox c (mailbox_release c mb t)) = 0"
    by (simp add: holds_mailbox_def mailbox_release_def spinlock_release_def sys_ok_set_mailbox mbox_set_mailbox)
qed (simp add: holds_mailbox_def)

definition send_section :: "u64 \<Rightarrow> int \<Rightarrow> u32 \<Rightarrow> mailbox \<Rightarrow> system \<Rightarrow> (int \<times> mailbox \<times> system) exec" where
  "send_section mpidr ty d mb s =
     (if mb_status mb = 1 then Inr (-1, mb, s)
      else
        let mb = mb\<lparr>mb_sender_id := ucast mpidr AND 0xFF, mb_msg_type := of_int ty, mb_msg_data := d,
                    mb_counter := mb_counter mb + 1\<rparr>
        in bind_exec (hmac_tag_compute (sys_key s) mb (mb_tag mb)) (\<lambda>tag.
             Inr (0, mb\<lparr>mb_tag := tag, mb_status := 1\<rparr>, s)))"

definition clear_section :: "mailbox \<Rightarrow> system \<Rightarrow> (unit \<times> mailbox \<times> system) exec" where
  "clear_section mb s = Inr ((), mb\<lparr>mb_status := 0, mb_msg_type := MSG_NONE\<rparr>, s)"

lemma mailbox_sections:
  "mailbox_send mpidr c ty d s = under (mailbox_acquire c) (mailbox_release c) (send_section mpidr ty d) s"
  "mailbox_clear c s = bind_exec (under (mailbox_acquire c) (mailbox_release c) clear_section s) (\<lambda>(_, s). Inr s)"
  unfolding under_def mailbox_send_def mailbox_clear_def send_section_def clear_section_def
  by (cases "mailbox_acquire c s"; auto simp: Let_def bind_exec_assoc)+

text \<open>While the lock is taken, whoever has it, all three operations spin.\<close>

lemma mailbox_busy:
  assumes "sys_ok s" and "core_ok c" and "mb_lock (mbox c s) \<noteq> 0"
  shows "mailbox_send mpidr c ty d s = Inl Spinning" "mailbox_receive c out s = Inl Spinning" "mailbox_clear c s = Inl Spinning"
proof -
  have valid: "sys_ok s \<and> core_ok c" using assms by simp
  show "mailbox_send mpidr c ty d s = Inl Spinning" "mailbox_clear c s = Inl Spinning"
    unfolding mailbox_sections by (simp_all add: mlk.section_spins [OF valid assms(3)])
  show "mailbox_receive c out s = Inl Spinning"
    by (simp add: mailbox_receive_def mlk.acquire_taken [OF valid assms(3)])
qed

text \<open>When it is free they return and free it again, whatever the mailbox holds, a forged tag included.\<close>

lemma mailbox_returns:
  assumes ok: "sys_ok s" "core_ok c" and free: "mb_lock (mbox c s) = 0"
  shows "\<exists>r t. mailbox_send mpidr c ty d s = Inr (r, t) \<and> sys_ok t \<and> mb_lock (mbox c t) = 0"
    "\<exists>r out' t. mailbox_receive c out s = Inr (r, out', t) \<and> sys_ok t \<and> mb_lock (mbox c t) = 0"
    "\<exists>t. mailbox_clear c s = Inr t \<and> sys_ok t \<and> mb_lock (mbox c t) = 0"
proof -
  have valid: "sys_ok s \<and> core_ok c" using ok by simp
  have key: "length (sys_key t) = 32" if "sys_ok t" for t using that by (simp add: sys_ok_def)
  have "\<exists>r t. under (mailbox_acquire c) (mailbox_release c) (send_section mpidr ty d) s = Inr (r, t) \<and>
      (sys_ok t \<and> core_ok c) \<and> mb_lock (mbox c t) = 0"
    by (rule mlk.section_returns [OF valid free])
      (auto simp: send_section_def holds_mailbox_def hmac_tag_compute_eq key Let_def)
  then show "\<exists>r t. mailbox_send mpidr c ty d s = Inr (r, t) \<and> sys_ok t \<and> mb_lock (mbox c t) = 0"
    unfolding mailbox_sections by blast
  have "\<exists>r t. under (mailbox_acquire c) (mailbox_release c) clear_section s = Inr (r, t) \<and>
      (sys_ok t \<and> core_ok c) \<and> mb_lock (mbox c t) = 0"
    by (rule mlk.section_returns [OF valid free]) (simp add: clear_section_def holds_mailbox_def)
  then show "\<exists>t. mailbox_clear c s = Inr t \<and> sys_ok t \<and> mb_lock (mbox c t) = 0"
    unfolding mailbox_sections by auto
  have "free_mailbox c s" using ok free by (simp add: free_mailbox_def)
  note eq = mailbox_receive_eq [OF this, of out] and f = free_mailboxD [OF this]
  show "\<exists>r out' t. mailbox_receive c out s = Inr (r, out', t) \<and> sys_ok t \<and> mb_lock (mbox c t) = 0"
    unfolding eq using f free by (cases out) (auto simp: sys_ok_set_mailbox mbox_set_mailbox)
qed

section \<open>Each mailbox is a one-place channel\<close>

text \<open>What a caller passes in, and what a receiver reads.\<close>

type_synonym message_in = "u64 \<times> int \<times> u32"
type_synonym message_out = "u32 \<times> u32 \<times> u32"

definition send_to :: "int \<Rightarrow> message_in \<Rightarrow> system \<Rightarrow> (int \<times> system) exec" where
  "send_to c = (\<lambda>(mpidr, ty, d). mailbox_send mpidr c ty d)"

definition delivered :: "message_in \<Rightarrow> message_out" where
  "delivered = (\<lambda>(mpidr, ty, d). (ucast mpidr AND 0xFF, of_int ty, d))"

definition mailbox_slot :: "int \<Rightarrow> system \<Rightarrow> message_out slot" where
  "mailbox_slot c s = (let mb = mbox c s in
     if mb_status mb = 1 then Ready (mb_sender_id mb, mb_msg_type mb, mb_msg_data mb)
     else if mb_status mb = 0 then Empty else Taken)"

definition mailbox_valid :: "int \<Rightarrow> system \<Rightarrow> bool" where
  [inv_defs]: "mailbox_valid c s \<longleftrightarrow> free_mailbox c s \<and>
     (mb_status (mbox c s) = 1 \<longrightarrow> authentic (sys_key s) (mbox c s))"

lemma slot_Ready_iff:
  "mailbox_slot c s = Ready m \<longleftrightarrow> mb_status (mbox c s) = 1 \<and>
     m = (mb_sender_id (mbox c s), mb_msg_type (mbox c s), mb_msg_data (mbox c s))"
  by (auto simp: mailbox_slot_def Let_def)

lemma slot_pending_iff: "pending (mailbox_slot c s) = [] \<longleftrightarrow> mb_status (mbox c s) \<noteq> 1"
  by (simp add: mailbox_slot_def Let_def)

lemma slot_set_mailbox:
  "nat c < length (sys_mailboxes s) \<Longrightarrow> mailbox_slot c (set_mailbox c mb s) =
    (if mb_status mb = 1 then Ready (mb_sender_id mb, mb_msg_type mb, mb_msg_data mb)
     else if mb_status mb = 0 then Empty else Taken)"
  by (simp add: mailbox_slot_def Let_def)

lemma valid_set_mailbox:
  assumes "free_mailbox c s" and "length (mb_tag mb) = 32" and "mb_lock mb = 0"
    and "mb_status mb = 1 \<longrightarrow> authentic (sys_key s) mb"
  shows "mailbox_valid c (set_mailbox c mb s)"
  using assms free_mailboxD(2) [OF assms(1)] by (simp add: mailbox_valid_def free_set_mailbox)

lemma send_into_room:
  assumes valid: "mailbox_valid c s" and room: "pending (mailbox_slot c s) = []"
  shows "\<exists>s'. send_to c i s = Inr (0, s') \<and> mailbox_valid c s' \<and> mailbox_slot c s' = Ready (delivered i)"
proof -
  obtain mpidr ty d where i: "i = (mpidr, ty, d)" by (cases i)
  let ?mb = "sent_mailbox (sys_key s) mpidr ty d (mbox c s)"
  have free: "free_mailbox c s" using valid by (simp add: mailbox_valid_def)
  note f = free_mailboxD [OF free]
  have "send_to c i s = Inr (0, set_mailbox c ?mb s)"
    using room by (simp add: i send_to_def mailbox_send_eq [OF free] slot_pending_iff)
  moreover have "mailbox_valid c (set_mailbox c ?mb s)"
    using f by (intro valid_set_mailbox [OF free]) simp_all
  moreover have "mailbox_slot c (set_mailbox c ?mb s) = Ready (delivered i)"
    using f by (simp add: slot_set_mailbox delivered_def i)
  ultimately show ?thesis by blast
qed

lemma receive_ready:
  assumes valid: "mailbox_valid c s" and full: "mailbox_slot c s = Ready m"
  shows "\<exists>s'. mailbox_receive c out s = Inr (1, m, s') \<and> mailbox_valid c s' \<and> mailbox_slot c s' = Taken"
proof -
  let ?s = "log_text (receive_log (mb_tag (mbox c s))) s"
  let ?mb = "(mbox c s)\<lparr>mb_status := 2\<rparr>"
  have free: "free_mailbox c s" using valid by (simp add: mailbox_valid_def)
  note f = free_mailboxD [OF free]
  have "mailbox_receive c out s = Inr (1, m, set_mailbox c ?mb ?s)"
    using full valid by (simp add: mailbox_receive_eq [OF free] slot_Ready_iff mailbox_valid_def)
  moreover have "mailbox_valid c (set_mailbox c ?mb ?s)"
    using f free by (intro valid_set_mailbox) simp_all
  moreover have "mailbox_slot c (set_mailbox c ?mb ?s) = Taken"
    using f by (simp add: slot_set_mailbox)
  ultimately show ?thesis by blast
qed

lemma clear_empties:
  assumes valid: "mailbox_valid c s"
  shows "\<exists>s'. mailbox_clear c s = Inr s' \<and> mailbox_valid c s' \<and> mailbox_slot c s' = Empty"
proof -
  let ?mb = "(mbox c s)\<lparr>mb_status := 0, mb_msg_type := MSG_NONE\<rparr>"
  have free: "free_mailbox c s" using valid by (simp add: mailbox_valid_def)
  note f = free_mailboxD [OF free]
  have "mailbox_clear c s = Inr (set_mailbox c ?mb s)"
    by (rule mailbox_clear_eq [OF free])
  moreover have "mailbox_valid c (set_mailbox c ?mb s)"
    using f by (intro valid_set_mailbox [OF free]) simp_all
  moreover have "mailbox_slot c (set_mailbox c ?mb s) = Empty"
    using f by (simp add: slot_set_mailbox)
  ultimately show ?thesis by blast
qed

interpretation mbx: slot_channel "send_to c" "mailbox_receive c" "mailbox_clear c" delivered
  "mailbox_slot c" "mailbox_valid c" for c :: int
proof
  fix s m i assume "mailbox_valid c s" "mailbox_slot c s = Ready m"
  then show "send_to c i s = Inr (-1, s)"
    by (cases i) (simp add: mailbox_valid_def slot_Ready_iff send_to_def mailbox_send_eq)
next
  fix s out assume "mailbox_valid c s" "pending (mailbox_slot c s) = []"
  then show "mailbox_receive c out s = Inr (0, out, s)"
    by (simp add: mailbox_valid_def slot_pending_iff mailbox_receive_eq)
qed (fact send_into_room receive_ready clear_empties)+

section \<open>All four mailboxes, any interleaving of critical sections\<close>

text \<open>The loop of \<^verbatim>\<open>main\<close> that initialises the mailboxes.\<close>

primrec init_mailboxes :: "int list \<Rightarrow> system \<Rightarrow> system exec" where
  "init_mailboxes [] s = Inr s"
| "init_mailboxes (i # is) s = bind_exec (mailbox_init i s) (init_mailboxes is)"

text \<open>
  The states reached from the initialised ones when any core calls any operation in any order;
  the counting function records the accepted messages of each mailbox.  The last rule lets the
  rest of the kernel change everything but the mailboxes and the key.
\<close>

inductive mail_reach :: "(int \<Rightarrow> nat) \<Rightarrow> system \<Rightarrow> bool" where
  boot: "sys_ok s \<Longrightarrow> init_mailboxes [0, 1, 2, 3] s = Inr s' \<Longrightarrow> mail_reach (\<lambda>c. 0) s'"
| send: "mail_reach n s \<Longrightarrow> core_ok c \<Longrightarrow> mailbox_send mpidr c ty d s = Inr (r, s') \<Longrightarrow>
    mail_reach (if r = 0 then n(c := Suc (n c)) else n) s'"
| recv: "mail_reach n s \<Longrightarrow> core_ok c \<Longrightarrow> mailbox_receive c out s = Inr (r, out', s') \<Longrightarrow>
    mail_reach n s'"
| clear: "mail_reach n s \<Longrightarrow> core_ok c \<Longrightarrow> mailbox_clear c s = Inr s' \<Longrightarrow> mail_reach n s'"
| other: "mail_reach n s \<Longrightarrow> sys_ok s' \<Longrightarrow> sys_mailboxes s' = sys_mailboxes s \<Longrightarrow>
    sys_key s' = sys_key s \<Longrightarrow> mail_reach n s'"

definition mail_inv :: "(int \<Rightarrow> nat) \<Rightarrow> system \<Rightarrow> bool" where
  [inv_defs]: "mail_inv n s \<longleftrightarrow> sys_ok s \<and>
     (\<forall>c. core_ok c \<longrightarrow> mailbox_valid c s \<and> mb_status (mbox c s) \<le> 2 \<and>
        mb_counter (mbox c s) = of_nat (n c))"

lemma mail_inv_update:
  assumes inv: "mail_inv n s" and c: "core_ok c"
    and mb: "length (mb_tag mb) = 32" "mb_lock mb = 0" "mb_status mb \<le> 2"
      "mb_status mb = 1 \<longrightarrow> authentic (sys_key s) mb" "mb_counter mb = of_nat k"
  shows "mail_inv (n(c := k)) (set_mailbox c mb (log_text t s))"
proof -
  let ?s = "set_mailbox c mb (log_text t s)"
  have free: "free_mailbox c (log_text t s)"
    using inv c by (simp add: mail_inv_def mailbox_valid_def)
  have ok: "sys_ok ?s"
    using free_mailboxD(6) [OF free] mb by (intro sys_ok_set_mailbox)
  have self: "mailbox_valid c ?s" "mbox c ?s = mb"
    using free free_mailboxD(2) [OF free] mb by (auto intro: valid_set_mailbox)
  have other: "mbox d ?s = mbox d s" if "core_ok d" "d \<noteq> c" for d
    using that c by (simp add: core_ok_def mbox_set_mailbox_other)
  then have "mailbox_valid d ?s" if "core_ok d" "d \<noteq> c" for d
    using that inv ok by (simp add: mail_inv_def mailbox_valid_def free_mailbox_def)
  with self other ok mb inv show ?thesis
    by (auto simp: mail_inv_def)
qed

lemma mail_inv_free: "mail_inv n s \<Longrightarrow> core_ok c \<Longrightarrow> free_mailbox c s"
  by (simp add: mail_inv_def mailbox_valid_def)

lemma log_Nil [simp]: "log_text [] s = s"
  by (simp add: log_text_def)

lemma mail_inv_send:
  assumes inv: "mail_inv n s" and c: "core_ok c" and step: "mailbox_send mpidr c ty d s = Inr (r, s')"
  shows "mail_inv (if r = 0 then n(c := Suc (n c)) else n) s'"
proof (cases "mb_status (mbox c s) = 1")
  case True
  with step inv mailbox_send_eq [OF mail_inv_free [OF inv c]] show ?thesis by auto
next
  case False
  let ?mb = "sent_mailbox (sys_key s) mpidr ty d (mbox c s)"
  have "mail_inv (n(c := Suc (n c))) (set_mailbox c ?mb (log_text [] s))"
    using inv c free_mailboxD(5) [OF mail_inv_free [OF inv c]]
    by (intro mail_inv_update) (simp_all add: mail_inv_def)
  with step False mailbox_send_eq [OF mail_inv_free [OF inv c]] show ?thesis by auto
qed

lemma mail_inv_receive:
  assumes inv: "mail_inv n s" and c: "core_ok c" and step: "mailbox_receive c out s = Inr (r, out', s')"
  shows "mail_inv n s'"
proof -
  let ?mb = "(mbox c s)\<lparr>mb_status := 2\<rparr>"
  note free = mail_inv_free [OF inv c]
  have "mail_inv (n(c := n c)) (set_mailbox c ?mb (log_text t s))" for t
    using inv c free_mailboxD(3,5) [OF free] by (intro mail_inv_update) (simp_all add: mail_inv_def)
  with step inv mailbox_receive_eq [OF free] show ?thesis by (auto split: if_splits)
qed

lemma mail_inv_clear:
  assumes inv: "mail_inv n s" and c: "core_ok c" and step: "mailbox_clear c s = Inr s'"
  shows "mail_inv n s'"
proof -
  let ?mb = "(mbox c s)\<lparr>mb_status := 0, mb_msg_type := MSG_NONE\<rparr>"
  note free = mail_inv_free [OF inv c]
  have "mail_inv (n(c := n c)) (set_mailbox c ?mb (log_text [] s))"
    using inv c free_mailboxD(3,5) [OF free] by (intro mail_inv_update) (simp_all add: mail_inv_def)
  with step mailbox_clear_eq [OF free] show ?thesis by auto
qed

definition cleared :: "mailbox \<Rightarrow> mailbox" where
  "cleared mb = mb\<lparr>mb_lock := 0, mb_msg_type := MSG_NONE, mb_msg_data := 0, mb_sender_id := 0xFF,
     mb_status := 0, mb_counter := 0\<rparr>"

lemma init_mailboxes_eq:
  assumes "length (sys_mailboxes s) = 4"
  shows "init_mailboxes [0, 1, 2, 3] s = Inr (s\<lparr>sys_mailboxes := map cleared (sys_mailboxes s)\<rparr>)"
proof -
  obtain a b c d where "sys_mailboxes s = [a, b, c, d]"
    using assms by (auto simp: length_Suc_conv eval_nat_numeral)
  then show ?thesis
    by (simp add: mailbox_init_def get_mailbox_def set_mailbox_def cleared_def eval_nat_numeral)
qed

lemma mail_inv_boot:
  assumes "sys_ok s" and "init_mailboxes [0, 1, 2, 3] s = Inr s'"
  shows "mail_inv (\<lambda>c. 0) s'"
proof -
  have s': "s' = s\<lparr>sys_mailboxes := map cleared (sys_mailboxes s)\<rparr>"
    using assms init_mailboxes_eq [of s] by (simp add: sys_ok_def)
  then have ok: "sys_ok s'"
    using assms(1) by (auto simp: sys_ok_def cleared_def)
  moreover have "mbox c s' = cleared (mbox c s)" if "core_ok c" for c
    using that assms(1) by (auto simp: s' core_ok_def sys_ok_def nat_less_iff)
  ultimately show ?thesis
    by (simp add: mail_inv_def mailbox_valid_def free_mailbox_def cleared_def)
qed

lemma mail_reach_inv: "mail_reach n s \<Longrightarrow> mail_inv n s"
proof (induction rule: mail_reach.induct)
  case (other n s s')
  then show ?case by (simp add: mail_inv_def mailbox_valid_def free_mailbox_def)
next
  case (send n s c mpidr ty d r s')
  then show ?case by (intro mail_inv_send)
qed (auto intro: mail_inv_boot mail_inv_receive mail_inv_clear)

section \<open>The printed key\<close>

lemma shared_key_fold:
  "fold (\<lambda>i k. push_bit 8 (k OR f i)) is (a OR b) =
     fold (\<lambda>i k. push_bit 8 (k OR f i)) is a OR (push_bit (8 * length is) b :: u64)"
proof (induction "is" arbitrary: a b)
  case Nil
  then show ?case by simp
next
  case (Cons i "is")
  let ?g = "\<lambda>i k. push_bit 8 (k OR f i)"
  have "push_bit 8 ((a OR b) OR f i) = push_bit 8 (a OR f i) OR push_bit 8 b"
    by (simp add: push_bit_or ac_simps)
  then have "fold ?g (i # is) (a OR b) = fold ?g is (push_bit 8 (a OR f i) OR push_bit 8 b)"
    by (simp only: fold_simps)
  also have "\<dots> = fold ?g (i # is) a OR push_bit (8 * length is) (push_bit 8 b)"
    by (simp only: Cons.IH fold_simps)
  finally show ?case by (simp add: add.commute)
qed

text \<open>Of sixteen bytes shifted through a 64-bit number only seven are left.\<close>

lemma shared_key_last_seven: "shared_key tag 0 16 = shared_key tag 9 16"
proof -
  let ?g = "\<lambda>i (k :: u64). push_bit 8 (k OR ucast (tag ! i))"
  have "[0..<16] = [0..<8] @ [8] @ [9..<16::nat]" by (simp add: upt_rec)
  then have "shared_key tag 0 16 =
      fold ?g [9..<16] (0 OR push_bit 8 (fold ?g [0..<8] 0 OR ucast (tag ! 8)))"
    by (simp add: shared_key_def)
  also have "\<dots> = fold ?g [9..<16] 0 OR
      push_bit (8 * 7) (push_bit 8 (fold ?g [0..<8] 0 OR ucast (tag ! 8)))"
    by (subst shared_key_fold) simp
  also have "push_bit (8 * 7) (push_bit 8 x) = 0" for x :: u64
    by (rule bit_word_eqI) (simp add: bit_simps)
  finally show ?thesis by (simp add: shared_key_def)
qed

section \<open>Properties\<close>

text \<open>Memory with arbitrary old mailbox contents, and the state after the initialisation loop.\<close>

definition old_mailbox :: mailbox where
  "old_mailbox = \<lparr>mb_lock = 3, mb_msg_type = 9, mb_msg_data = 9, mb_sender_id = 9, mb_status = 1,
     mb_counter = 77, mb_tag = replicate 32 0\<rparr>"

definition old_memory :: system where
  "old_memory = \<lparr>sys_lock = 0, sys_mailboxes = replicate 4 old_mailbox,
     sys_ring = \<lparr>rb_head = 0, rb_tail = 0, rb_data = replicate 256 0\<rparr>,
     sys_key = replicate 32 0x2B, sys_console = []\<rparr>"

definition booted :: system where
  "booted = old_memory\<lparr>sys_mailboxes := replicate 4 (cleared old_mailbox)\<rparr>"

lemma booted_reach: "mail_reach (\<lambda>c. 0) booted"
proof (rule mail_reach.boot)
  show "sys_ok old_memory"
    by (simp add: old_memory_def sys_ok_def old_mailbox_def rb_ok_def)
  show "init_mailboxes [0, 1, 2, 3] old_memory = Inr booted"
    by (subst init_mailboxes_eq) (simp_all add: old_memory_def booted_def)
qed

lemma booted_valid:
  "core_ok c \<Longrightarrow> mailbox_valid c booted \<and> mailbox_slot c booted = Empty \<and> mb_status (mbox c booted) = 0"
proof -
  assume c: "core_ok c"
  then have "mbox c booted = cleared old_mailbox"
    by (auto simp: booted_def core_ok_def nat_less_iff)
  with mail_reach_inv [OF booted_reach] c show ?thesis
    by (simp add: mail_inv_def mailbox_slot_def Let_def cleared_def)
qed

lemma core_ok_cores [simp]: "core_ok 0" "core_ok 1" "core_ok 2" "core_ok 3"
  by (simp_all add: core_ok_def)

text \<open>
  Property C25: the mailbox invariant.  After initialisation, whatever critical sections the four
  cores run in whatever order, every mailbox lock is free again, the status is 0, 1 or 2, a
  waiting message carries the right tag for its fields, and the counter is the number of
  messages accepted so far, modulo 2^32.
\<close>
theorem mailbox_invariant:
  assumes "mail_reach n s" and "core_ok c"
  shows "mb_lock (mbox c s) = 0 \<and> mb_status (mbox c s) \<in> {0, 1, 2} \<and>
    (mb_status (mbox c s) = 1 \<longrightarrow> hmac_tag_verify (sys_key s) (mbox c s) = Inr 1) \<and>
    unat (mb_counter (mbox c s)) = n c mod 2 ^ 32"
proof -
  note inv = mail_reach_inv [OF assms(1)] and free = mail_inv_free [OF mail_reach_inv [OF assms(1)] assms(2)]
  have "x \<le> 2 \<Longrightarrow> x \<in> {0, 1, 2}" for x :: u32
  proof -
    assume "x \<le> 2"
    then have "unat x \<le> 2" by (simp add: word_le_nat_alt)
    then have "unat x = 0 \<or> unat x = 1 \<or> unat x = 2" by linarith
    then show ?thesis by (auto simp: word_unat_eq_iff)
  qed
  with inv assms(2) free_mailboxD [OF free] show ?thesis
    by (auto simp: mail_inv_def mailbox_valid_def hmac_tag_verify_eq authentic_def unat_of_nat)
qed

lemma mailbox_invariant_witness:
  "mb_lock (mbox 2 booted) = 0 \<and> unat (mb_counter (mbox 2 booted)) = 0"
  using mailbox_invariant [OF booted_reach, of 2] by simp

text \<open>
  No operation gets stuck.  In every such state every operation on every mailbox
  returns; \<^verbatim>\<open>mailbox_send\<close> returns -1 exactly when a message is waiting, \<^verbatim>\<open>mailbox_receive\<close>
  returns 1 exactly when one is, and the operation leaves the other mailboxes alone.
\<close>
theorem mailbox_never_stuck:
  assumes "mail_reach n s" and "core_ok c"
  shows "(\<exists>s'. mailbox_send mpidr c ty d s = Inr (if mb_status (mbox c s) = 1 then -1 else 0, s') \<and>
      (\<forall>e. core_ok e \<and> e \<noteq> c \<longrightarrow> mbox e s' = mbox e s)) \<and>
    (\<exists>out' s'. mailbox_receive c out s = Inr (if mb_status (mbox c s) = 1 then 1 else 0, out', s') \<and>
      (\<forall>e. core_ok e \<and> e \<noteq> c \<longrightarrow> mbox e s' = mbox e s)) \<and>
    (\<exists>s'. mailbox_clear c s = Inr s' \<and> (\<forall>e. core_ok e \<and> e \<noteq> c \<longrightarrow> mbox e s' = mbox e s))"
proof -
  note inv = mail_reach_inv [OF assms(1)]
  note free = mail_inv_free [OF inv assms(2)]
  have other: "core_ok e \<and> e \<noteq> c \<longrightarrow> mbox e (set_mailbox c mb s1) = mbox e s1" for e mb s1
    using assms(2) by (auto simp: core_ok_def mbox_set_mailbox_other)
  have "mb_status (mbox c s) = 1 \<Longrightarrow> authentic (sys_key s) (mbox c s)"
    using inv assms(2) by (simp add: mail_inv_def mailbox_valid_def)
  then show ?thesis
    by (cases out)
      (auto simp: mailbox_send_eq [OF free] mailbox_receive_eq [OF free] mailbox_clear_eq [OF free] other)
qed

lemma mailbox_never_stuck_witness:
  "(\<exists>s'. mailbox_send 1 3 2 0xDEAD booted = Inr (0, s')) \<and>
   (\<exists>out s'. mailbox_receive 3 (0, 0, 0) booted = Inr (0, out, s'))"
  using mailbox_never_stuck [OF booted_reach, where c = 3 and mpidr = 1 and ty = 2 and d = "0xDEAD"
      and out = "(0, 0, 0)"] booted_valid [of 3] by auto

text \<open>
  Each mailbox is a one-place channel.  Any sequence of sends (by any cores),
  receptions and clearings on one mailbox returns and gives the status codes, the received
  messages, the out parameters and the slot that the abstract one-place channel gives.
\<close>
theorem mailbox_refines_slot:
  assumes "mailbox_valid c s"
  shows "\<exists>acc rcv out' s'.
    chan_run (send_to c) (mailbox_receive c) (mailbox_clear c) ops out s = Inr (acc, rcv, out', s') \<and>
    mailbox_valid c s' \<and>
    chan_run (slot_send delivered) slot_recv slot_clear ops out (mailbox_slot c s) =
      Inr (acc, rcv, out', mailbox_slot c s')"
  by (rule mbx.run_refines [OF assms])

lemma mailbox_refines_slot_witness:
  "\<exists>s'. chan_run (send_to 3) (mailbox_receive 3) (mailbox_clear 3)
     [Send (0x80000000, 1, 0x1003), Send (1, 2, 5), Recv, Clear, Recv] (0, 0, 0) booted =
     Inr ([(0x80000000, 1, 0x1003)], [(0, 1, 0x1003)], (0, 1, 0x1003), s')"
  using mailbox_refines_slot [of 3 booted
      "[Send (0x80000000, 1, 0x1003), Send (1, 2, 5), Recv, Clear, Recv]" "(0, 0, 0)"]
    booted_valid [of 3]
  by (auto simp: delivered_def)

text \<open>
  Property C6: exactly once, in order.  When the receiver clears only right after it received,
  with no send in between, the messages received and the one still waiting are exactly the
  messages accepted, in the order they were accepted, with the sender's core number, the type
  and the data they were sent with.
\<close>
theorem mailbox_exactly_once:
  assumes "mailbox_valid c s" and "clears_after_recv (pending (mailbox_slot c s) = []) ops"
    and "chan_run (send_to c) (mailbox_receive c) (mailbox_clear c) ops out s = Inr (acc, rcv, out', s')"
  shows "pending (mailbox_slot c s) @ map delivered acc = rcv @ pending (mailbox_slot c s')"
  by (rule mbx.run_exactly_once [OF assms(1,3,2)])

lemma mailbox_exactly_once_witness:
  "\<exists>acc rcv out' s'. chan_run (send_to 1) (mailbox_receive 1) (mailbox_clear 1)
     [Send (2, 3, 4), Recv, Clear, Send (3, 3, 9)] (0, 0, 0) booted = Inr (acc, rcv, out', s') \<and>
     map delivered acc = rcv @ pending (mailbox_slot 1 s')"
  using mbx.run_refines [of 1 booted "[Send (2, 3, 4), Recv, Clear, Send (3, 3, 9)]" "(0, 0, 0)"]
    mailbox_exactly_once [of 1 booted "[Send (2, 3, 4), Recv, Clear, Send (3, 3, 9)]" "(0, 0, 0)"]
    booted_valid [of 1]
  by fastforce

text \<open>
  Property C34: the race of \<^verbatim>\<open>mailbox_clear\<close>.  A message that is accepted between a reception
  and the clearing that follows it is destroyed: the send reported success, yet the next
  reception finds nothing.
\<close>
theorem mailbox_clear_loses_message:
  assumes "mailbox_valid c s" and "mailbox_slot c s = Ready m"
  shows "\<exists>s'. chan_run (send_to c) (mailbox_receive c) (mailbox_clear c) [Recv, Send i, Clear, Recv] out s
      = Inr ([i], [m], m, s') \<and> pending (mailbox_slot c s') = []"
  by (rule mbx.run_clear_race [OF assms])

lemma mailbox_clear_loses_message_witness:
  "\<exists>s s'. chan_run (send_to 3) (mailbox_receive 3) (mailbox_clear 3) [Recv, Send (0, 2, 7), Clear, Recv]
     (0, 0, 0) s = Inr ([(0, 2, 7)], [(1, 2, 5)], (1, 2, 5), s') \<and> pending (mailbox_slot 3 s') = []"
proof -
  have "\<exists>s. mailbox_valid 3 s \<and> mailbox_slot 3 s = Ready (delivered (1, 2, 5))"
    using mbx.send_room [of 3 booted "(1, 2, 5)"] booted_valid [of 3] by auto
  then show ?thesis
    using mailbox_clear_loses_message [of 3 _ "(1, 2, 5)" "(0, 2, 7)" "(0, 0, 0)"]
    by (fastforce simp: delivered_def)
qed

text \<open>
  A message whose tag does not verify is rejected: 0 is returned, the out
  parameters keep their old values, the slot is consumed and the rejection is printed.
\<close>
theorem mailbox_rejects_bad_tag:
  assumes "free_mailbox c s" and "mb_status (mbox c s) = 1"
    and "mb_tag (mbox c s) \<noteq> hmac sha256 64 (sys_key s) (mailbox_message (mbox c s))"
  shows "\<exists>s'. mailbox_receive c out s = Inr (0, out, s') \<and> mailbox_slot c s' = Taken \<and>
    free_mailbox c s' \<and> sys_console s' = sys_console s @ reject_log"
  using assms free_mailboxD [OF assms(1)]
  by (simp add: mailbox_receive_eq authentic_def slot_set_mailbox free_set_mailbox)

lemma mailbox_rejects_bad_tag_witness:
  "\<exists>s s'. mailbox_receive 0 (7, 8, 9) s = Inr (0, (7, 8, 9), s') \<and> mailbox_slot 0 s' = Taken"
proof -
  let ?h = "hmac sha256 64 (sys_key booted)"
  let ?t = "replicate 32 (hd (?h (mailbox_message old_mailbox)) + 1)"
  let ?mb = "old_mailbox\<lparr>mb_lock := 0, mb_tag := ?t\<rparr>"
  have "mailbox_message ?mb = mailbox_message old_mailbox" by (simp add: mailbox_message_def)
  moreover have "hd ?t \<noteq> hd (?h (mailbox_message old_mailbox))" by simp
  ultimately have "mb_tag ?mb \<noteq> ?h (mailbox_message ?mb)" by (metis mailbox.select_convs(7) mailbox.surjective mailbox.update_convs(7))
  moreover have free: "free_mailbox 0 booted" using booted_valid [of 0] by (simp add: mailbox_valid_def)
  moreover have "free_mailbox 0 (set_mailbox 0 ?mb booted)"
    by (rule free_set_mailbox [OF free]) simp_all
  moreover have "mbox 0 (set_mailbox 0 ?mb booted) = ?mb"
    using free_mailboxD(2) [OF free] by (simp add: set_mailbox_def)
  ultimately show ?thesis
    using mailbox_rejects_bad_tag [of 0 "set_mailbox 0 ?mb booted" "(7, 8, 9)"]
    by (fastforce simp: old_mailbox_def)
qed

text \<open>
  Property C37: a replayed message is accepted.  If someone sets the status of a received
  message back to 1, everything else unchanged, \<^verbatim>\<open>mailbox_receive\<close> delivers the message a
  second time: the counter is authenticated but never compared with an earlier one.
\<close>
theorem mailbox_accepts_replay:
  assumes "mailbox_valid c s" and "mailbox_slot c s = Ready m"
  shows "\<exists>s1 s2. mailbox_receive c out s = Inr (1, m, s1) \<and>
    mailbox_receive c out' (set_mailbox c ((mbox c s1)\<lparr>mb_status := 1\<rparr>) s1) = Inr (1, m, s2)"
proof -
  have free: "free_mailbox c s" and auth: "authentic (sys_key s) (mbox c s)"
    and m: "mb_status (mbox c s) = 1" "m = (mb_sender_id (mbox c s), mb_msg_type (mbox c s), mb_msg_data (mbox c s))"
    using assms by (auto simp: mailbox_valid_def slot_Ready_iff)
  note f = free_mailboxD [OF free]
  let ?s1 = "set_mailbox c ((mbox c s)\<lparr>mb_status := 2\<rparr>) (log_text (receive_log (mb_tag (mbox c s))) s)"
  let ?s = "set_mailbox c ((mbox c ?s1)\<lparr>mb_status := 1\<rparr>) ?s1"
  have r1: "mailbox_receive c out s = Inr (1, m, ?s1)"
    using auth m by (simp add: mailbox_receive_eq [OF free])
  have "free_mailbox c ?s1" using f free by (intro free_set_mailbox) simp_all
  then have free': "free_mailbox c ?s" by (rule free_set_mailbox) (use f in simp_all)
  have "authentic (sys_key ?s) (mbox c ?s)" "mb_status (mbox c ?s) = 1"
    using f auth by (simp_all add: authentic_def)
  then have "\<exists>s2. mailbox_receive c out' ?s = Inr (1, m, s2)"
    unfolding mailbox_receive_eq [OF free'] using f m by simp
  with r1 show ?thesis by blast
qed

lemma mailbox_accepts_replay_witness:
  "\<exists>s s1 s2. mailbox_receive 3 (0, 0, 0) s = Inr (1, (1, 2, 5), s1) \<and>
     mailbox_receive 3 (0, 0, 0) (set_mailbox 3 ((mbox 3 s1)\<lparr>mb_status := 1\<rparr>) s1) = Inr (1, (1, 2, 5), s2)"
proof -
  obtain s where "mailbox_valid 3 s" "mailbox_slot 3 s = Ready (delivered (1, 2, 5))"
    using mbx.send_room [of 3 booted "(1, 2, 5)"] booted_valid [of 3] by auto
  then show ?thesis
    using mailbox_accepts_replay [of 3 s "(1, 2, 5)" "(0, 0, 0)" "(0, 0, 0)"]
    by (fastforce simp: delivered_def)
qed

text \<open>
  What a reception prints of the tag.  Both lines show the same number, made of
  tag bytes 9 to 15; no other byte of the tag has any influence on the output, in particular
  none of the second half.
\<close>
theorem mailbox_receive_prints:
  assumes "mailbox_valid c s" and "mailbox_slot c s = Ready m"
  shows "\<exists>s'. mailbox_receive c out s = Inr (1, m, s') \<and>
    (let line = puthex_text (shared_key (mb_tag (mbox c s)) 9 16) @ [newline]
     in sys_console s' = sys_console s @ puts_text (''[CRYPTO] HMAC pass with key'' @ [newline]) @ line @ line)"
  using assms
  by (auto simp: mailbox_valid_def slot_Ready_iff mailbox_receive_eq receive_log_def
      shared_key_last_seven Let_def)

lemma mailbox_receive_prints_witness:
  "\<exists>s s' k. mailbox_receive 3 (0, 0, 0) s = Inr (1, (1, 2, 5), s') \<and>
     sys_console s' = sys_console s @ puts_text (''[CRYPTO] HMAC pass with key'' @ [newline]) @
       puthex_text k @ [newline] @ puthex_text k @ [newline]"
proof -
  obtain s where "mailbox_valid 3 s" "mailbox_slot 3 s = Ready (delivered (1, 2, 5))"
    using mbx.send_room [of 3 booted "(1, 2, 5)"] booted_valid [of 3] by auto
  then show ?thesis
    using mailbox_receive_prints [of 3 s "(1, 2, 5)" "(0, 0, 0)"]
    by (fastforce simp: delivered_def Let_def)
qed

end
