(* ===== verification/Dispatcher.thy ===== *)
theory Dispatcher
  imports Mailbox "HOL-Library.Sublist"
begin

text \<open>
  \<^verbatim>\<open>dispatcher/dispatcher.c\<close>: the three tasks.  A task is an endless loop; its model is one
  iteration, from one \<^verbatim>\<open>task_yield\<close> to the next, as a function of the task's local variables and
  the shared state.  An iteration ends at the yield or parks the core in a \<^verbatim>\<open>wfe\<close> loop.
\<close>

section \<open>The tasks\<close>

datatype task_end = Yielded | Parked

definition get_cpu_id :: "u64 \<Rightarrow> u64" where
  "get_cpu_id mpidr = mpidr AND 0xFF"

text \<open>
  \<^verbatim>\<open>uart_rx_task\<close> reads the receiving side of the device.  \<^verbatim>\<open>uart_getc\<close> polls the flag register
  once more; if no byte is ever reported again the iteration does not end.
\<close>

definition uart_rx_task :: "uart \<times> system \<Rightarrow> (uart \<times> system) exec" where
  "uart_rx_task = (\<lambda>(u, s).
     let (ready, u) = uart_has_data u in
     if ready then
       case uart_getc u of
         None \<Rightarrow> Inl Halted
       | Some (key, u) \<Rightarrow>
           let c = ucast key in
           bind_exec (ring_buffer_put (sys_ring s) c) (\<lambda>(r, rb). Inr (u, s\<lparr>sys_ring := rb\<rparr>))
     else Inr (u, s))"

definition ctrl_c_text :: string where
  "ctrl_c_text = [carriage_return, newline] @ ''[ERROR] Keyboard locked. System halted.'' @
     [carriage_return, newline]"

text \<open>\<open>byte\<close> is the task's local variable, which a failed \<^verbatim>\<open>ring_buffer_get\<close> leaves alone.\<close>

definition ring_consumer_task :: "u8 \<times> system \<Rightarrow> (task_end \<times> u8 \<times> system) exec" where
  "ring_consumer_task = (\<lambda>(byte, s).
     bind_exec (ring_buffer_get (sys_ring s) byte) (\<lambda>(r, byte, rb).
       let s = s\<lparr>sys_ring := rb\<rparr> in
       if r = 0 then
         bind_exec (acquire_global s) (\<lambda>s.
           case uart_key_event byte of
             KEY_CTRL_C \<Rightarrow> Inr (Parked, byte, con_puts ctrl_c_text s)
           | KEY_ENTER \<Rightarrow> Inr (Yielded, byte, release_global (con_puts [carriage_return, newline] s))
           | KEY_NONE \<Rightarrow> Inr (Yielded, byte, release_global (con_putc (char_of (unat byte)) s)))
       else Inr (Yielded, byte, s)))"

text \<open>The line the mailbox task prints for a message.\<close>

definition rx_line :: "message_out \<Rightarrow> system \<Rightarrow> system" where
  "rx_line = (\<lambda>(sender, msg_type, msg_data) s.
     let s = con_putc (digit_char sender) (con_puts ''[Core 3] RX from Core '' s);
         s = con_putc (digit_char msg_type) (con_puts '' | Type: '' s);
         s = con_puthex (ucast msg_data) (con_puts '' | Data: '' s)
     in con_puts [newline] s)"

definition mailbox_dispatcher_task :: "u64 \<Rightarrow> message_out \<times> system \<Rightarrow> (message_out \<times> system) exec" where
  "mailbox_dispatcher_task mpidr = (\<lambda>(out, s).
     let cpu = get_cpu_id mpidr; core = sint (ucast cpu :: u32) in
     bind_exec (mailbox_receive core out s) (\<lambda>(r, (sender, msg_type, msg_data), s).
       if r = 1 then
         bind_exec (locked (rx_line (sender, msg_type, msg_data)) s) (\<lambda>s.
         let ack_data = ucast (ucast msg_data + push_bit 16 cpu :: u64) in
         bind_exec (mailbox_send mpidr (sint sender) (uint MSG_ACK) ack_data s) (\<lambda>(_, s).
         bind_exec (mailbox_clear core s) (\<lambda>s. Inr ((sender, msg_type, msg_data), s))))
       else Inr ((sender, msg_type, msg_data), s)))"

definition UART_RX_TASK :: u16 where "UART_RX_TASK = 0"
definition RING_COSUMER_TASK :: u16 where "RING_COSUMER_TASK = 1"
definition MAILBOX_DISP_TASK :: u16 where "MAILBOX_DISP_TASK = 2"

datatype task = Uart_Rx | Ring_Consumer | Mailbox_Disp

text \<open>Control passes to an endless task (\<open>Inl\<close>), or the call returns.\<close>

definition dispatcher_run :: "u16 \<Rightarrow> system \<Rightarrow> task + system" where
  "dispatcher_run task_id s =
     (if task_id = UART_RX_TASK then Inl Uart_Rx
      else if task_id = RING_COSUMER_TASK then Inl Ring_Consumer
      else if task_id = MAILBOX_DISP_TASK then Inl Mailbox_Disp
      else Inr (con_puts [newline] (con_puthex (ucast task_id)
             (con_puts ''[DISPATCHER] Unknown task ID: '' s))))"

section \<open>The keyboard echo\<close>

text \<open>
  Core 0 runs the receiving and the echoing task; any interleaving of their iterations is a list
  of booleans (\<open>True\<close> is the receiving task).  A parked core runs nothing any more.
\<close>

type_synonym keyboard = "uart \<times> u8 \<times> system"

fun kbd_run :: "bool list \<Rightarrow> keyboard \<Rightarrow> (task_end \<times> keyboard) exec" where
  "kbd_run [] k = Inr (Yielded, k)"
| "kbd_run (True # ts) (u, byte, s) =
     bind_exec (uart_rx_task (u, s)) (\<lambda>(u, s). kbd_run ts (u, byte, s))"
| "kbd_run (False # ts) (u, byte, s) =
     bind_exec (ring_consumer_task (byte, s)) (\<lambda>(e, byte, s).
       if e = Parked then Inr (Parked, u, byte, s) else kbd_run ts (u, byte, s))"

definition echo_text :: "u8 \<Rightarrow> string" where
  "echo_text b = (case uart_key_event b of
     KEY_CTRL_C \<Rightarrow> puts_text ctrl_c_text
   | KEY_ENTER \<Rightarrow> [carriage_return, carriage_return, newline]
   | KEY_NONE \<Rightarrow> [char_of (unat b)])"

text \<open>The bytes read from the data register between two device states.\<close>

definition keys_read :: "uart \<Rightarrow> uart \<Rightarrow> u8 list" where
  "keys_read u u' = map (\<lambda>i. ucast (dr_env u i)) [dr_reads u..<dr_reads u']"

lemma enter_text [simp]: "puts_text [carriage_return, newline] = [carriage_return, carriage_return, newline]"
  by (simp add: puts_text_def carriage_return_def newline_def nul_def)

lemma locked_echo:
  assumes "sys_lock s = 0"
  shows "acquire_global s = Inr (s\<lparr>sys_lock := 1\<rparr>)"
  using assms by (simp add: acquire_global_def spinlock_acquire_def)

lemma key_event_ctrl_c: "uart_key_event b = KEY_CTRL_C \<longleftrightarrow> b = 3"
  by (simp add: uart_key_event_def)

lemma consumer_none:
  assumes "rb_ok (sys_ring s)" "rb_list (sys_ring s) = []"
  shows "ring_consumer_task (byte, s) = Inr (Yielded, byte, s)"
  using ring.get_none [OF assms, of byte] by (simp add: ring_consumer_task_def)

lemma consumer_some:
  assumes "rb_ok (sys_ring s)" "rb_list (sys_ring s) = b # bs" and "sys_lock s = 0"
  shows "\<exists>rb. rb_ok rb \<and> rb_list rb = bs \<and> ring_consumer_task (byte, s) =
    Inr (if b = 3 then (Parked, b, log_text (echo_text b) (s\<lparr>sys_ring := rb, sys_lock := 1\<rparr>))
         else (Yielded, b, log_text (echo_text b) (s\<lparr>sys_ring := rb\<rparr>)))"
proof -
  obtain rb where rb: "ring_buffer_get (sys_ring s) byte = Inr (0, b, rb)" "rb_ok rb" "rb_list rb = bs"
    using ring.get_some [OF assms(1,2), of byte] by blast
  have "s\<lparr>sys_ring := rb, sys_console := x\<rparr> = s\<lparr>sys_ring := rb, sys_lock := 0, sys_console := x\<rparr>" for x
    using assms(3) by (cases s) simp
  with rb assms(3) show ?thesis
    by (intro exI [of _ rb]) (auto simp: ring_consumer_task_def locked_echo echo_text_def con_log key_event_ctrl_c [symmetric]
        release_global_def spinlock_release_def log_text_def split: key_event.splits)
qed

text \<open>
  A byte the flag register has reported is reported again as long as it has not been read.  The task
  reads a byte when it has been reported to \<^verbatim>\<open>uart_has_data\<close> and again to \<^verbatim>\<open>uart_getc\<close>, so every
  second report is the last one of its byte: \<open>held\<close> says that after \<open>n\<close> more reads of the
  register a reported byte waits.  Nothing is asked of a device from which all reported bytes are read.
\<close>

primrec held :: "uart \<Rightarrow> nat \<Rightarrow> bool" where
  "held u 0 = False"
| "held u (Suc n) = (held u n \<noteq> has_data (fr_env u (fr_reads u + n)))"

definition rx_fair :: "uart \<Rightarrow> bool" where
  "rx_fair u \<longleftrightarrow> (\<forall>n. held u n \<longrightarrow> (\<exists>m \<ge> n. has_data (fr_env u (fr_reads u + m))))"

text \<open>The device at a later moment.\<close>

definition same_device :: "uart \<Rightarrow> uart \<Rightarrow> bool" where
  "same_device u u' \<longleftrightarrow> fr_env u' = fr_env u \<and> dr_env u' = dr_env u \<and> dr_reads u \<le> dr_reads u' \<and> (rx_fair u \<longrightarrow> rx_fair u')"

lemma same_device_refl [simp]: "same_device u u"
  by (simp add: same_device_def)

lemma same_device_trans: "same_device u v \<Longrightarrow> same_device v w \<Longrightarrow> same_device u w"
  by (simp add: same_device_def)

lemma same_device_fair: "same_device u v \<Longrightarrow> rx_fair u \<Longrightarrow> rx_fair v"
  by (simp add: same_device_def)

lemma held_later:
  assumes "\<not> held u k" and "fr_env u' = fr_env u" "fr_reads u' = fr_reads u + k"
  shows "held u' n = held u (k + n)"
  using assms by (induction n) (simp_all add: ac_simps)

lemma fair_later:
  assumes "rx_fair u" and "\<not> held u k" and "fr_env u' = fr_env u" "fr_reads u' = fr_reads u + k"
  shows "rx_fair u'"
  unfolding rx_fair_def
proof (intro allI impI)
  fix n assume "held u' n"
  then have "held u (k + n)" using held_later [OF assms(2-4)] by simp
  with assms(1) obtain m where "k + n \<le> m" "has_data (fr_env u (fr_reads u + m))" by (auto simp: rx_fair_def)
  with assms(3,4) show "\<exists>m \<ge> n. has_data (fr_env u' (fr_reads u' + m))"
    by (intro exI [of _ "m - k"]) simp
qed

text \<open>A reported byte is held until the next report.\<close>

lemma held_quiet:
  assumes "has_data (fr_env u (fr_reads u))" and "\<forall>i. Suc (fr_reads u) \<le> i \<and> i < fr_reads u + Suc n \<longrightarrow> \<not> has_data (fr_env u i)"
  shows "held u (Suc n)"
  using assms by (induction n) simp_all

lemma keys_read_append:
  assumes "same_device u v" "same_device v w"
  shows "keys_read u w = keys_read u v @ keys_read v w"
proof -
  have "[dr_reads u..<dr_reads w] = [dr_reads u..<dr_reads v] @ [dr_reads v..<dr_reads w]"
    using assms by (auto simp: same_device_def upt_add_eq_append [symmetric] le_iff_add)
  then show ?thesis using assms by (simp add: keys_read_def same_device_def)
qed

lemma keys_read_refl [simp]: "keys_read u u = []"
  by (simp add: keys_read_def)

text \<open>One iteration of the receiving task: no byte, a byte stored, or a byte dropped.\<close>

lemma rx_cases:
  assumes fair: "rx_fair u" and ok: "rb_ok (sys_ring s)"
  obtains (none) u' where "uart_rx_task (u, s) = Inr (u', s)" "same_device u u'" "keys_read u u' = []"
        "\<not> has_data (fr_env u (fr_reads u))"
    | (stored) u' k rb where "uart_rx_task (u, s) = Inr (u', s\<lparr>sys_ring := rb\<rparr>)" "same_device u u'"
        "keys_read u u' = [k]" "rb_ok rb" "rb_list rb = rb_list (sys_ring s) @ [k]"
        "length (rb_list (sys_ring s)) < 255"
    | (dropped) u' k where "uart_rx_task (u, s) = Inr (u', s)" "same_device u u'" "keys_read u u' = [k]"
        "length (rb_list (sys_ring s)) = 255"
proof (cases "has_data (fr_env u (fr_reads u))")
  case False
  show ?thesis
    by (rule none [of "snd (read_fr u)"])
      (use False fair_later [OF fair, of 1] in
        \<open>simp_all add: uart_rx_task_def uart_has_data_def read_fr_def same_device_def keys_read_def\<close>)
next
  case True
  let ?u = "u\<lparr>fr_reads := Suc (fr_reads u)\<rparr>"
  let ?k = "ucast (dr_env u (dr_reads u)) :: u8"
  have "held u 1" using True by simp
  with fair obtain m where "1 \<le> m" "has_data (fr_env u (fr_reads u + m))" by (auto simp: rx_fair_def simp del: held.simps)
  then have "ready_at (\<lambda>fr. \<not> has_data fr) ?u (fr_reads u + m)" by (simp add: ready_at_def)
  then obtain n where n: "poll_fr (\<lambda>fr. \<not> has_data fr) ?u = Some (?u\<lparr>fr_reads := Suc n\<rparr>)"
    "Suc (fr_reads u) \<le> n" "has_data (fr_env u n)" "\<forall>i. Suc (fr_reads u) \<le> i \<and> i < n \<longrightarrow> \<not> has_data (fr_env u i)"
    by (rule poll_fr_least) simp
  then obtain d where d: "n = fr_reads u + Suc d" by (auto simp: le_iff_add)
  with held_quiet [OF True, of d] n(3,4) have "\<not> held u (Suc (Suc d))" by simp
  let ?u' = "u\<lparr>fr_reads := Suc n, dr_reads := Suc (dr_reads u)\<rparr>"
  have key: "ucast (ucast (ucast (x AND 0xFF :: u32) :: u8) :: u32) = (ucast x :: u8)" for x
    by (simp add: word_unat_eq_iff unsigned_ucast_eq take_bit_eq_mod unat_mod_distrib)
  have run: "uart_rx_task (u, s) =
      bind_exec (ring_buffer_put (sys_ring s) ?k) (\<lambda>(r, rb). Inr (?u', s\<lparr>sys_ring := rb\<rparr>))"
    using True n(1) by (simp add: uart_rx_task_def uart_has_data_def read_fr_def uart_getc_def key)
  have dev: "same_device u ?u'" "keys_read u ?u' = [?k]"
    using fair_later [OF fair \<open>\<not> held u (Suc (Suc d))\<close>, of ?u'] by (simp_all add: same_device_def keys_read_def d)
  from ok show ?thesis
  proof (cases rule: ring.put_cases [of _ ?k])
    case (room rb)
    with run dev show ?thesis by (intro stored [of ?u' rb ?k]) simp_all
  next
    case full
    with run dev ring.content_cap [OF ok] show ?thesis by (intro dropped [of ?u' ?k]) simp_all
  qed
qed

text \<open>What a run of the two tasks gives, whichever way they interleave.\<close>

definition echoed :: "system \<Rightarrow> u8 list \<Rightarrow> task_end \<Rightarrow> system \<Rightarrow> bool" where
  "echoed s keys e s' \<longleftrightarrow> (\<exists>acc rcv. subseq acc keys \<and>
     (length (rb_list (sys_ring s)) + length keys \<le> 255 \<longrightarrow> acc = keys) \<and>
     rb_list (sys_ring s) @ acc = rcv @ rb_list (sys_ring s') \<and>
     sys_console s' = sys_console s @ concat (map echo_text rcv) \<and>
     (if e = Parked then sys_lock s' = 1 \<and> (\<exists>ks. rcv = ks @ [3] \<and> 3 \<notin> set ks)
      else sys_lock s' = 0 \<and> 3 \<notin> set rcv) \<and>
     sys_mailboxes s' = sys_mailboxes s \<and> sys_key s' = sys_key s \<and> sys_ok s')"

lemma echoed_refl: "sys_ok s \<Longrightarrow> sys_lock s = 0 \<Longrightarrow> echoed s [] Yielded s"
  unfolding echoed_def by (intro exI [of _ "[]"]) simp

lemma echoed_key:
  assumes "echoed sa keys e s'" and rb: "rb_list rb = rb_list (sys_ring s) @ [k]" "sa = s\<lparr>sys_ring := rb\<rparr>"
  shows "echoed s (k # keys) e s'"
proof -
  obtain acc rcv where *: "subseq acc keys" "length (rb_list rb) + length keys \<le> 255 \<longrightarrow> acc = keys"
      "rb_list rb @ acc = rcv @ rb_list (sys_ring s')" "sys_console s' = sys_console s @ concat (map echo_text rcv)"
      "if e = Parked then sys_lock s' = 1 \<and> (\<exists>ks. rcv = ks @ [3] \<and> 3 \<notin> set ks)
       else sys_lock s' = 0 \<and> 3 \<notin> set rcv"
      "sys_mailboxes s' = sys_mailboxes s" "sys_key s' = sys_key s" "sys_ok s'"
    using assms(1) by (auto simp: echoed_def rb(2))
  then show ?thesis
    unfolding echoed_def by (intro exI [of _ "k # acc"] exI [of _ rcv]) (simp add: rb(1))
qed

lemma echoed_drop:
  assumes "echoed s keys e s'" and "length (rb_list (sys_ring s)) = 255"
  shows "echoed s (k # keys) e s'"
proof -
  obtain acc rcv where "subseq acc keys" and
      *: "rb_list (sys_ring s) @ acc = rcv @ rb_list (sys_ring s')" "sys_console s' = sys_console s @ concat (map echo_text rcv)"
      "if e = Parked then sys_lock s' = 1 \<and> (\<exists>ks. rcv = ks @ [3] \<and> 3 \<notin> set ks)
       else sys_lock s' = 0 \<and> 3 \<notin> set rcv"
      "sys_mailboxes s' = sys_mailboxes s" "sys_key s' = sys_key s" "sys_ok s'"
    using assms(1) by (auto simp: echoed_def)
  then have "subseq acc (k # keys)" by (simp add: subseq_Cons2_iff list_emb_Cons)
  with * assms(2) show ?thesis
    unfolding echoed_def by (intro exI [of _ acc] exI [of _ rcv]) simp
qed

lemma echoed_byte:
  assumes "echoed sa keys e s'" and rb: "rb_list (sys_ring s) = b # rb_list rb" "b \<noteq> 3"
    and sa: "sa = log_text (echo_text b) (s\<lparr>sys_ring := rb\<rparr>)"
  shows "echoed s keys e s'"
proof -
  obtain acc rcv where *: "subseq acc keys" "length (rb_list rb) + length keys \<le> 255 \<longrightarrow> acc = keys"
      "rb_list rb @ acc = rcv @ rb_list (sys_ring s')"
      "sys_console s' = sys_console s @ echo_text b @ concat (map echo_text rcv)"
      "if e = Parked then sys_lock s' = 1 \<and> (\<exists>ks. rcv = ks @ [3] \<and> 3 \<notin> set ks)
       else sys_lock s' = 0 \<and> 3 \<notin> set rcv"
      "sys_mailboxes s' = sys_mailboxes s" "sys_key s' = sys_key s" "sys_ok s'"
    using assms(1) by (auto simp: echoed_def sa)
  moreover have "\<exists>ks'. b # ks @ [3] = ks' @ [3] \<and> 3 \<notin> set ks'" if "3 \<notin> set ks" for ks
    using that rb(2) by (intro exI [of _ "b # ks"]) simp
  ultimately show ?thesis
    unfolding echoed_def by (intro exI [of _ acc] exI [of _ "b # rcv"]) (use rb in \<open>auto split: if_splits\<close>)
qed

lemma rx_round:
  assumes "rx_fair u" and ok: "sys_ok s"
  obtains u1 s1 where "uart_rx_task (u, s) = Inr (u1, s1)" "same_device u u1" "sys_ok s1" "sys_lock s1 = sys_lock s"
    "\<And>ks e s'. echoed s1 ks e s' \<Longrightarrow> echoed s (keys_read u u1 @ ks) e s'"
proof -
  have "rb_ok (sys_ring s)" using ok by (simp add: sys_ok_def)
  with assms(1) show thesis
  proof (cases rule: rx_cases)
    case (none u1)
    with ok show thesis by (intro that [of u1 s]) simp_all
  next
    case (stored u1 k rb)
    moreover have "sys_ok (s\<lparr>sys_ring := rb\<rparr>)" using ok stored(4) by (simp add: sys_ok_def)
    ultimately show thesis by (intro that [of u1 "s\<lparr>sys_ring := rb\<rparr>"]) (simp_all add: echoed_key)
  next
    case (dropped u1 k)
    with ok show thesis by (intro that [of u1 s]) (simp_all add: echoed_drop)
  qed
qed

text \<open>One iteration of the echoing task: it parks the core on Ctrl-C, and otherwise yields.\<close>

lemma consumer_round:
  assumes ok: "sys_ok s" and free: "sys_lock s = 0"
  obtains (parked) b s1 where "ring_consumer_task (byte, s) = Inr (Parked, b, s1)" "echoed s [] Parked s1"
    | (yielded) b s1 where "ring_consumer_task (byte, s) = Inr (Yielded, b, s1)" "sys_ok s1" "sys_lock s1 = 0"
        "\<And>ks e s'. echoed s1 ks e s' \<Longrightarrow> echoed s ks e s'"
proof (cases "rb_list (sys_ring s)")
  case Nil
  then show thesis using consumer_none [of s byte] ok free by (intro yielded) (simp_all add: sys_ok_def)
next
  case (Cons b bs)
  have "rb_ok (sys_ring s)" using ok by (simp add: sys_ok_def)
  from consumer_some [OF this Cons free, of byte] obtain rb where rb: "rb_ok rb" "rb_list rb = bs"
    "ring_consumer_task (byte, s) =
        Inr (if b = 3 then (Parked, b, log_text (echo_text b) (s\<lparr>sys_ring := rb, sys_lock := 1\<rparr>))
             else (Yielded, b, log_text (echo_text b) (s\<lparr>sys_ring := rb\<rparr>)))" by blast
  show thesis
  proof (cases "b = 3")
    case True
    let ?s = "log_text (echo_text b) (s\<lparr>sys_ring := rb, sys_lock := 1\<rparr>)"
    have "sys_ok ?s" using ok rb(1) by (simp add: sys_ok_def)
    then have "echoed s [] Parked ?s"
      unfolding echoed_def using True Cons rb(2) by (intro exI [of _ "[]"] exI [of _ "[3]"]) simp
    with rb(3) True show thesis by (intro parked) simp_all
  next
    case False
    let ?s = "log_text (echo_text b) (s\<lparr>sys_ring := rb\<rparr>)"
    have "sys_ok ?s" using ok rb(1) by (simp add: sys_ok_def)
    with rb False Cons free show thesis
      by (intro yielded [of b ?s]) (simp_all add: echoed_byte [of ?s _ _ _ s b rb])
  qed
qed

lemma kbd_run_echoes:
  assumes "rx_fair u" "sys_ok s" "sys_lock s = 0"
  shows "\<exists>e u' byte' s'. kbd_run ts (u, byte, s) = Inr (e, u', byte', s') \<and> same_device u u' \<and>
    echoed s (keys_read u u') e s'"
  using assms
proof (induction ts arbitrary: u byte s)
  case Nil
  then show ?case by (simp add: echoed_refl)
next
  case (Cons t ts)
  show ?case
  proof (cases t)
    case True
    obtain u1 s1 where u1: "uart_rx_task (u, s) = Inr (u1, s1)" "same_device u u1" "sys_ok s1" "sys_lock s1 = sys_lock s"
      "\<And>ks e s'. echoed s1 ks e s' \<Longrightarrow> echoed s (keys_read u u1 @ ks) e s'"
      using rx_round [OF Cons.prems(1,2)] by blast
    then obtain e u' byte' s' where r: "kbd_run ts (u1, byte, s1) = Inr (e, u', byte', s')" "same_device u1 u'"
      "echoed s1 (keys_read u1 u') e s'"
      using Cons.IH [of u1 s1 byte] Cons.prems same_device_fair by metis
    have "kbd_run (t # ts) (u, byte, s) = Inr (e, u', byte', s')" using u1(1) r(1) True by simp
    with u1(5) [OF r(3)] show ?thesis
      using same_device_trans [OF u1(2) r(2)] by (auto simp: keys_read_append [OF u1(2) r(2)])
  next
    case False
    from Cons.prems(2,3) show ?thesis
    proof (cases rule: consumer_round [where byte = byte])
      case (parked b s1)
      with False show ?thesis by auto
    next
      case (yielded b s1)
      from Cons.IH [OF Cons.prems(1) yielded(2,3), of b] yielded(1,4) False show ?thesis by fastforce
    qed
  qed
qed

section \<open>The mailbox task\<close>

definition rx_text :: "message_out \<Rightarrow> string" where
  "rx_text = (\<lambda>(sender, msg_type, msg_data).
     puts_text ''[Core 3] RX from Core '' @ [digit_char sender] @ puts_text '' | Type: '' @ [digit_char msg_type] @
     puts_text '' | Data: '' @ puthex_text (ucast msg_data) @ puts_text [newline])"

lemma rx_line_log: "rx_line m s = log_text (rx_text m) s"
  by (cases m) (simp add: rx_line_def rx_text_def con_log Let_def)

lemma locked_log:
  assumes "sys_lock s = 0" and "\<And>s. f s = log_text str s"
  shows "locked f s = Inr (log_text str s)"
  using assms by (cases s) (simp add: locked_free release_global_def spinlock_release_def log_text_def)

lemma cpu_3:
  assumes "get_cpu_id mpidr = 3"
  shows "sint (ucast (get_cpu_id mpidr) :: u32) = 3" "ucast mpidr AND 0xFF = (3 :: u32)"
    "ucast (ucast d + push_bit 16 (get_cpu_id mpidr) :: u64) = (d + 0x30000 :: u32)"
proof -
  have "unat mpidr mod 256 = 3"
    using arg_cong [OF assms, of unat] unat_and_mask [of mpidr 8]
    by (simp add: get_cpu_id_def mask_eq_exp_minus_1)
  then show "ucast mpidr AND 0xFF = (3 :: u32)"
    by (simp add: word_unat_eq_iff unsigned_ucast_eq take_bit_eq_mod unat_mod_distrib mod_mod_cancel)
  show "sint (ucast (get_cpu_id mpidr) :: u32) = 3" by (simp add: assms)
  have "unat d < 2 ^ 32" using unsigned_less [of d, where 'a = nat] by simp
  then show "ucast (ucast d + push_bit 16 (get_cpu_id mpidr) :: u64) = (d + 0x30000 :: u32)"
    by (simp add: assms word_unat_eq_iff unsigned_ucast_eq take_bit_eq_mod unat_mod_distrib unat_word_ariths)
qed

lemma small_sender:
  assumes "(w :: u32) < 4"
  shows "core_ok (sint w)" "sint w = uint w"
proof -
  have "unat w < 4" using assms by (simp add: word_less_nat_alt)
  then have "unat w = 0 \<or> unat w = 1 \<or> unat w = 2 \<or> unat w = 3" by linarith
  then have "w = 0 \<or> w = 1 \<or> w = 2 \<or> w = 3" by (auto simp: word_unat_eq_iff)
  then show "core_ok (sint w)" "sint w = uint w" by auto
qed

lemma slot_set_other:
  "core_ok c \<Longrightarrow> core_ok d \<Longrightarrow> c \<noteq> d \<Longrightarrow> mailbox_slot d (set_mailbox c mb s) = mailbox_slot d s"
  by (simp add: mailbox_slot_def core_ok_def mbox_set_mailbox_other)

lemma slot_log [simp]: "mailbox_slot c (log_text str s) = mailbox_slot c s"
  by (simp add: mailbox_slot_def)

lemma reach_log: "mail_reach n s \<Longrightarrow> mail_reach n (log_text str s)"
  by (rule mail_reach.other) (use mail_reach_inv in \<open>auto simp: mail_inv_def\<close>)

lemma reach_valid: "mail_reach n s \<Longrightarrow> core_ok c \<Longrightarrow> mailbox_valid c s"
  using mail_reach_inv by (auto simp: mail_inv_def)

text \<open>A reception, its effect on every slot, and the state it leaves.\<close>

lemma receive_slots:
  assumes "mail_reach n s" "core_ok c" "mailbox_slot c s = Ready m"
  obtains s' where "mailbox_receive c out s = Inr (1, m, s')" "mail_reach n s'" "sys_lock s' = sys_lock s"
    "\<And>d. core_ok d \<Longrightarrow> mailbox_slot d s' = (if d = c then Taken else mailbox_slot d s)"
    "sys_console s' = sys_console s @ receive_log (mb_tag (mbox c s))"
proof -
  let ?s = "set_mailbox c ((mbox c s)\<lparr>mb_status := 2\<rparr>) (log_text (receive_log (mb_tag (mbox c s))) s)"
  have free: "free_mailbox c s" and auth: "authentic (sys_key s) (mbox c s)" and st: "mb_status (mbox c s) = 1"
      "m = (mb_sender_id (mbox c s), mb_msg_type (mbox c s), mb_msg_data (mbox c s))"
    using reach_valid [OF assms(1,2)] assms(3) by (simp_all add: mailbox_valid_def slot_Ready_iff)
  have r: "mailbox_receive c out s = Inr (1, m, ?s)"
    using mailbox_receive_eq [OF free, of out] auth st by simp
  moreover have "mailbox_slot d ?s = (if d = c then Taken else mailbox_slot d s)" if "core_ok d" for d
    using that assms(2) free_mailboxD(2) [OF free] by (auto simp: slot_set_mailbox slot_set_other)
  ultimately show ?thesis
    using that [of ?s] mail_reach.recv [OF assms(1,2) r] by simp
qed

lemma send_slots:
  assumes "mail_reach n s" "core_ok c"
  obtains r s' where "mailbox_send mpidr c ty d s = Inr (r, s')" "\<exists>n'. mail_reach n' s'"
    "r = (if pending (mailbox_slot c s) = [] then 0 else -1)"
    "sys_lock s' = sys_lock s" "sys_console s' = sys_console s"
    "\<And>e. core_ok e \<Longrightarrow> mailbox_slot e s' = (if e = c \<and> pending (mailbox_slot c s) = []
       then Ready (ucast mpidr AND 0xFF, of_int ty, d) else mailbox_slot e s)"
proof -
  have free: "free_mailbox c s" using reach_valid [OF assms] by (simp add: mailbox_valid_def)
  let ?s = "if mb_status (mbox c s) = 1 then s
    else set_mailbox c (sent_mailbox (sys_key s) mpidr ty d (mbox c s)) s"
  have r: "mailbox_send mpidr c ty d s = Inr (if mb_status (mbox c s) = 1 then -1 else 0, ?s)"
    by (simp add: mailbox_send_eq [OF free])
  have "mailbox_slot e ?s = (if e = c \<and> pending (mailbox_slot c s) = []
       then Ready (ucast mpidr AND 0xFF, of_int ty, d) else mailbox_slot e s)" if "core_ok e" for e
    using that assms(2) free_mailboxD(2) [OF free] by (auto simp: slot_set_mailbox slot_set_other slot_pending_iff)
  moreover have "\<exists>n'. mail_reach n' ?s" using mail_reach.send [OF assms r] by blast
  ultimately show ?thesis using that [OF r] by (simp add: slot_pending_iff)
qed

lemma clear_slots:
  assumes "mail_reach n s" "core_ok c"
  obtains s' where "mailbox_clear c s = Inr s'" "mail_reach n s'" "sys_lock s' = sys_lock s"
    "sys_console s' = sys_console s"
    "\<And>e. core_ok e \<Longrightarrow> mailbox_slot e s' = (if e = c then Empty else mailbox_slot e s)"
proof -
  have free: "free_mailbox c s" using reach_valid [OF assms] by (simp add: mailbox_valid_def)
  let ?s = "set_mailbox c ((mbox c s)\<lparr>mb_status := 0, mb_msg_type := MSG_NONE\<rparr>) s"
  have r: "mailbox_clear c s = Inr ?s" by (rule mailbox_clear_eq [OF free])
  have "mailbox_slot e ?s = (if e = c then Empty else mailbox_slot e s)" if "core_ok e" for e
    using that assms(2) free_mailboxD(2) [OF free] by (auto simp: slot_set_mailbox slot_set_other)
  then show ?thesis using that [OF r] mail_reach.clear [OF assms r] by simp
qed

lemma mailbox_task_step:
  assumes reach: "mail_reach n s" and lock: "sys_lock s = 0" and cpu: "get_cpu_id mpidr = 3"
    and slot: "mailbox_slot 3 s = Ready (sender, ty, d)" and sender: "sender < 4"
  shows "\<exists>s' n'. mailbox_dispatcher_task mpidr (out, s) = Inr ((sender, ty, d), s') \<and> mail_reach n' s' \<and>
    sys_lock s' = 0 \<and> (\<forall>c. core_ok c \<longrightarrow> mailbox_slot c s' =
      (if c = 3 then Empty
       else if c = uint sender \<and> pending (mailbox_slot c s) = [] then Ready (3, MSG_ACK, d + 0x30000)
       else mailbox_slot c s)) \<and>
    sys_console s' = sys_console s @ receive_log (mb_tag (mbox 3 s)) @ rx_text (sender, ty, d)"
proof -
  note cpu' = cpu_3 [OF cpu]
  obtain sa where sa: "mailbox_receive 3 out s = Inr (1, (sender, ty, d), sa)" "mail_reach n sa"
    "sys_lock sa = sys_lock s" "\<And>e. core_ok e \<Longrightarrow> mailbox_slot e sa = (if e = 3 then Taken else mailbox_slot e s)"
    "sys_console sa = sys_console s @ receive_log (mb_tag (mbox 3 s))"
    using receive_slots [OF reach core_ok_cores(4) slot, of out] by blast
  let ?sb = "log_text (rx_text (sender, ty, d)) sa"
  have print: "locked (rx_line (sender, ty, d)) sa = Inr ?sb"
    using sa(3) lock by (intro locked_log) (simp_all add: rx_line_log)
  note send = small_sender [OF sender]
  obtain r sc where sc: "mailbox_send mpidr (sint sender) (uint MSG_ACK) (d + 0x30000) ?sb = Inr (r, sc)"
    "\<exists>n'. mail_reach n' sc" "r = (if pending (mailbox_slot (sint sender) ?sb) = [] then 0 else -1)"
    "sys_lock sc = sys_lock ?sb" "sys_console sc = sys_console ?sb"
    "\<And>e. core_ok e \<Longrightarrow> mailbox_slot e sc =
       (if e = sint sender \<and> pending (mailbox_slot (sint sender) ?sb) = []
        then Ready (ucast mpidr AND 0xFF, of_int (uint MSG_ACK), d + 0x30000) else mailbox_slot e ?sb)"
    by (rule send_slots [OF reach_log [OF sa(2)] send(1)]) (rule that)
  obtain n' where n': "mail_reach n' sc" using sc(2) ..
  obtain s' where s': "mailbox_clear 3 sc = Inr s'" "mail_reach n' s'" "sys_lock s' = sys_lock sc"
    "sys_console s' = sys_console sc"
    "\<And>e. core_ok e \<Longrightarrow> mailbox_slot e s' = (if e = 3 then Empty else mailbox_slot e sc)"
    using clear_slots [OF n' core_ok_cores(4)] by blast
  have run: "mailbox_dispatcher_task mpidr (out, s) = Inr ((sender, ty, d), s')"
    using sa(1) print sc(1) s'(1) by (simp add: mailbox_dispatcher_task_def Let_def cpu')
  have slots: "mailbox_slot c s' = (if c = 3 then Empty
       else if c = uint sender \<and> pending (mailbox_slot c s) = [] then Ready (3, MSG_ACK, d + 0x30000)
       else mailbox_slot c s)" if "core_ok c" for c
    using that s'(5) [OF that] sc(6) [OF that] sa(4) [OF that] sa(4) [OF send(1)] by (auto simp: send(2) cpu'(2))
  show ?thesis
    using run s'(2) slots s'(3,4) sc(4,5) sa(3,5) lock by (intro exI [of _ s'] exI [of _ n']) simp
qed

lemma mailbox_task_nothing:
  assumes "mail_reach n s" and "get_cpu_id mpidr = 3" and "pending (mailbox_slot 3 s) = []"
  shows "mailbox_dispatcher_task mpidr (out, s) = Inr (out, s)"
proof -
  have "mailbox_receive 3 out s = Inr (0, out, s)"
    using mbx.recv_none [of 3 s out] reach_valid [OF assms(1) core_ok_cores(4)] assms(3) by blast
  then show ?thesis by (cases out) (simp add: mailbox_dispatcher_task_def Let_def cpu_3 [OF assms(2)])
qed

section \<open>Properties\<close>

text \<open>
  Property C4: the keyboard echo.  However the receiving and the echoing task of core 0
  interleave, the run returns; the bytes accepted into the ring are keys read from the device, in
  order, and all of them unless the ring can fill up; what is on the console is exactly the echo
  of the bytes taken from the ring, first in first out; nothing else of the shared state changes.
  The run ends early only at a Ctrl-C, with the global lock held.
\<close>
theorem keyboard_echo:
  assumes "rx_fair u" and "sys_ok s" and "sys_lock s = 0"
  shows "\<exists>e u' byte' s' acc rcv. kbd_run ts (u, byte, s) = Inr (e, u', byte', s') \<and>
    subseq acc (keys_read u u') \<and>
    (length (rb_list (sys_ring s)) + length (keys_read u u') \<le> 255 \<longrightarrow> acc = keys_read u u') \<and>
    rb_list (sys_ring s) @ acc = rcv @ rb_list (sys_ring s') \<and>
    sys_console s' = sys_console s @ concat (map echo_text rcv) \<and>
    (if e = Parked then sys_lock s' = 1 \<and> (\<exists>ks. rcv = ks @ [3] \<and> 3 \<notin> set ks)
     else sys_lock s' = 0 \<and> 3 \<notin> set rcv) \<and>
    sys_mailboxes s' = sys_mailboxes s \<and> sys_key s' = sys_key s"
  using kbd_run_echoes [OF assms, of ts byte] unfolding echoed_def by blast

definition typing :: "nat \<Rightarrow> uart" where
  "typing n = \<lparr>fr_env = (\<lambda>_. 0), fr_reads = 0, dr_env = (\<lambda>i. if i = n then 3 else 0x41 + of_nat i), dr_reads = 0,
     tx = []\<rparr>"

definition empty_keyboard :: system where
  "empty_keyboard = old_memory"

lemma empty_keyboard_ok: "sys_ok empty_keyboard" "sys_lock empty_keyboard = 0" "rb_list (sys_ring empty_keyboard) = []"
  by (simp_all add: empty_keyboard_def old_memory_def sys_ok_def old_mailbox_def rb_ok_def rb_list_def rb_count_def gap_def)

lemma typing_fair: "rx_fair (typing n)"
  by (auto simp: rx_fair_def typing_def has_data_def)

text \<open>One key, and nothing after it.\<close>

definition one_key :: uart where
  "one_key = typing 9\<lparr>fr_env := (\<lambda>i. if i < 2 then 0 else 0x10)\<rparr>"

lemma one_key_fair: "rx_fair one_key"
proof -
  have "held one_key n \<longleftrightarrow> n = 1" for n
    by (induction n) (auto simp: one_key_def typing_def has_data_def)
  then show ?thesis by (auto simp: rx_fair_def one_key_def typing_def has_data_def)
qed

lemma keyboard_echo_witness:
  "\<exists>e u' byte' s' rcv. kbd_run [True, False, True] (typing 9, 0, empty_keyboard) = Inr (e, u', byte', s') \<and>
     subseq (rcv @ rb_list (sys_ring s')) (keys_read (typing 9) u') \<and>
     sys_console s' = concat (map echo_text rcv)"
proof -
  have "sys_console empty_keyboard = []" by (simp add: empty_keyboard_def old_memory_def)
  moreover obtain e u' byte' s' acc rcv where
    "kbd_run [True, False, True] (typing 9, 0, empty_keyboard) = Inr (e, u', byte', s')"
    "subseq acc (keys_read (typing 9) u')" "rb_list (sys_ring empty_keyboard) @ acc = rcv @ rb_list (sys_ring s')"
    "sys_console s' = sys_console empty_keyboard @ concat (map echo_text rcv)"
    using keyboard_echo [OF typing_fair empty_keyboard_ok(1,2), of "[True, False, True]" 9 0] by blast
  ultimately show ?thesis by (auto simp: empty_keyboard_ok(3))
qed

text \<open>
  Property C30: Ctrl-C stops more than core 0.  Once the echo task has taken a Ctrl-C from the
  ring it is parked with the global lock held, so every later locked section, on any core, spins
  for ever, and so does the mailbox task of core 3 as soon as a message waits for it.
\<close>
theorem ctrl_c_stops_all:
  assumes "kbd_run ts (u, byte, s) = Inr (Parked, u', byte', s')"
    and "mail_reach n s" "sys_lock s = 0" "rx_fair u"
  shows "locked f s' = Inl Spinning \<and>
    (get_cpu_id mpidr = 3 \<and> pending (mailbox_slot 3 s) \<noteq> [] \<longrightarrow>
      mailbox_dispatcher_task mpidr (out, s') = Inl Spinning)"
proof -
  have "sys_ok s" using mail_reach_inv [OF assms(2)] by (simp add: mail_inv_def)
  then have s': "sys_lock s' = 1" "sys_mailboxes s' = sys_mailboxes s" "sys_key s' = sys_key s" "sys_ok s'"
    using kbd_run_echoes [OF assms(4) _ assms(3), of ts byte] assms(1) by (auto simp: echoed_def)
  have spin: "locked f t = Inl Spinning" if "sys_ok t" "sys_lock t = 1" for f t using that by (simp add: locked_spins)
  have reach: "mail_reach n s'" using assms(2) s' by (auto intro: mail_reach.other)
  have slot: "mailbox_slot 3 s' = mailbox_slot 3 s" by (simp add: mailbox_slot_def s'(2))
  have "mailbox_dispatcher_task mpidr (out, s') = Inl Spinning"
    if "get_cpu_id mpidr = 3" "pending (mailbox_slot 3 s) \<noteq> []"
  proof -
    have "\<exists>m. mailbox_slot 3 s = Ready m" using that(2) by (cases "mailbox_slot 3 s") auto
    then obtain m where "mailbox_slot 3 s' = Ready m" unfolding slot ..
    then obtain sa where sa: "mailbox_receive 3 out s' = Inr (1, m, sa)" "sys_lock sa = sys_lock s'" "mail_reach n sa"
      using receive_slots [OF reach core_ok_cores(4), of m out] by blast
    then have "sys_ok sa" using mail_reach_inv by (auto simp: mail_inv_def)
    with sa show ?thesis
      by (cases m) (simp add: mailbox_dispatcher_task_def Let_def cpu_3 [OF that(1)] spin s'(1))
  qed
  with spin [OF s'(4,1)] show ?thesis by blast
qed

lemma booted_lock [simp]: "sys_lock booted = 0" "rb_list (sys_ring booted) = []" "rb_ok (sys_ring booted)"
  by (simp_all add: booted_def old_memory_def rb_list_def rb_count_def gap_def rb_ok_def)

lemma ctrl_c_typed: "\<exists>u' s'. kbd_run [True, False] (typing 0, 0, booted) = Inr (Parked, u', 3, s')"
proof -
  obtain rb where rb: "ring_buffer_put (sys_ring booted) 3 = Inr (0, rb)" "rb_ok rb" "rb_list rb = [3]"
    using ring.put_room [of "sys_ring booted" 3] by auto
  let ?s = "booted\<lparr>sys_ring := rb\<rparr>"
  have poll: "poll_fr b u = Some (snd (read_fr u))" if "\<not> b (fst (read_fr u))" for b u
    using that by (subst poll_fr.simps) simp
  have "\<exists>u'. uart_rx_task (typing 0, booted) = Inr (u', ?s)"
    using rb(1)
    by (simp add: uart_rx_task_def uart_has_data_def uart_getc_def poll read_fr_def typing_def has_data_def)
  then obtain u' where "uart_rx_task (typing 0, booted) = Inr (u', ?s)" ..
  moreover obtain s' where "ring_consumer_task (0, ?s) = Inr (Parked, 3, s')"
    using consumer_some [of ?s 3 "[]" 0] rb(2,3) by auto
  ultimately show ?thesis by simp
qed

lemma ctrl_c_stops_all_witness:
  "\<exists>u' s'. kbd_run [True, False] (typing 0, 0, booted) = Inr (Parked, u', 3, s') \<and>
     locked (con_puts ''[Core 1]'') s' = Inl Spinning"
proof -
  obtain u' s' where "kbd_run [True, False] (typing 0, 0, booted) = Inr (Parked, u', 3, s')"
    using ctrl_c_typed by blast
  with ctrl_c_stops_all [OF _ booted_reach booted_lock(1) typing_fair, of "[True, False]" 0 0 u' 3 s']
  show ?thesis by blast
qed

text \<open>
  Property C8: the reply of the mailbox task.  A message waiting for core 3 is printed under the
  global lock and consumed; its sender gets an ACK with the data plus \<^verbatim>\<open>3 << 16\<close> if its mailbox has
  room, and nothing, silently, if a message is still waiting there; an ACK core 3 sends to itself
  is erased again; the other mailboxes keep their content and every lock is free.
\<close>
theorem mailbox_task_replies:
  assumes "mail_reach n s" and "sys_lock s = 0" and "get_cpu_id mpidr = 3"
    and "mailbox_slot 3 s = Ready (sender, ty, d)" and "sender < 4"
  shows "\<exists>s' n'. mailbox_dispatcher_task mpidr (out, s) = Inr ((sender, ty, d), s') \<and> mail_reach n' s' \<and>
    sys_lock s' = 0 \<and> (\<forall>c. core_ok c \<longrightarrow> mailbox_slot c s' =
      (if c = 3 then Empty
       else if c = uint sender \<and> pending (mailbox_slot c s) = [] then Ready (3, MSG_ACK, d + 0x30000)
       else mailbox_slot c s)) \<and>
    sys_console s' = sys_console s @ receive_log (mb_tag (mbox 3 s)) @ rx_text (sender, ty, d)"
  by (rule mailbox_task_step [OF assms])

lemma mailbox_task_replies_witness:
  "\<exists>s s'. mailbox_slot 3 s = Ready (0, 2, 0xDEAD) \<and>
     mailbox_dispatcher_task 0x80000003 ((0, 0, 0), s) = Inr ((0, 2, 0xDEAD), s') \<and>
     mailbox_slot 0 s' = Ready (3, MSG_ACK, 0x3DEAD) \<and> mailbox_slot 3 s' = Empty"
proof -
  obtain r s where r: "\<exists>n'. mail_reach n' s" "sys_lock s = sys_lock booted"
    "\<And>e. core_ok e \<Longrightarrow> mailbox_slot e s = (if e = 3 \<and> pending (mailbox_slot 3 booted) = []
       then Ready (ucast (0x80000000 :: u64) AND 0xFF, of_int 2, 0xDEAD) else mailbox_slot e booted)"
    by (rule send_slots [OF booted_reach core_ok_cores(4)]) (rule that)
  obtain n where "mail_reach n s" using r(1) ..
  then have s: "mail_reach n s" "sys_lock s = 0" "mailbox_slot 3 s = Ready (0, 2, 0xDEAD)"
    "pending (mailbox_slot 0 s) = []"
    using r(2) r(3) [of 0] r(3) [of 3] booted_valid [of 0] booted_valid [of 3] by simp_all
  have "get_cpu_id 0x80000003 = 3" by (simp add: get_cpu_id_def)
  from mailbox_task_replies [OF s(1,2) this s(3), of "(0, 0, 0)"] obtain s' where
    "mailbox_dispatcher_task 0x80000003 ((0, 0, 0), s) = Inr ((0, 2, 0xDEAD), s')"
    "\<forall>c. core_ok c \<longrightarrow> mailbox_slot c s' = (if c = 3 then Empty
       else if c = 0 \<and> pending (mailbox_slot c s) = [] then Ready (3, MSG_ACK, 0xDEAD + 0x30000)
       else mailbox_slot c s)"
    by auto
  with s(3,4) show ?thesis by (intro exI [of _ s] exI [of _ s']) simp
qed

text \<open>
  \<^verbatim>\<open>dispatcher_run\<close> enters the task of a known number and never returns; for any other
  16-bit number it prints that number and returns, changing nothing else.
\<close>
theorem dispatcher_run_cases:
  "dispatcher_run tid s = (if tid < 3 then Inl ([Uart_Rx, Ring_Consumer, Mailbox_Disp] ! unat tid)
     else Inr (log_text (''[DISPATCHER] Unknown task ID: '' @ puthex_text (ucast tid) @
            [carriage_return, newline]) s))"
proof -
  have "tid = 0 \<or> tid = 1 \<or> tid = 2" if "tid < 3"
  proof -
    have "unat tid < 3" using that by (simp add: word_less_nat_alt)
    then have "unat tid = 0 \<or> unat tid = 1 \<or> unat tid = 2" by linarith
    then show ?thesis by (auto simp: word_unat_eq_iff)
  qed
  moreover have "puts_text ''[DISPATCHER] Unknown task ID: '' = ''[DISPATCHER] Unknown task ID: ''"
    "puts_text [newline] = [carriage_return, newline]"
    by (simp_all add: puts_text_def newline_def nul_def)
  ultimately show ?thesis
    by (auto simp: dispatcher_run_def UART_RX_TASK_def RING_COSUMER_TASK_def MAILBOX_DISP_TASK_def con_log)
qed

end
