(* ===== verification/Trivial_Tests.thy ===== *)
theory Trivial_Tests
  imports Dispatcher
begin

text \<open>
  \<^verbatim>\<open>tests/trivial/tests.c\<close>: the communication tests core 0 runs after the boot.  \<open>delay n\<close>, the
  busy-wait of \<^verbatim>\<open>main.c\<close>, is a parameter: what the other cores do to the shared state meanwhile.
\<close>

section \<open>The tests\<close>

definition TEST_PING_DATA_BASE :: u32 where "TEST_PING_DATA_BASE = 0x1000"
definition TEST_DATA_BASE :: u32 where "TEST_DATA_BASE = 0xDEAD0000"
definition TEST_DATA_STEP :: u32 where "TEST_DATA_STEP = 0x100"
definition TEST_ACK_POLL_ROUNDS :: nat where "TEST_ACK_POLL_ROUNDS = 10"
definition TEST_DELAY_SHORT :: int where "TEST_DELAY_SHORT = 2000000"
definition TEST_DELAY_MEDIUM :: int where "TEST_DELAY_MEDIUM = 3000000"
definition TEST_DELAY_LONG :: int where "TEST_DELAY_LONG = 10000000"

type_synonym pause = "int \<Rightarrow> system \<Rightarrow> system exec"

definition test_print_pass :: "string \<Rightarrow> system \<Rightarrow> system exec" where
  "test_print_pass label = locked (\<lambda>s. con_puts [newline] (con_puts label (con_puts ''[PASS] '' s)))"

definition test_print_fail :: "string \<Rightarrow> string \<Rightarrow> system \<Rightarrow> system exec" where
  "test_print_fail label reason = locked (\<lambda>s. con_puts [newline] (con_puts reason
     (con_puts '' -> '' (con_puts label (con_puts ''[FAIL] '' s)))))"

text \<open>The loop over the destinations; the pair is \<^verbatim>\<open>result\<close> and the shared state.\<close>

fun ping_loop :: "u64 \<Rightarrow> pause \<Rightarrow> int list \<Rightarrow> int \<times> system \<Rightarrow> (int \<times> system) exec" where
  "ping_loop mpidr delay [] (result, s) = Inr (result, s)"
| "ping_loop mpidr delay (dest # dests) (result, s) =
     (let test_data = TEST_PING_DATA_BASE + of_int dest in
      bind_exec (mailbox_send mpidr dest (uint MSG_PING) test_data s) (\<lambda>(r, s).
      bind_exec (if r = 0 then
          bind_exec (locked (\<lambda>s. con_puts ('' PING sent'' @ [newline])
            (con_putc (digit_char (of_int dest)) (con_puts ''[Core 0] -> Core '' s))) s) (\<lambda>s. Inr (result, s))
        else bind_exec (test_print_fail ''Test1 PING'' ''mailbox_send returned -1'' s) (\<lambda>s. Inr (-1, s)))
        (\<lambda>(result, s).
      bind_exec (delay TEST_DELAY_SHORT s) (\<lambda>s. ping_loop mpidr delay dests (result, s)))))"

definition test1_ping_all_cores :: "u64 \<Rightarrow> pause \<Rightarrow> system \<Rightarrow> (int \<times> system) exec" where
  "test1_ping_all_cores mpidr delay s =
     bind_exec (locked (con_puts ([newline] @ ''[Core 0] Test 1: Sending PING to all cores'' @ [newline])) s) (\<lambda>s.
     bind_exec (ping_loop mpidr delay [1, 2, 3] (0, s)) (\<lambda>(result, s).
     bind_exec (delay TEST_DELAY_LONG s) (\<lambda>s.
       if result = 0 then bind_exec (test_print_pass ''Test1: PING to all cores'' s) (\<lambda>s. Inr (result, s))
       else Inr (result, s))))"

fun data_loop :: "u64 \<Rightarrow> pause \<Rightarrow> int list \<Rightarrow> system \<Rightarrow> system exec" where
  "data_loop mpidr delay [] s = Inr s"
| "data_loop mpidr delay (dest # dests) s =
     (let test_data = TEST_DATA_BASE + of_int dest * TEST_DATA_STEP in
      bind_exec (mailbox_send mpidr dest (uint MSG_DATA) test_data s) (\<lambda>(_, s).
      bind_exec (locked (\<lambda>s. con_puts [newline] (con_puthex (ucast test_data) (con_puts '' DATA: ''
          (con_putc (digit_char (of_int dest)) (con_puts ''[Core 0] -> Core '' s))))) s) (\<lambda>s.
      bind_exec (delay TEST_DELAY_SHORT s) (\<lambda>s. data_loop mpidr delay dests s))))"

text \<open>The polling loop; \<open>out\<close> are the local variables \<^verbatim>\<open>sender\<close>, \<^verbatim>\<open>msg_type\<close> and \<^verbatim>\<open>msg_data\<close>.\<close>

primrec poll_acks :: "pause \<Rightarrow> nat \<Rightarrow> message_out \<Rightarrow> int \<Rightarrow> system \<Rightarrow> (int \<times> system) exec" where
  "poll_acks delay 0 out acks s = Inr (acks, s)"
| "poll_acks delay (Suc i) out acks s =
     bind_exec (mailbox_receive 0 out s) (\<lambda>(r, (sender, msg_type, msg_data), s).
     bind_exec (if r = 1 then
         bind_exec (locked (\<lambda>s. con_puts [newline] (con_puthex (ucast msg_data) (con_puts '' | Data: ''
           (con_putc (digit_char sender) (con_puts ''[Core 0] <- ACK from Core '' s))))) s) (\<lambda>s.
         bind_exec (mailbox_clear 0 s) (\<lambda>s. Inr (acks + 1, s)))
       else Inr (acks, s)) (\<lambda>(acks, s).
     bind_exec (delay TEST_DELAY_MEDIUM s) (\<lambda>s. poll_acks delay i (sender, msg_type, msg_data) acks s)))"

definition test2_send_data_messages :: "u64 \<Rightarrow> pause \<Rightarrow> message_out \<Rightarrow> system \<Rightarrow> (int \<times> system) exec" where
  "test2_send_data_messages mpidr delay out s =
     bind_exec (locked (con_puts ([newline] @ ''[Core 0] Test 2: Sending DATA messages'' @ [newline])) s) (\<lambda>s.
     bind_exec (data_loop mpidr delay [1, 2, 3] s) (\<lambda>s.
     bind_exec (delay TEST_DELAY_LONG s) (\<lambda>s.
     bind_exec (locked (con_puts ([newline] @ ''[Core 0] Checking for ACK responses...'' @ [newline])) s) (\<lambda>s.
     bind_exec (poll_acks delay TEST_ACK_POLL_ROUNDS out 0 s) (\<lambda>(acks, s).
       if acks > 0 then
         bind_exec (test_print_pass ''Test2: DATA messages + ACK responses'' s) (\<lambda>s. Inr (0, s))
       else
         bind_exec (test_print_fail ''Test2 DATA'' ''No ACK received from secondary cores'' s) (\<lambda>s. Inr (-1, s)))))))"

definition test3_uart_rx_keyboard_simulation :: "system \<Rightarrow> system exec" where
  "test3_uart_rx_keyboard_simulation =
     locked (con_puts ([newline] @ ''[Test 3] UART RX live - Keyboard Simulation:'' @ [newline]))"

definition run_all_tests :: "u64 \<Rightarrow> pause \<Rightarrow> message_out \<Rightarrow> system \<Rightarrow> system exec" where
  "run_all_tests mpidr delay out s =
     bind_exec (locked (con_puts ([newline] @ ''=== [TEST SUITE] Starting All Tests ==='' @ [newline, newline])) s) (\<lambda>s.
     bind_exec (test1_ping_all_cores mpidr delay s) (\<lambda>(_, s).
     bind_exec (test2_send_data_messages mpidr delay out s) (\<lambda>(_, s).
       test3_uart_rx_keyboard_simulation s)))"

section \<open>What the other cores do\<close>

text \<open>
  After the boot cores 1 and 2 sleep; core 3 runs the mailbox task.  During a delay it gets
  through some number of iterations.
\<close>

fun core3_iterations :: "u64 \<Rightarrow> nat \<Rightarrow> system \<Rightarrow> system exec" where
  "core3_iterations mpidr 0 s = Inr s"
| "core3_iterations mpidr (Suc k) s =
     bind_exec (mailbox_dispatcher_task mpidr ((0, 0, 0), s)) (\<lambda>(out, s). core3_iterations mpidr k s)"

section \<open>Views of the shared state\<close>

text \<open>
  \<open>returns m P\<close>: the code returns a value satisfying \<open>P\<close>.  A view is what the tests depend on: the
  locks are free, the four slots, and a set the console text belongs to.
\<close>

definition returns :: "'a exec \<Rightarrow> ('a \<Rightarrow> bool) \<Rightarrow> bool" where
  "returns m P \<longleftrightarrow> (\<exists>x. m = Inr x \<and> P x)"

lemma returns_bind: "returns m Q \<Longrightarrow> (\<And>x. Q x \<Longrightarrow> returns (f x) P) \<Longrightarrow> returns (bind_exec m f) P"
  by (auto simp: returns_def)

lemma returns_Inr [simp]: "returns (Inr x) P = P x"
  by (simp add: returns_def)

definition view :: "message_out slot list \<Rightarrow> string set \<Rightarrow> system \<Rightarrow> bool" where
  "view slots log s \<longleftrightarrow> (\<exists>n. mail_reach n s) \<and> sys_lock s = 0 \<and>
     slots = map (\<lambda>c. mailbox_slot c s) [0, 1, 2, 3] \<and> sys_console s \<in> log"

lemma view_any: "view slots L s \<Longrightarrow> view slots UNIV s"
  by (simp add: view_def)

definition then_text :: "string set \<Rightarrow> string \<Rightarrow> string set" where
  "then_text L t = (\<lambda>a. a @ t) ` L"

definition then_tag :: "string set \<Rightarrow> string set" where
  "then_tag L = (\<Union>a\<in>L. range (\<lambda>tag. a @ receive_log tag))"

lemma view_slot: "view slots L s \<Longrightarrow> core_ok c \<Longrightarrow> slots ! nat c = mailbox_slot c s \<and> nat c < length slots"
proof -
  assume "view slots L s" "core_ok c"
  moreover from this(2) have "c = 0 \<or> c = 1 \<or> c = 2 \<or> c = 3" by (auto simp: core_ok_def)
  ultimately show ?thesis by (auto simp: view_def eval_nat_numeral)
qed

lemma view_update:
  assumes "view slots L s" and "core_ok c" and "\<exists>n. mail_reach n s'" "sys_lock s' = 0" "sys_console s' \<in> L'"
    and "\<And>e. core_ok e \<Longrightarrow> mailbox_slot e s' = (if e = c then x else mailbox_slot e s)"
  shows "view (slots[nat c := x]) L' s'"
proof -
  have "c = 0 \<or> c = 1 \<or> c = 2 \<or> c = 3" using assms(2) by (auto simp: core_ok_def)
  with assms show ?thesis by (auto simp: view_def eval_nat_numeral)
qed

lemma view_locked:
  assumes "view slots L s"
  shows "returns (locked (log_text t) s) (view slots (then_text L t))"
proof -
  have "locked (log_text t) s = Inr (log_text t s)" using assms by (intro locked_log) (simp_all add: view_def)
  with assms show ?thesis by (auto simp: view_def then_text_def intro: reach_log)
qed

lemma view_send:
  assumes "view slots L s" "core_ok c"
  shows "returns (mailbox_send mpidr c ty d s) (\<lambda>(r, s').
     if pending (slots ! nat c) = [] then r = 0 \<and> view (slots[nat c := Ready (ucast mpidr AND 0xFF, of_int ty, d)]) L s'
     else r = -1 \<and> view slots L s')"
proof -
  obtain n where "mail_reach n s" using assms(1) by (auto simp: view_def)
  then obtain r s' where s': "mailbox_send mpidr c ty d s = Inr (r, s')" "\<exists>n'. mail_reach n' s'"
    "r = (if pending (mailbox_slot c s) = [] then 0 else -1)"
    "sys_lock s' = sys_lock s" "sys_console s' = sys_console s"
    "\<And>e. core_ok e \<Longrightarrow> mailbox_slot e s' = (if e = c \<and> pending (mailbox_slot c s) = []
       then Ready (ucast mpidr AND 0xFF, of_int ty, d) else mailbox_slot e s)"
    by (rule send_slots [OF _ assms(2)]) (rule that)
  note slot = view_slot [OF assms]
  have same: "slots[nat c := mailbox_slot c s] = slots" using slot by (metis list_update_id)
  have "view (slots[nat c := mailbox_slot c s']) L s'"
    using assms(1) s' by (intro view_update [OF assms]) (auto simp: view_def)
  then show ?thesis using s' slot assms(2) same by (auto simp: returns_def)
qed

lemma view_receive:
  assumes "view slots L s" "core_ok c" "slots ! nat c = Ready m"
  shows "returns (mailbox_receive c out s) (\<lambda>(r, out, s'). r = 1 \<and> out = m \<and> view (slots[nat c := Taken]) (then_tag L) s')"
proof -
  obtain n where n: "mail_reach n s" using assms(1) by (auto simp: view_def)
  have "mailbox_slot c s = Ready m" using view_slot [OF assms(1,2)] assms(3) by simp
  from receive_slots [OF n assms(2) this, of out] obtain s' where s': "mailbox_receive c out s = Inr (1, m, s')"
    "mail_reach n s'" "sys_lock s' = sys_lock s"
    "\<And>d. core_ok d \<Longrightarrow> mailbox_slot d s' = (if d = c then Taken else mailbox_slot d s)"
    "sys_console s' = sys_console s @ receive_log (mb_tag (mbox c s))"
    by blast
  have "view (slots[nat c := Taken]) (then_tag L) s'"
    using assms(1) s' by (intro view_update [OF assms(1,2)]) (auto simp: view_def then_tag_def)
  with s'(1) show ?thesis by simp
qed

lemma view_receive_none:
  assumes "view slots L s" "core_ok c" "pending (slots ! nat c) = []"
  shows "mailbox_receive c out s = Inr (0, out, s)"
proof -
  obtain n where "mail_reach n s" using assms(1) by (auto simp: view_def)
  then show ?thesis using mbx.recv_none [of c s out] reach_valid [OF _ assms(2)] view_slot [OF assms(1,2)] assms(3) by auto
qed

lemma view_clear:
  assumes "view slots L s" "core_ok c"
  shows "returns (mailbox_clear c s) (view (slots[nat c := Empty]) L)"
proof -
  obtain n where n: "mail_reach n s" using assms(1) by (auto simp: view_def)
  from clear_slots [OF n assms(2)] obtain s' where s': "mailbox_clear c s = Inr s'" "mail_reach n s'"
    "sys_lock s' = sys_lock s" "sys_console s' = sys_console s"
    "\<And>e. core_ok e \<Longrightarrow> mailbox_slot e s' = (if e = c then Empty else mailbox_slot e s)"
    by blast
  have "view (slots[nat c := Empty]) L s'"
    using assms(1) s' by (intro view_update [OF assms]) (auto simp: view_def)
  with s'(1) show ?thesis by simp
qed

section \<open>The tests, loop body by loop body\<close>

definition ping_text :: "int \<Rightarrow> string" where
  "ping_text dest = puts_text ''[Core 0] -> Core '' @ [digit_char (of_int dest)] @ puts_text ('' PING sent'' @ [newline])"

definition data_text :: "int \<Rightarrow> string" where
  "data_text dest = puts_text ''[Core 0] -> Core '' @ [digit_char (of_int dest)] @ puts_text '' DATA: '' @
     puthex_text (ucast (TEST_DATA_BASE + of_int dest * TEST_DATA_STEP)) @ puts_text [newline]"

definition ack_text :: "u32 \<Rightarrow> u32 \<Rightarrow> string" where
  "ack_text sender d = puts_text ''[Core 0] <- ACK from Core '' @ [digit_char sender] @ puts_text '' | Data: '' @
     puthex_text (ucast d) @ puts_text [newline]"

definition line :: "string \<Rightarrow> string" where
  "line str = puts_text ([newline] @ str @ [newline])"

definition pass_text :: "string \<Rightarrow> string" where
  "pass_text label = puts_text ''[PASS] '' @ puts_text label @ puts_text [newline]"

definition fail_text :: "string \<Rightarrow> string \<Rightarrow> string" where
  "fail_text label reason = puts_text ''[FAIL] '' @ puts_text label @ puts_text '' -> '' @ puts_text reason @
     puts_text [newline]"

lemma con_puts_log: "con_puts str = log_text (puts_text str)"
  by (simp add: fun_eq_iff con_log)

lemma printed:
  "locked (\<lambda>s. con_puts ('' PING sent'' @ [newline]) (con_putc (digit_char (of_int dest))
     (con_puts ''[Core 0] -> Core '' s))) = locked (log_text (ping_text dest))"
  "locked (\<lambda>s. con_puts [newline] (con_puthex (ucast (TEST_DATA_BASE + of_int dest * TEST_DATA_STEP))
     (con_puts '' DATA: '' (con_putc (digit_char (of_int dest)) (con_puts ''[Core 0] -> Core '' s))))) =
   locked (log_text (data_text dest))"
  "locked (\<lambda>s. con_puts [newline] (con_puthex (ucast d) (con_puts '' | Data: ''
     (con_putc (digit_char sender) (con_puts ''[Core 0] <- ACK from Core '' s))))) = locked (log_text (ack_text sender d))"
  "locked (con_puts ([newline] @ str @ [newline])) = locked (log_text (line str))"
  "test_print_pass label = locked (log_text (pass_text label))"
  "test_print_fail label reason = locked (log_text (fail_text label reason))"
  by (simp_all add: test_print_pass_def test_print_fail_def con_log con_puts_log ping_text_def data_text_def
      ack_text_def line_def pass_text_def fail_text_def)

text \<open>Core 0's number in \<^verbatim>\<open>mpidr_el1\<close>; the messages it sends.\<close>

definition ping :: "int \<Rightarrow> message_out slot" where
  "ping dest = Ready (0, MSG_PING, 0x1000 + of_int dest)"

definition datum :: "int \<Rightarrow> message_out slot" where
  "datum dest = Ready (0, MSG_DATA, 0xDEAD0000 + of_int dest * 0x100)"

lemma ping_sent:
  assumes "view slots L s" "core_ok dest" "ucast mpidr AND 0xFF = (0 :: u32)" "pending (slots ! nat dest) = []"
    and "\<And>s. view (slots[nat dest := ping dest]) (then_text L (ping_text dest)) s \<Longrightarrow>
      returns (bind_exec (delay TEST_DELAY_SHORT s) (\<lambda>s. ping_loop mpidr delay dests (r, s))) P"
  shows "returns (ping_loop mpidr delay (dest # dests) (r, s)) P"
proof -
  obtain s1 where s1: "mailbox_send mpidr dest (uint MSG_PING) (TEST_PING_DATA_BASE + of_int dest) s = Inr (0, s1)"
    "view (slots[nat dest := ping dest]) L s1"
    using view_send [OF assms(1,2), of mpidr "uint MSG_PING" "TEST_PING_DATA_BASE + of_int dest"] assms(3,4)
    by (auto simp: returns_def ping_def TEST_PING_DATA_BASE_def)
  obtain s2 where s2: "locked (log_text (ping_text dest)) s1 = Inr s2"
    "view (slots[nat dest := ping dest]) (then_text L (ping_text dest)) s2"
    using view_locked [OF s1(2)] by (auto simp: returns_def)
  show ?thesis unfolding ping_loop.simps Let_def printed using assms(5) [OF s2(2)] s1(1) s2(1) by simp
qed

lemma data_sent:
  assumes "view slots L s" "core_ok dest" "ucast mpidr AND 0xFF = (0 :: u32)"
    and "\<And>s. view (if pending (slots ! nat dest) = [] then slots[nat dest := datum dest] else slots)
        (then_text L (data_text dest)) s \<Longrightarrow>
      returns (bind_exec (delay TEST_DELAY_SHORT s) (\<lambda>s. data_loop mpidr delay dests s)) P"
  shows "returns (data_loop mpidr delay (dest # dests) s) P"
proof -
  obtain r s1 where s1: "mailbox_send mpidr dest (uint MSG_DATA) (TEST_DATA_BASE + of_int dest * TEST_DATA_STEP) s =
      Inr (r, s1)"
    "view (if pending (slots ! nat dest) = [] then slots[nat dest := datum dest] else slots) L s1"
    using view_send [OF assms(1,2), of mpidr "uint MSG_DATA" "TEST_DATA_BASE + of_int dest * TEST_DATA_STEP"] assms(3)
    by (auto simp: returns_def datum_def TEST_DATA_BASE_def TEST_DATA_STEP_def split: if_splits)
  obtain s2 where s2: "locked (log_text (data_text dest)) s1 = Inr s2"
    "view (if pending (slots ! nat dest) = [] then slots[nat dest := datum dest] else slots)
       (then_text L (data_text dest)) s2"
    using view_locked [OF s1(2)] by (auto simp: returns_def)
  show ?thesis unfolding data_loop.simps Let_def printed using assms(4) [OF s2(2)] s1(1) s2(1) by simp
qed

lemma poll_hit:
  assumes "view slots L s" "slots ! 0 = Ready (sender, ty, d)"
    and "\<And>s. view (slots[0 := Empty]) (then_text (then_tag L) (ack_text sender d)) s \<Longrightarrow>
      returns (bind_exec (delay TEST_DELAY_MEDIUM s) (\<lambda>s. poll_acks delay i (sender, ty, d) (acks + 1) s)) P"
  shows "returns (poll_acks delay (Suc i) out acks s) P"
proof -
  obtain s1 where s1: "mailbox_receive 0 out s = Inr (1, (sender, ty, d), s1)" "view (slots[0 := Taken]) (then_tag L) s1"
    using view_receive [OF assms(1) core_ok_cores(1), of "(sender, ty, d)" out] assms(2) by (auto simp: returns_def)
  obtain s2 where s2: "locked (log_text (ack_text sender d)) s1 = Inr s2"
    "view (slots[0 := Taken]) (then_text (then_tag L) (ack_text sender d)) s2"
    using view_locked [OF s1(2)] by (auto simp: returns_def)
  obtain s3 where s3: "mailbox_clear 0 s2 = Inr s3"
    "view (slots[0 := Empty]) (then_text (then_tag L) (ack_text sender d)) s3"
    using view_clear [OF s2(2) core_ok_cores(1)] by (auto simp: returns_def)
  show ?thesis unfolding poll_acks.simps printed using assms(3) [OF s3(2)] s1(1) s2(1) s3(1) by simp
qed

text \<open>Nothing in mailbox 0, and the delays change nothing: the rest of the rounds is idle.\<close>

lemma poll_idle:
  assumes "view slots L s" "pending (slots ! 0) = []" "delay TEST_DELAY_MEDIUM s = Inr s"
  shows "poll_acks delay i out acks s = Inr (acks, s)"
  using view_receive_none [OF assms(1) core_ok_cores(1), of out] assms(2,3)
  by (induction i) (auto split: prod.split)

text \<open>Core 3 during a delay.\<close>

lemma core3_idle:
  assumes "view slots L s" "pending (slots ! 3) = []" "get_cpu_id m3 = 3"
  shows "core3_iterations m3 k s = Inr s"
proof -
  obtain n where n: "mail_reach n s" using assms(1) by (auto simp: view_def)
  have "pending (mailbox_slot 3 s) = []" using view_slot [OF assms(1) core_ok_cores(4)] assms(2) by simp
  from mailbox_task_nothing [OF n assms(3) this] show ?thesis by (induction k) simp_all
qed

lemma core3_replies:
  assumes "view slots L s" "slots ! 3 = Ready (0, ty, d)" "get_cpu_id m3 = 3" "k > 0"
  shows "returns (core3_iterations m3 k s)
    (view ((if pending (slots ! 0) = [] then slots[0 := Ready (3, MSG_ACK, d + 0x30000)] else slots)[3 := Empty])
      (then_text (then_tag L) (rx_text (0, ty, d))))"
proof -
  obtain n where n: "mail_reach n s" and lock: "sys_lock s = 0"
    and slots: "slots = map (\<lambda>c. mailbox_slot c s) [0, 1, 2, 3]" and con: "sys_console s \<in> L"
    using assms(1) by (auto simp: view_def)
  have "mailbox_slot 3 s = Ready (0, ty, d)" using view_slot [OF assms(1) core_ok_cores(4)] assms(2) by simp
  from mailbox_task_step [OF n lock assms(3) this, of "(0, 0, 0)"] obtain s' n' where
    s': "mailbox_dispatcher_task m3 ((0, 0, 0), s) = Inr ((0, ty, d), s')" "mail_reach n' s'" "sys_lock s' = 0"
    "\<forall>c. core_ok c \<longrightarrow> mailbox_slot c s' = (if c = 3 then Empty
       else if c = 0 \<and> pending (mailbox_slot c s) = [] then Ready (3, MSG_ACK, d + 0x30000) else mailbox_slot c s)"
    "sys_console s' = sys_console s @ receive_log (mb_tag (mbox 3 s)) @ rx_text (0, ty, d)"
    by auto
  have view: "view ((if pending (slots ! 0) = [] then slots[0 := Ready (3, MSG_ACK, d + 0x30000)] else slots)[3 := Empty])
      (then_text (then_tag L) (rx_text (0, ty, d))) s'"
    using s'(2-5) con unfolding view_def slots
    by (auto simp: then_text_def then_tag_def image_iff)
  obtain j where "k = Suc j" using assms(4) by (cases k) auto
  moreover have "core3_iterations m3 j s' = Inr s'"
    by (rule core3_idle [OF view _ assms(3)]) (simp add: slots)
  ultimately show ?thesis using s'(1) view by simp
qed

section \<open>The whole run\<close>

definition core3_delay :: "u64 \<Rightarrow> (int \<Rightarrow> nat) \<Rightarrow> pause" where
  "core3_delay m3 k n = core3_iterations m3 (k n)"

lemma pause_idle:
  "view slots L s \<Longrightarrow> pending (slots ! 3) = [] \<Longrightarrow> get_cpu_id m3 = 3 \<Longrightarrow>
    returns (core3_delay m3 k n s) (view slots L)"
  by (simp add: core3_delay_def core3_idle)

lemma ping_phase:
  assumes "view [Empty, Empty, Empty, Empty] L s" "ucast mpidr AND 0xFF = (0 :: u32)" "get_cpu_id m3 = 3"
    and "\<And>n. k n > 0"
  shows "returns (ping_loop mpidr (core3_delay m3 k) [1, 2, 3] (r, s)) (\<lambda>(r', s'). r' = r \<and>
    view [Ready (3, MSG_ACK, 0x31003), ping 1, ping 2, Empty]
      (then_text (then_tag (then_text (then_text (then_text L (ping_text 1)) (ping_text 2)) (ping_text 3)))
         (rx_text (0, MSG_PING, 0x1003))) s')"
  apply (rule ping_sent [OF assms(1) core_ok_cores(2) assms(2)])
   apply simp
  apply (simp add: core3_delay_def core3_idle [OF _ _ assms(3)] del: ping_loop.simps)
  apply (rule ping_sent [OF _ core_ok_cores(3) assms(2)], assumption)
   apply simp
  apply (simp add: core3_delay_def core3_idle [OF _ _ assms(3)] del: ping_loop.simps)
  apply (rule ping_sent [OF _ core_ok_cores(4) assms(2)], assumption)
   apply simp
  apply (rule returns_bind)
  unfolding core3_delay_def
   apply (rule core3_replies [OF _ _ assms(3,4)], assumption)
   apply (simp add: ping_def)
  apply (simp add: ping_def)
  done

lemma data_phase:
  assumes "view [Ready ack, ping 1, ping 2, Empty] L s" "ucast mpidr AND 0xFF = (0 :: u32)" "get_cpu_id m3 = 3"
    and "\<And>n. k n > 0"
  shows "returns (data_loop mpidr (core3_delay m3 k) [1, 2, 3] s)
    (view [Ready ack, ping 1, ping 2, Empty]
      (then_text (then_tag (then_text (then_text (then_text L (data_text 1)) (data_text 2)) (data_text 3)))
         (rx_text (0, MSG_DATA, 0xDEAD0300))))"
  apply (rule data_sent [OF assms(1) core_ok_cores(2) assms(2)])
  apply (simp add: core3_delay_def ping_def core3_idle [OF _ _ assms(3)] del: data_loop.simps)
  apply (rule data_sent [OF _ core_ok_cores(3) assms(2)], assumption)
  apply (simp add: core3_delay_def core3_idle [OF _ _ assms(3)] del: data_loop.simps)
  apply (rule data_sent [OF _ core_ok_cores(4) assms(2)], assumption)
  apply (rule returns_bind)
  unfolding core3_delay_def
   apply (rule core3_replies [OF _ _ assms(3,4)], assumption)
   apply (simp add: datum_def)
  apply (simp add: datum_def ping_def)
  done

lemma poll_phase:
  assumes "view [Ready (sender, ty, d), a, b, Empty] L s" "get_cpu_id m3 = 3"
  shows "returns (poll_acks (core3_delay m3 k) (Suc i) out 0 s) (\<lambda>(acks, s'). acks = 1 \<and>
    view [Empty, a, b, Empty] (then_text (then_tag L) (ack_text sender d)) s')"
  apply (rule poll_hit [OF assms(1)])
   apply simp
  apply (simp add: core3_delay_def core3_idle [OF _ _ assms(2)])
  apply (subst poll_idle, assumption)
    apply (simp_all add: core3_delay_def core3_idle [OF _ _ assms(2)])
  done

definition test1_log :: "string set \<Rightarrow> string set" where
  "test1_log L = then_text (then_text (then_tag (then_text (then_text (then_text
     (then_text L (line ''[Core 0] Test 1: Sending PING to all cores''))
     (ping_text 1)) (ping_text 2)) (ping_text 3)))
     (rx_text (0, MSG_PING, 0x1003))) (pass_text ''Test1: PING to all cores'')"

definition test2_log :: "string set \<Rightarrow> string set" where
  "test2_log L = then_text (then_text (then_tag (then_text (then_text (then_tag (then_text (then_text (then_text
     (then_text L (line ''[Core 0] Test 2: Sending DATA messages''))
     (data_text 1)) (data_text 2)) (data_text 3)))
     (rx_text (0, MSG_DATA, 0xDEAD0300))) (line ''[Core 0] Checking for ACK responses...'')))
     (ack_text 3 0x31003)) (pass_text ''Test2: DATA messages + ACK responses'')"

lemma test1_run:
  assumes "view [Empty, Empty, Empty, Empty] L s" "ucast mpidr AND 0xFF = (0 :: u32)" "get_cpu_id m3 = 3"
    and "\<And>n. k n > 0"
  shows "returns (test1_ping_all_cores mpidr (core3_delay m3 k) s) (\<lambda>(r, s'). r = 0 \<and>
    view [Ready (3, MSG_ACK, 0x31003), ping 1, ping 2, Empty] (test1_log L) s')"
  unfolding test1_ping_all_cores_def printed test1_log_def
  apply (rule returns_bind [OF view_locked [OF assms(1)]])
  apply (rule returns_bind [OF ping_phase [OF _ assms(2-4)]], assumption)
  apply (clarsimp simp del: append.simps)
  apply (rule returns_bind [OF pause_idle [OF _ _ assms(3)]], assumption, simp)
  apply (rule returns_bind [OF view_locked], assumption)
  apply simp
  done

lemma test2_run:
  assumes "view [Ready (3, MSG_ACK, 0x31003), ping 1, ping 2, Empty] L s" "ucast mpidr AND 0xFF = (0 :: u32)"
    and "get_cpu_id m3 = 3" "\<And>n. k n > 0"
  shows "returns (test2_send_data_messages mpidr (core3_delay m3 k) out s) (\<lambda>(r, s'). r = 0 \<and>
    view [Empty, ping 1, ping 2, Empty] (test2_log L) s')"
  unfolding test2_send_data_messages_def printed test2_log_def TEST_ACK_POLL_ROUNDS_def
  apply (rule returns_bind [OF view_locked [OF assms(1)]])
  apply (rule returns_bind [OF data_phase [OF _ assms(2-4)]], assumption)
  apply (rule returns_bind [OF pause_idle [OF _ _ assms(3)]], assumption, simp)
  apply (rule returns_bind [OF view_locked], assumption)
  apply (rule returns_bind [OF poll_phase [OF _ assms(3), where i = 9, simplified]], assumption)
  apply (clarsimp simp del: append.simps)
  apply (rule returns_bind [OF view_locked], assumption)
  apply simp
  done

lemma run_all_tests_run:
  assumes "view [Empty, Empty, Empty, Empty] UNIV s" "ucast mpidr AND 0xFF = (0 :: u32)" "get_cpu_id m3 = 3"
    and "\<And>n. k n > 0"
  shows "returns (run_all_tests mpidr (core3_delay m3 k) out s) (view [Empty, ping 1, ping 2, Empty] UNIV)"
proof -
  let ?str = "''=== [TEST SUITE] Starting All Tests ==='' @ [newline]"
  have suite: "[newline] @ ''=== [TEST SUITE] Starting All Tests ==='' @ [newline, newline] =
    [newline] @ ?str @ [newline]" by simp
  obtain s1 where s1: "locked (log_text (line ?str)) s = Inr s1" "view [Empty, Empty, Empty, Empty] UNIV s1"
    using view_locked [OF assms(1)] view_any unfolding returns_def by blast
  obtain s2 where s2: "test1_ping_all_cores mpidr (core3_delay m3 k) s1 = Inr (0, s2)"
    "view [Ready (3, MSG_ACK, 0x31003), ping 1, ping 2, Empty] (test1_log UNIV) s2"
    using test1_run [where k = k, OF s1(2) assms(2-4)] by (auto simp: returns_def)
  obtain s3 where s3: "test2_send_data_messages mpidr (core3_delay m3 k) out s2 = Inr (0, s3)"
    "view [Empty, ping 1, ping 2, Empty] (test2_log UNIV) s3"
    using test2_run [where k = k and out = out, OF view_any [OF s2(2)] assms(2-4)] by (auto simp: returns_def)
  obtain s4 where "test3_uart_rx_keyboard_simulation s3 = Inr s4" "view [Empty, ping 1, ping 2, Empty] UNIV s4"
    using view_locked [OF s3(2)] view_any unfolding returns_def test3_uart_rx_keyboard_simulation_def printed by blast
  then show ?thesis unfolding run_all_tests_def suite printed using s1(1) s2(1) s3(1) by simp
qed

section \<open>The tests leave the ring buffer alone\<close>

lemma acquire_ring: "mailbox_acquire c s = Inr (mb, s') \<Longrightarrow> sys_ring s' = sys_ring s"
  by (auto simp: mailbox_acquire_def bind_exec_Inr_iff)

lemma release_ring [simp]: "sys_ring (mailbox_release c mb s) = sys_ring s"
  by (simp add: mailbox_release_def)

lemma send_ring: "mailbox_send mpidr c ty d s = Inr (r, s') \<Longrightarrow> sys_ring s' = sys_ring s"
  by (auto simp: mailbox_send_def bind_exec_Inr_iff Let_def dest!: acquire_ring split: if_splits)

lemma receive_ring: "mailbox_receive c out s = Inr (r, out', s') \<Longrightarrow> sys_ring s' = sys_ring s"
  by (auto simp: mailbox_receive_def bind_exec_Inr_iff Let_def dest!: acquire_ring split: if_splits)

lemma clear_ring: "mailbox_clear c s = Inr s' \<Longrightarrow> sys_ring s' = sys_ring s"
  by (auto simp: mailbox_clear_def bind_exec_Inr_iff dest!: acquire_ring)

lemma locked_ring: "locked (log_text t) s = Inr s' \<Longrightarrow> sys_ring s' = sys_ring s"
  by (auto simp: locked_def acquire_global_def release_global_def bind_exec_Inr_iff)

lemma rx_line_fun: "rx_line m = log_text (rx_text m)"
  by (simp add: fun_eq_iff rx_line_log)

lemma mailbox_task_ring: "mailbox_dispatcher_task mpidr x = Inr (out', s') \<Longrightarrow> sys_ring s' = sys_ring (snd x)"
  by (auto simp: mailbox_dispatcher_task_def bind_exec_Inr_iff Let_def rx_line_fun
      dest!: receive_ring send_ring clear_ring locked_ring split: if_splits prod.splits)

lemmas op_rings = receive_ring send_ring clear_ring locked_ring

lemma core3_ring: "core3_iterations mpidr k s = Inr s' \<Longrightarrow> sys_ring s' = sys_ring s"
proof (induction k arbitrary: s)
  case (Suc k)
  then show ?case by (auto simp: bind_exec_Inr_iff dest!: mailbox_task_ring)
qed simp

text \<open>A delay in which the ring buffer rests.\<close>

definition ring_rests :: "pause \<Rightarrow> bool" where
  "ring_rests delay \<longleftrightarrow> (\<forall>n s s'. delay n s = Inr s' \<longrightarrow> sys_ring s' = sys_ring s)"

lemma ring_restsD: "delay n s = Inr s' \<Longrightarrow> ring_rests delay \<Longrightarrow> sys_ring s' = sys_ring s"
  by (simp add: ring_rests_def)

lemma core3_rests: "ring_rests (core3_delay m3 k)"
  by (auto simp: ring_rests_def core3_delay_def dest: core3_ring)

lemma ping_loop_ring:
  "ping_loop mpidr delay ds (r, s) = Inr (r', s') \<Longrightarrow> ring_rests delay \<Longrightarrow> sys_ring s' = sys_ring s"
proof (induction ds arbitrary: r s)
  case (Cons d ds)
  from Cons.prems(1) obtain r1 s1 r2 s2 s3
    where a: "mailbox_send mpidr d (uint MSG_PING) (TEST_PING_DATA_BASE + of_int d) s = Inr (r1, s1)"
    and b: "(if r1 = 0 then bind_exec (locked (log_text (ping_text d)) s1) (\<lambda>s. Inr (r, s))
        else bind_exec (locked (log_text (fail_text ''Test1 PING'' ''mailbox_send returned -1'')) s1) (\<lambda>s. Inr (-1, s))) = Inr (r2, s2)"
    and c: "delay TEST_DELAY_SHORT s2 = Inr s3" and d: "ping_loop mpidr delay ds (r2, s3) = Inr (r', s')"
    unfolding ping_loop.simps Let_def printed by (auto simp: bind_exec_Inr_iff)
  have "sys_ring s2 = sys_ring s1" using b by (auto simp: bind_exec_Inr_iff dest: locked_ring split: if_splits)
  with send_ring [OF a] ring_restsD [OF c Cons.prems(2)] Cons.IH [OF d Cons.prems(2)] show ?case by simp
qed simp

lemma data_loop_ring:
  "data_loop mpidr delay ds s = Inr s' \<Longrightarrow> ring_rests delay \<Longrightarrow> sys_ring s' = sys_ring s"
proof (induction ds arbitrary: s)
  case (Cons d ds)
  from Cons.prems(1) obtain r1 s1 s2 s3
    where "mailbox_send mpidr d (uint MSG_DATA) (TEST_DATA_BASE + of_int d * TEST_DATA_STEP) s = Inr (r1, s1)"
      "locked (log_text (data_text d)) s1 = Inr s2"
      "delay TEST_DELAY_SHORT s2 = Inr s3" "data_loop mpidr delay ds s3 = Inr s'"
    unfolding data_loop.simps Let_def printed by (auto simp: bind_exec_Inr_iff)
  with Cons.IH [of s3] Cons.prems(2) show ?case by (simp add: send_ring locked_ring ring_restsD)
qed simp

lemma poll_acks_ring:
  "poll_acks delay i out acks s = Inr (acks', s') \<Longrightarrow> ring_rests delay \<Longrightarrow> sys_ring s' = sys_ring s"
proof (induction i arbitrary: out acks s)
  case (Suc i)
  from Suc.prems(1) obtain r sender ty d s1 acks2 s2 s3
    where a: "mailbox_receive 0 out s = Inr (r, (sender, ty, d), s1)"
    and b: "(if r = 1 then bind_exec (locked (log_text (ack_text sender d)) s1) (\<lambda>s.
        bind_exec (mailbox_clear 0 s) (\<lambda>s. Inr (acks + 1, s))) else Inr (acks, s1)) = Inr (acks2, s2)"
    and c: "delay TEST_DELAY_MEDIUM s2 = Inr s3" and d: "poll_acks delay i (sender, ty, d) acks2 s3 = Inr (acks', s')"
    unfolding poll_acks.simps printed by (auto simp: bind_exec_Inr_iff)
  have "sys_ring s2 = sys_ring s1"
    using b by (auto simp: bind_exec_Inr_iff dest!: locked_ring clear_ring split: if_splits)
  with receive_ring [OF a] ring_restsD [OF c Suc.prems(2)] Suc.IH [OF d Suc.prems(2)] show ?case by simp
qed simp

lemma run_all_tests_ring:
  assumes "run_all_tests mpidr delay out s = Inr s'" "ring_rests delay"
  shows "sys_ring s' = sys_ring s"
proof -
  note rests = ring_restsD [OF _ assms(2)]
  have t1: "sys_ring y = sys_ring x" if "test1_ping_all_cores mpidr delay x = Inr (r, y)" for r x y
    using that unfolding test1_ping_all_cores_def printed
    by (auto simp: bind_exec_Inr_iff dest!: locked_ring ping_loop_ring [OF _ assms(2)] rests split: if_splits
        simp del: ping_loop.simps)
  have t2: "sys_ring y = sys_ring x" if "test2_send_data_messages mpidr delay out x = Inr (r, y)" for r x y
    using that unfolding test2_send_data_messages_def printed
    by (auto simp: bind_exec_Inr_iff dest!: locked_ring data_loop_ring [OF _ assms(2)] poll_acks_ring [OF _ assms(2)] rests
        split: if_splits simp del: data_loop.simps)
  show ?thesis
    using assms(1) unfolding run_all_tests_def test3_uart_rx_keyboard_simulation_def con_puts_log
    by (auto simp: bind_exec_Inr_iff dest!: locked_ring t1 t2)
qed
section \<open>Cores that never answer\<close>

lemma ping_silent:
  assumes "view slots UNIV s" "ucast mpidr AND 0xFF = (0 :: u32)" "distinct dests" "\<forall>c \<in> set dests. core_ok c"
  shows "returns (ping_loop mpidr (\<lambda>_. Inr) dests (r, s)) (\<lambda>(r', s').
    r' = (if \<forall>c \<in> set dests. pending (slots ! nat c) = [] then r else -1) \<and>
    (\<exists>slots'. view slots' UNIV s'))"
  using assms(1,3,4)
proof (induction dests arbitrary: slots s r)
  case Nil
  then show ?case by auto
next
  case (Cons c cs)
  have c: "core_ok c" "\<forall>d \<in> set cs. core_ok d \<and> d \<noteq> c" using Cons.prems by auto
  have other: "slots[nat c := x] ! nat d = slots ! nat d" if "d \<in> set cs" for d x
    using c that by (auto simp: core_ok_def)
  note IH = Cons.IH [OF _ _ _]
  show ?case
  proof (cases "pending (slots ! nat c) = []")
    case True
    show ?thesis
    proof (rule ping_sent [OF Cons.prems(1) c(1) assms(2) True])
      fix s1 assume "view (slots[nat c := ping c]) (then_text UNIV (ping_text c)) s1"
      from Cons.IH [OF view_any [OF this], of r] c(2) Cons.prems(2,3) True
      show "returns (bind_exec (Inr s1) (\<lambda>s. ping_loop mpidr (\<lambda>_. Inr) cs (r, s))) (\<lambda>(r', s').
          r' = (if \<forall>c \<in> set (c # cs). pending (slots ! nat c) = [] then r else -1) \<and>
          (\<exists>slots'. view slots' UNIV s'))"
        by (simp add: other cong: ball_cong)
    qed
  next
    case False
    obtain s1 where s1: "mailbox_send mpidr c (uint MSG_PING) (TEST_PING_DATA_BASE + of_int c) s = Inr (-1, s1)"
      "view slots UNIV s1"
      using view_send [OF Cons.prems(1) c(1), of mpidr "uint MSG_PING" "TEST_PING_DATA_BASE + of_int c"] False
      by (auto simp: returns_def)
    obtain s2 where s2: "locked (log_text (fail_text ''Test1 PING'' ''mailbox_send returned -1'')) s1 = Inr s2"
      "view slots UNIV s2"
      using view_locked [OF s1(2)] view_any unfolding returns_def by blast
    have "ping_loop mpidr (\<lambda>_. Inr) (c # cs) (r, s) = ping_loop mpidr (\<lambda>_. Inr) cs (-1, s2)"
      unfolding ping_loop.simps Let_def printed using s1(1) s2(1) by simp
    then show ?thesis using Cons.IH [OF s2(2), of "-1"] Cons.prems(2,3) False by (simp cong: conj_cong)
  qed
qed

lemma data_silent:
  assumes "view slots UNIV s" "ucast mpidr AND 0xFF = (0 :: u32)" "\<forall>c \<in> set dests. core_ok c \<and> c \<noteq> 0"
  shows "returns (data_loop mpidr (\<lambda>_. Inr) dests s) (\<lambda>s'. \<exists>slots'. view slots' UNIV s' \<and> slots' ! 0 = slots ! 0)"
  using assms(1,3)
proof (induction dests arbitrary: slots s)
  case Nil
  then show ?case by auto
next
  case (Cons c cs)
  have c: "core_ok c" "nat c \<noteq> 0" "\<forall>d \<in> set cs. core_ok d \<and> d \<noteq> 0" using Cons.prems(2) by (auto simp: core_ok_def)
  show ?case
  proof (rule data_sent [OF Cons.prems(1) c(1) assms(2)])
    fix s1 assume "view (if pending (slots ! nat c) = [] then slots[nat c := datum c] else slots)
        (then_text UNIV (data_text c)) s1"
    from Cons.IH [OF view_any [OF this] c(3)] c(2)
    show "returns (bind_exec (Inr s1) (data_loop mpidr (\<lambda>_. Inr) cs))
        (\<lambda>s'. \<exists>slots'. view slots' UNIV s' \<and> slots' ! 0 = slots ! 0)"
      by (simp split: if_splits)
  qed
qed

lemma poll_silent:
  assumes "view slots UNIV s"
  shows "returns (poll_acks (\<lambda>_. Inr) (Suc i) out 0 s) (\<lambda>(acks, s').
    acks = (if pending (slots ! 0) = [] then 0 else 1) \<and> (\<exists>slots'. view slots' UNIV s'))"
proof (cases "pending (slots ! 0) = []")
  case True
  with poll_idle [OF assms, of "\<lambda>_. Inr" "Suc i" out 0] assms show ?thesis by auto
next
  case False
  obtain sender ty d where m: "slots ! 0 = Ready (sender, ty, d)" using False by (cases "slots ! 0") auto
  show ?thesis
  proof (rule poll_hit [OF assms m])
    fix s1 assume v: "view (slots[0 := Empty]) (then_text (then_tag UNIV) (ack_text sender d)) s1"
    have "slots \<noteq> []" using view_slot [OF assms core_ok_cores(1)] by auto
    then have "pending (slots[0 := Empty] ! 0) = []" by simp
    from poll_idle [OF v this, of "\<lambda>_. Inr" i "(sender, ty, d)" "0 + 1"] view_any [OF v] False
    show "returns (bind_exec (Inr s1) (\<lambda>s. poll_acks (\<lambda>_. Inr) i (sender, ty, d) (0 + 1) s)) (\<lambda>(acks, s').
        acks = (if pending (slots ! 0) = [] then 0 else 1) \<and> (\<exists>slots'. view slots' UNIV s'))"
      by auto
  qed
qed

section \<open>Properties\<close>


lemma booted_view: "view [Empty, Empty, Empty, Empty] UNIV booted"
  using booted_reach booted_valid by (auto simp: view_def)


text \<open>
  What the tests report when no other core reacts.  Test 1 fails exactly when one of
  the mailboxes 1 to 3 still holds a message; test 2 fails exactly when mailbox 0 holds no
  message, so a message left over from before makes it pass.
\<close>
theorem silent_tests:
  assumes "mail_reach n s" and "sys_lock s = 0" and "ucast mpidr AND 0xFF = (0 :: u32)"
  shows "(\<exists>s'. test1_ping_all_cores mpidr (\<lambda>_. Inr) s =
      Inr (if \<forall>c \<in> {1, 2, 3}. pending (mailbox_slot c s) = [] then 0 else -1, s')) \<and>
    (\<exists>s'. test2_send_data_messages mpidr (\<lambda>_. Inr) out s =
      Inr (if pending (mailbox_slot 0 s) = [] then -1 else 0, s'))"
proof -
  let ?slots = "map (\<lambda>c. mailbox_slot c s) [0, 1, 2, 3]"
  have v: "view ?slots UNIV s" using assms(1,2) by (auto simp: view_def)
  have say: "\<exists>s'. locked (log_text t) sa = Inr s' \<and> view sl UNIV s'" if "view sl UNIV sa" for t sl sa
    using view_locked [OF that, of t] view_any unfolding returns_def by blast
  obtain sa where sa: "locked (log_text (line ''[Core 0] Test 1: Sending PING to all cores'')) s = Inr sa"
    "view ?slots UNIV sa" using say [OF v] by blast
  have "returns (ping_loop mpidr (\<lambda>_. Inr) [1, 2, 3] (0, sa)) (\<lambda>(r', s').
      r' = (if \<forall>c \<in> set [1, 2, 3]. pending (?slots ! nat c) = [] then 0 else -1) \<and> (\<exists>slots'. view slots' UNIV s'))"
    by (rule ping_silent [OF sa(2) assms(3)]) auto
  then obtain sb sl where sb: "ping_loop mpidr (\<lambda>_. Inr) [1, 2, 3] (0, sa) =
      Inr (if \<forall>c \<in> {1, 2, 3}. pending (mailbox_slot c s) = [] then 0 else -1, sb)" "view sl UNIV sb"
    by (auto simp: returns_def eval_nat_numeral)
  obtain sc where "locked (log_text (pass_text ''Test1: PING to all cores'')) sb = Inr sc"
    using say [OF sb(2)] by blast
  then have one: "\<exists>s'. test1_ping_all_cores mpidr (\<lambda>_. Inr) s =
      Inr (if \<forall>c \<in> {1, 2, 3}. pending (mailbox_slot c s) = [] then 0 else -1, s')"
    unfolding test1_ping_all_cores_def printed using sa(1) sb(1) by simp
  obtain ta where ta: "locked (log_text (line ''[Core 0] Test 2: Sending DATA messages'')) s = Inr ta"
    "view ?slots UNIV ta" using say [OF v] by blast
  obtain tb sl where tb: "data_loop mpidr (\<lambda>_. Inr) [1, 2, 3] ta = Inr tb" "view sl UNIV tb"
    "sl ! 0 = ?slots ! 0"
    using data_silent [OF ta(2) assms(3), of "[1, 2, 3]"] by (auto simp: returns_def)
  obtain tc where tc: "locked (log_text (line ''[Core 0] Checking for ACK responses...'')) tb = Inr tc"
    "view sl UNIV tc" using say [OF tb(2)] by blast
  obtain td sm where td: "poll_acks (\<lambda>_. Inr) TEST_ACK_POLL_ROUNDS out 0 tc =
      Inr (if pending (mailbox_slot 0 s) = [] then 0 else 1, td)" "view sm UNIV td"
    using poll_silent [OF tc(2), of 9 out] tb(3) by (auto simp: returns_def TEST_ACK_POLL_ROUNDS_def)
  obtain te tf where "locked (log_text (pass_text ''Test2: DATA messages + ACK responses'')) td = Inr te"
    "locked (log_text (fail_text ''Test2 DATA'' ''No ACK received from secondary cores'')) td = Inr tf"
    using say [OF td(2)] by meson
  then have "\<exists>s'. test2_send_data_messages mpidr (\<lambda>_. Inr) out s =
      Inr (if pending (mailbox_slot 0 s) = [] then -1 else 0, s')"
    unfolding test2_send_data_messages_def printed using ta(1) tb(1) tc(1) td(1) by simp
  with one show ?thesis by blast
qed

lemma silent_tests_witness:
  "(\<exists>s'. test1_ping_all_cores 0 (\<lambda>_. Inr) booted = Inr (0, s')) \<and>
   (\<exists>s'. test2_send_data_messages 0 (\<lambda>_. Inr) (0, 0, 0) booted = Inr (-1, s'))"
  using silent_tests [OF booted_reach booted_lock(1), of 0 "(0, 0, 0)"] booted_valid by simp

end
