(* ===== verification/Memory.thy ===== *)
theory Memory
  imports Prelude
begin

text \<open>
  Byte-addressed memory and the little-endian loads and stores of AArch64: of 64 bits, which the
  scheduler's initial stack frames, the context switch of \<^verbatim>\<open>sched.S\<close> and the boot code use, and of
  32 bits and byte by byte, for the objects the cores share.
\<close>

type_synonym memory = "u64 \<Rightarrow> u8"

lemma unat_add_of_nat: "unat ((x :: u64) + of_nat n) = (unat x + n) mod 2 ^ 64"
  by (simp only: unat_word_ariths unat_of_nat) (simp add: mod_add_right_eq)

lemma unat_add_mod_16: "unat ((x :: u64) + of_nat n) mod 16 = (unat x + n) mod 16"
  unfolding unat_add_of_nat by (rule mod_mod_cancel) simp

definition store64 :: "u64 \<Rightarrow> u64 \<Rightarrow> memory \<Rightarrow> memory" where
  "store64 a v m = (\<lambda>b. if unat (b - a) < 8 then ucast (drop_bit (8 * unat (b - a)) v) else m b)"

definition load64 :: "u64 \<Rightarrow> memory \<Rightarrow> u64" where
  "load64 a m = fold (\<lambda>i w. w OR push_bit (8 * i) (ucast (m (a + of_nat i)))) [0..<8] 0"

text \<open>A load depends on its eight bytes only.\<close>

lemma load64_same: "(\<And>j. j < 8 \<Longrightarrow> m (a + of_nat j) = m' (a + of_nat j)) \<Longrightarrow> load64 a m = load64 a m'"
  unfolding load64_def by (rule fold_cong) simp_all

text \<open>The bits of a load: bit \<open>n\<close> is bit \<open>n mod 8\<close> of byte \<open>n div 8\<close>.\<close>

lemma bit_load64:
  "bit (load64 a m) n \<longleftrightarrow> n < 64 \<and> bit (m (a + of_nat (n div 8))) (n mod 8)"
proof -
  have "bit (fold (\<lambda>i w. w OR push_bit (8 * i) (ucast (m (a + of_nat i)))) [0..<k] 0 :: u64) n \<longleftrightarrow>
      n < 8 * k \<and> bit (m (a + of_nat (n div 8))) (n mod 8)" if "k \<le> 8" for k
    using that
  proof (induction k)
    case 0
    then show ?case by simp
  next
    case (Suc k)
    have "bit (push_bit (8 * k) (ucast (m (a + of_nat k)) :: u64)) n \<longleftrightarrow>
        8 * k \<le> n \<and> n < 8 * Suc k \<and> bit (m (a + of_nat (n div 8))) (n mod 8)"
    proof (cases "8 * k \<le> n \<and> n < 8 * Suc k")
      case True
      then have "n div 8 = k" "n < 64" using Suc.prems by auto
      moreover from this have "n mod 8 = n - 8 * k" by (simp flip: minus_mult_div_eq_mod)
      ultimately show ?thesis using True
        by (auto simp: bit_simps)
    next
      case False
      then show ?thesis by (auto simp: bit_simps dest: bit_imp_le_length)
    qed
    with Suc show ?case by (auto simp: bit_simps)
  qed
  from this [of 8] show ?thesis by (simp add: load64_def)
qed

lemma load_store_same [simp]: "load64 a (store64 a v m) = v"
proof (rule bit_word_eqI)
  fix n assume "n < LENGTH(64)"
  then have n: "n < 64" by simp
  then have "unat (of_nat (n div 8) :: u64) = n div 8"
    by (simp add: unat_of_nat)
  moreover have d: "n div 8 < 8" using n by linarith
  moreover have "n = 8 * (n div 8) + n mod 8" "n mod 8 < 8" by simp_all
  ultimately show "bit (load64 a (store64 a v m)) n = bit v n"
    using n by (simp add: bit_load64 store64_def bit_simps del: div_less mod_less)
      (use d in blast)
qed

definition apart :: "u64 \<Rightarrow> u64 \<Rightarrow> bool" where
  "apart a b \<longleftrightarrow> 8 \<le> unat (a - b) \<and> 8 \<le> unat (b - a)"

lemma unat_diff_swap: "a \<noteq> b \<Longrightarrow> unat ((a :: u64) - b) = 2 ^ 64 - unat (b - a)"
proof -
  assume "a \<noteq> b"
  then have "unat a \<noteq> unat b" by (simp add: word_unat_eq_iff)
  then show ?thesis
    using unsigned_less [where ?'a = nat and w = a] unsigned_less [where ?'a = nat and w = b]
    by (auto simp: unat_sub_if')
qed

lemma load_store_apart [simp]:
  assumes "apart a b"
  shows "load64 b (store64 a v m) = load64 b m"
proof (rule bit_word_eqI)
  fix n assume "n < LENGTH(64)"
  then have "n div 8 < 8" by simp
  moreover have "8 \<le> unat (b + of_nat j - a)" if "j < 8" for j
  proof -
    have "a \<noteq> b" using assms by (auto simp: apart_def)
    then have "unat (b - a) \<le> 2 ^ 64 - 8" "8 \<le> unat (b - a)"
      using assms unat_diff_swap [of a b] by (auto simp: apart_def)
    moreover have "unat (of_nat j :: u64) = j" using that by (simp add: unat_of_nat)
    ultimately have "8 \<le> unat ((b - a) + of_nat j)"
      using that by (subst unat_plus_if') simp
    then show ?thesis by (simp add: algebra_simps)
  qed
  ultimately show "bit (load64 b (store64 a v m)) n = bit (load64 b m) n"
    by (auto simp: bit_load64 store64_def not_less [symmetric])
qed

text \<open>Two slots of one array of doublewords.\<close>

lemma apart_slots:
  assumes "i \<noteq> j" and "i < 2 ^ 32" and "j < 2 ^ 32"
  shows "apart (a + 8 * of_nat i) (a + 8 * of_nat j)"
proof -
  have up: "unat ((a + 8 * of_nat i) - (a + 8 * of_nat j)) = 8 * (i - j)"
    if "j < i" "i < 2 ^ 32" for i j
  proof -
    have "(a + 8 * of_nat i) - (a + 8 * of_nat j) = (of_nat (8 * (i - j)) :: u64)"
      using that by (simp add: of_nat_diff right_diff_distrib)
    then show ?thesis using that by (simp only: unat_of_nat) simp
  qed
  have apart: "apart (a + 8 * of_nat i) (a + 8 * of_nat j)" if "j < i" "i < 2 ^ 32" for i j
  proof -
    have "8 \<le> unat ((a + 8 * of_nat i) - (a + 8 * of_nat j))"
      "unat ((a + 8 * of_nat i) - (a + 8 * of_nat j)) \<le> 2 ^ 36"
      "a + 8 * of_nat j \<noteq> a + 8 * of_nat i"
      using that up [OF that] by auto
    then show ?thesis
      using unat_diff_swap [of "a + 8 * of_nat j" "a + 8 * of_nat i"]
      by (auto simp: apart_def)
  qed
  show ?thesis
    using assms apart [of i j] apart [of j i] by (cases "j < i") (auto simp: apart_def)
qed

text \<open>Doubleword \<open>i\<close> of the array at \<open>a\<close>.\<close>

definition dword :: "u64 \<Rightarrow> nat \<Rightarrow> memory \<Rightarrow> u64" where
  "dword a i m = load64 (a + of_nat (8 * i)) m"

lemma dword_store:
  assumes "i < 2 ^ 32" "j < 2 ^ 32"
  shows "dword a i (store64 (a + of_nat (8 * j)) v m) = (if i = j then v else dword a i m)"
  using apart_slots [of j i a] assms by (simp add: dword_def)

section \<open>Bytes\<close>

definition bytes_at :: "u64 \<Rightarrow> nat \<Rightarrow> memory \<Rightarrow> u8 list" where
  "bytes_at a n m = map (\<lambda>i. m (a + of_nat i)) [0..<n]"

definition store_bytes :: "u64 \<Rightarrow> u8 list \<Rightarrow> memory \<Rightarrow> memory" where
  "store_bytes a bs m = (\<lambda>p. if unat (p - a) < length bs then bs ! unat (p - a) else m p)"

definition to_le32 :: "u32 \<Rightarrow> u8 list" where
  "to_le32 v = map (\<lambda>i. ucast (drop_bit (8 * i) v)) [0, 1, 2, 3]"

definition from_le32 :: "u8 list \<Rightarrow> u32" where
  "from_le32 bs = fold (\<lambda>i w. w OR push_bit (8 * i) (ucast (bs ! i))) [0, 1, 2, 3] 0"

definition load32 :: "u64 \<Rightarrow> memory \<Rightarrow> u32" where
  "load32 a m = from_le32 (bytes_at a 4 m)"

definition store32 :: "u64 \<Rightarrow> u32 \<Rightarrow> memory \<Rightarrow> memory" where
  "store32 a v = store_bytes a (to_le32 v)"

lemma length_bytes_at [simp]: "length (bytes_at a n m) = n"
  by (simp add: bytes_at_def)

lemma length_to_le32 [simp]: "length (to_le32 v) = 4"
  by (simp add: to_le32_def)

lemma from_to_le32 [simp]: "from_le32 (to_le32 v) = v"
proof (rule bit_word_eqI)
  fix n assume n: "n < LENGTH(32)"
  consider "n < 8" | "8 \<le> n" "n < 16" | "16 \<le> n" "n < 24" | "24 \<le> n" "n < 32" using n by force
  then show "bit (from_le32 (to_le32 v)) n = bit v n"
    by cases (auto simp: from_le32_def to_le32_def bit_simps)
qed

lemma to_from_le32:
  assumes "length bs = 4"
  shows "to_le32 (from_le32 bs) = bs"
proof (rule nth_equalityI)
  fix i assume "i < length (to_le32 (from_le32 bs))"
  then have i: "i = 0 \<or> i = 1 \<or> i = 2 \<or> i = 3" by auto
  show "to_le32 (from_le32 bs) ! i = bs ! i"
  proof (rule bit_word_eqI)
    fix n assume "n < LENGTH(8)"
    with i show "bit (to_le32 (from_le32 bs) ! i) n = bit (bs ! i) n"
      by (elim disjE) (auto simp: to_le32_def from_le32_def bit_simps dest: bit_imp_le_length)
  qed
qed (use assms in simp)

lemma unat_offset:
  "unat a + i < 2 ^ 64 \<Longrightarrow> unat (a + of_nat i :: u64) = unat a + i"
  by (simp add: unat_add_of_nat)

lemma bytes_at_nth: "i < n \<Longrightarrow> bytes_at a n m ! i = m (a + of_nat i)"
  by (simp add: bytes_at_def)

text \<open>A store within the bytes looked at, and one beside them.\<close>

lemma bytes_at_store_inside:
  assumes "k + length bs \<le> n" and "n \<le> 2 ^ 32"
  shows "bytes_at a n (store_bytes (a + of_nat k) bs m) =
    take k (bytes_at a n m) @ bs @ drop (k + length bs) (bytes_at a n m)"
proof (rule nth_equalityI)
  fix i assume "i < length (bytes_at a n (store_bytes (a + of_nat k) bs m))"
  then have i: "i < n" by simp
  have diff: "a + of_nat i - (a + of_nat k) = (of_nat i - of_nat k :: u64)" by simp
  have u: "unat (of_nat i :: u64) = i" "unat (of_nat k :: u64) = k" using i assms by (simp_all add: unat_of_nat)
  have "unat (of_nat i - of_nat k :: u64) = (if k \<le> i then i - k else i + 2 ^ 64 - k)"
    using u i assms by (simp add: unat_sub_if')
  then show "bytes_at a n (store_bytes (a + of_nat k) bs m) ! i =
      (take k (bytes_at a n m) @ bs @ drop (k + length bs) (bytes_at a n m)) ! i"
    using i assms by (auto simp: bytes_at_nth store_bytes_def diff nth_append)
qed (use assms in simp)

definition beside :: "u64 \<Rightarrow> nat \<Rightarrow> u64 \<Rightarrow> nat \<Rightarrow> bool" where
  "beside a n b k \<longleftrightarrow> unat a + n \<le> 2 ^ 64 \<and> unat b + k \<le> 2 ^ 64 \<and> (unat a + n \<le> unat b \<or> unat b + k \<le> unat a)"

lemma store_beside:
  assumes "unat a + length bs \<le> 2 ^ 64" and "unat p < unat a \<or> unat a + length bs \<le> unat p"
  shows "store_bytes a bs m p = m p"
  using assms unsigned_less [where ?'a = nat and w = p] by (auto simp: store_bytes_def unat_sub_if')

lemma bytes_at_store_beside:
  assumes "beside a (length bs) b n"
  shows "bytes_at b n (store_bytes a bs m) = bytes_at b n m"
proof (rule nth_equalityI)
  fix i assume "i < length (bytes_at b n (store_bytes a bs m))"
  then have i: "i < n" by simp
  then have "unat (b + of_nat i) = unat b + i" using assms by (intro unat_offset) (auto simp: beside_def)
  with i assms have "store_bytes a bs m (b + of_nat i) = m (b + of_nat i)"
    by (intro store_beside) (auto simp: beside_def)
  with i show "bytes_at b n (store_bytes a bs m) ! i = bytes_at b n m ! i" by (simp add: bytes_at_nth)
qed simp

lemma load32_same: "(\<And>j. j < 4 \<Longrightarrow> m (a + of_nat j) = m' (a + of_nat j)) \<Longrightarrow> load32 a m = load32 a m'"
  unfolding load32_def bytes_at_def by (rule arg_cong [where f = from_le32], rule map_cong) simp_all

lemma load32_store32 [simp]: "load32 a (store32 a v m) = v"
  using bytes_at_store_inside [of 0 "to_le32 v" 4 a m] by (simp add: load32_def store32_def)

lemma store32_other: "4 \<le> unat (p - a) \<Longrightarrow> store32 a v m p = m p"
  by (simp add: store32_def store_bytes_def)

lemma store32_load32 [simp]: "store32 a (load32 a m) m = m"
proof
  fix p
  have "bytes_at a 4 m ! unat (p - a) = m p" if "unat (p - a) < 4" using that by (simp add: bytes_at_nth)
  then show "store32 a (load32 a m) m p = m p"
    by (simp add: store32_def load32_def store_bytes_def to_from_le32)
qed

end
