(* ===== verification/Scheduler.thy ===== *)
theory Scheduler
  imports System_State Memory
begin

text \<open>
  \<^verbatim>\<open>include/scheduler/scheduler.c\<close>: the cooperative round-robin scheduler, one task list per
  core.  The kernel record adds the scheduler's static variables to the shared state.  The
  stacks inside the TCBs live in byte memory, at the addresses the struct layout gives, so
  that the frame \<open>sched_add_task\<close> builds is the one the assembly of the context switch pops.
\<close>

section \<open>Data\<close>

datatype task_state = TASK_READY | TASK_RUNNING | TASK_SLEEPING | TASK_DEAD

definition MAX_TASKS :: nat where "MAX_TASKS = 8"
definition TASK_STACK_SIZE :: nat where "TASK_STACK_SIZE = 2048"
definition CORE_COUNT :: nat where "CORE_COUNT = 4"

text \<open>All fields of \<^verbatim>\<open>tcb_t\<close> but the stack; code and name pointers as address and string.\<close>

record tcb =
  t_sp :: u64
  t_id :: u16
  t_state :: task_state
  t_wake_tick :: u64
  t_entry :: u64
  t_name :: string

record job =
  job_id :: u16
  job_core_id :: u16
  job_task_name :: string
  job_entry :: u64

record kernel =
  k_sys :: system
  k_mem :: memory
  k_pool_addr :: u64           \<comment> \<open>the address the linker gives \<open>task_pool\<close>\<close>
  task_pool :: "tcb list list"
  task_count :: "u32 list"
  current_task :: "u32 list"
  tick_count :: "u64 list"
  boot_temp :: "tcb list"

text \<open>
  Offsets in \<^verbatim>\<open>tcb_t\<close>: \<open>sp\<close> at 0, \<open>id\<close> at 8, the byte array \<open>stack\<close> at 10, \<open>state\<close> at 2060 after
  padding, then three doublewords from 2064.
\<close>

definition stack_offset :: nat where "stack_offset = 8 + 2"
definition sizeof_tcb :: nat where "sizeof_tcb = 2064 + 3 * 8"

definition stack_end :: "kernel \<Rightarrow> nat \<Rightarrow> nat \<Rightarrow> u64" where
  "stack_end k core idx = k_pool_addr k +
     of_nat ((core * MAX_TASKS + idx) * sizeof_tcb + stack_offset + TASK_STACK_SIZE)"

definition get_core_id :: "u64 \<Rightarrow> u32" where
  "get_core_id mpidr = ucast (mpidr AND 0xFF)"

definition quote :: char where "quote = CHR 0x27"

definition on_sys :: "(system \<Rightarrow> system) \<Rightarrow> kernel \<Rightarrow> kernel" where
  "on_sys f k = k\<lparr>k_sys := f (k_sys k)\<rparr>"

definition update_tcb :: "nat \<Rightarrow> nat \<Rightarrow> (tcb \<Rightarrow> tcb) \<Rightarrow> kernel \<Rightarrow> kernel" where
  "update_tcb core i f k = k\<lparr>task_pool := (task_pool k)
     [core := (task_pool k ! core)[i := f (task_pool k ! core ! i)]]\<rparr>"

section \<open>Operations\<close>

text \<open>The twelve doublewords of the first frame: zeros, and the entry address in slot 1.\<close>

definition initial_frame :: "u64 \<Rightarrow> u64 \<Rightarrow> memory \<Rightarrow> memory" where
  "initial_frame stack_top entry mem = store64 (stack_top + 8 * of_nat 1) entry
     (fold (\<lambda>i. store64 (stack_top + 8 * of_nat i) 0) [0..<12] mem)"

definition sched_add_task :: "u64 \<Rightarrow> job \<Rightarrow> kernel \<Rightarrow> kernel exec" where
  "sched_add_task mpidr job k =
     (let core = unat (get_core_id mpidr); idx = unat (task_count k ! core) in
      if core < CORE_COUNT \<and> idx < MAX_TASKS then
        let stack_top = stack_end k core idx - 12 * 8;
            t = \<lparr>t_sp = stack_top, t_id = job_id job, t_state = TASK_READY, t_wake_tick = 0,
                 t_entry = job_entry job, t_name = job_task_name job\<rparr>;
            k = update_tcb core idx (\<lambda>_. t) k;
            k = k\<lparr>k_mem := initial_frame stack_top (job_entry job) (k_mem k)\<rparr>;
            k = k\<lparr>task_count := (task_count k)[core := task_count k ! core + 1]\<rparr>
        in Inr (on_sys (con_puts [quote, newline] \<circ> con_puts (job_task_name job) \<circ>
              con_puts ('': registered '' @ [quote]) \<circ> con_putc (digit_char (get_core_id mpidr)) \<circ>
              con_puts ''[SCHEDULE] Core '') k)
      else Inl OutOfBounds)"

definition sched_tick :: "u64 \<Rightarrow> kernel \<Rightarrow> kernel exec" where
  "sched_tick mpidr k =
     (let core = unat (get_core_id mpidr) in
      if core < CORE_COUNT \<and> unat (task_count k ! core) \<le> MAX_TASKS then
        let k = k\<lparr>tick_count := (tick_count k)[core := tick_count k ! core + 1]\<rparr>
        in Inr (fold (\<lambda>i k. let t = task_pool k ! core ! i in
               if t_state t = TASK_SLEEPING \<and> tick_count k ! core \<ge> t_wake_tick t
               then update_tcb core i (\<lambda>t. t\<lparr>t_state := TASK_READY\<rparr>) k else k)
             [0..<unat (task_count k ! core)] k)
      else Inl OutOfBounds)"

text \<open>The search loop of \<^verbatim>\<open>pick_next\<close> over the candidates still to be looked at.\<close>

primrec first_ready :: "tcb list \<Rightarrow> u32 list \<Rightarrow> u32 \<Rightarrow> u32 exec" where
  "first_ready row [] cur = Inr cur"
| "first_ready row (candidate # cs) cur =
     (if unat candidate < length row then
        if t_state (row ! unat candidate) = TASK_READY then Inr candidate
        else first_ready row cs cur
      else Inl OutOfBounds)"

definition pick_next :: "nat \<Rightarrow> kernel \<Rightarrow> u32 exec" where
  "pick_next core k =
     (let count = task_count k ! core; cur = current_task k ! core in
      first_ready (task_pool k ! core)
        (map (\<lambda>i. (cur + of_nat i) mod count) [1..<Suc (unat count)]) cur)"

text \<open>
  \<^verbatim>\<open>task_yield\<close> up to the call of \<^verbatim>\<open>sched_context_switch\<close>: the result says whether the assembly
  is called, and with which two task indices.
\<close>

definition task_yield :: "u64 \<Rightarrow> kernel \<Rightarrow> ((nat \<times> nat) option \<times> kernel) exec" where
  "task_yield mpidr k =
     (let core = unat (get_core_id mpidr) in
      if core < CORE_COUNT then
        let old_idx = current_task k ! core in
        bind_exec (pick_next core k) (\<lambda>new_idx.
          if old_idx = new_idx then Inr (None, k)
          else if unat old_idx < length (task_pool k ! core) then
            let k = update_tcb core (unat old_idx) (\<lambda>t. t\<lparr>t_state := TASK_READY\<rparr>) k;
                k = update_tcb core (unat new_idx) (\<lambda>t. t\<lparr>t_state := TASK_RUNNING\<rparr>) k;
                k = k\<lparr>current_task := (current_task k)[core := new_idx]\<rparr>
            in Inr (Some (unat old_idx, unat new_idx), k)
          else Inl OutOfBounds)
      else Inl OutOfBounds)"

definition task_sleep_ms :: "u64 \<Rightarrow> u32 \<Rightarrow> kernel \<Rightarrow> ((nat \<times> nat) option \<times> kernel) exec" where
  "task_sleep_ms mpidr ms k =
     (let core = unat (get_core_id mpidr) in
      if core < CORE_COUNT \<and> unat (current_task k ! core) < length (task_pool k ! core) then
        let wake = tick_count k ! core + ucast ms
        in task_yield mpidr (update_tcb core (unat (current_task k ! core))
             (\<lambda>t. t\<lparr>t_state := TASK_SLEEPING, t_wake_tick := wake\<rparr>) k)
      else Inl OutOfBounds)"

text \<open>
  \<^verbatim>\<open>sched_run\<close> up to the switch from \<^verbatim>\<open>boot_temp\<close> to task 0, which is not expected to return.
  Without tasks the core prints a line and waits for ever; the line is in the second function.
\<close>

definition sched_idle_text :: "u64 \<Rightarrow> kernel \<Rightarrow> kernel" where
  "sched_idle_text mpidr = on_sys (con_puts ('': no tasks - wait for event'' @ [newline]) \<circ>
     con_putc (digit_char (get_core_id mpidr)) \<circ> con_puts ''[SCHED] Core '')"

definition sched_run :: "u64 \<Rightarrow> kernel \<Rightarrow> kernel exec" where
  "sched_run mpidr k =
     (let core = unat (get_core_id mpidr) in
      if core < CORE_COUNT then
        if task_count k ! core = 0 then Inl Halted
        else
          let k = on_sys (con_puts ('' task(s)'' @ [newline]) \<circ>
                con_putc (digit_char (task_count k ! core)) \<circ> con_puts '': starting '' \<circ>
                con_putc (digit_char (get_core_id mpidr)) \<circ> con_puts ''[SCHEDULE] Core '') k;
              k = k\<lparr>current_task := (current_task k)[core := 0]\<rparr>
          in Inr (update_tcb core 0 (\<lambda>t. t\<lparr>t_state := TASK_RUNNING\<rparr>) k)
      else Inl OutOfBounds)"

section \<open>The abstract scheduler\<close>

text \<open>A list of task states and the index of the current task.\<close>

definition abs_next :: "task_state list \<Rightarrow> nat \<Rightarrow> nat" where
  "abs_next sts cur =
     (case List.find (\<lambda>i. sts ! i = TASK_READY) (map (\<lambda>i. (cur + i) mod length sts) [1..<Suc (length sts)])
      of Some j \<Rightarrow> j | None \<Rightarrow> cur)"

definition abs_yield :: "task_state list \<times> nat \<Rightarrow> (nat \<times> nat) option \<times> (task_state list \<times> nat)" where
  "abs_yield = (\<lambda>(sts, cur). let j = abs_next sts cur in
     if j = cur then (None, sts, cur)
     else (Some (cur, j), sts[cur := TASK_READY, j := TASK_RUNNING], j))"

definition abs_step :: "task_state list \<times> nat \<Rightarrow> task_state list \<times> nat" where
  "abs_step a = snd (abs_yield a)"

text \<open>The cyclic distance from the current task to task \<open>j\<close>, between 1 and the number of tasks.\<close>

definition ahead :: "nat \<Rightarrow> nat \<Rightarrow> nat \<Rightarrow> nat" where
  "ahead n cur j = (if cur < j then j - cur else j + n - cur)"

lemma ahead_bounds: "cur < n \<Longrightarrow> j < n \<Longrightarrow> 1 \<le> ahead n cur j \<and> ahead n cur j \<le> n"
  by (auto simp: ahead_def)

lemma ahead_mod: "cur < n \<Longrightarrow> j < n \<Longrightarrow> (cur + ahead n cur j) mod n = j"
  by (auto simp: ahead_def)

lemma ahead_unique: "cur < n \<Longrightarrow> 1 \<le> i \<Longrightarrow> i \<le> n \<Longrightarrow> ahead n cur ((cur + i) mod n) = i"
proof (cases "cur + i < n")
  case False
  assume "cur < n" "1 \<le> i" "i \<le> n"
  with False have "(cur + i) mod n = cur + i - n" by (simp add: le_mod_geq)
  with False \<open>cur < n\<close> \<open>i \<le> n\<close> show ?thesis by (auto simp: ahead_def)
qed (simp add: ahead_def)

lemma ahead_step:
  "cur < n \<Longrightarrow> j < n \<Longrightarrow> r < n \<Longrightarrow> ahead n cur r < ahead n cur j \<Longrightarrow>
    ahead n r j = ahead n cur j - ahead n cur r"
  by (auto simp: ahead_def split: if_splits)

lemma abs_next_cases:
  assumes "cur < length sts"
  obtains (ready) "abs_next sts cur < length sts" "sts ! abs_next sts cur = TASK_READY"
      "\<forall>i < length sts. sts ! i = TASK_READY \<longrightarrow>
         ahead (length sts) cur (abs_next sts cur) \<le> ahead (length sts) cur i"
    | (none) "abs_next sts cur = cur" "\<forall>i < length sts. sts ! i \<noteq> TASK_READY"
proof -
  let ?n = "length sts"
  let ?c = "\<lambda>i. (cur + i) mod ?n"
  show ?thesis
  proof (cases "List.find (\<lambda>i. sts ! i = TASK_READY) (map ?c [1..<Suc ?n])")
    case None
    then have no: "sts ! ?c i \<noteq> TASK_READY" if "1 \<le> i" "i \<le> ?n" for i
      using that by (simp add: find_None_iff image_iff Ball_def del: upt_Suc)
        (metis Suc_le_eq le_imp_less_Suc)
    have "sts ! i \<noteq> TASK_READY" if "i < ?n" for i
      using no [of "ahead ?n cur i"] that assms ahead_bounds [of cur ?n i] ahead_mod [of cur ?n i] by simp
    with None show ?thesis by (intro none) (simp_all add: abs_next_def)
  next
    case (Some j)
    then obtain m where m: "m < ?n" "j = ?c (Suc m)" "sts ! j = TASK_READY"
        and first: "\<forall>i < m. sts ! ?c (Suc i) \<noteq> TASK_READY"
      by (auto simp: find_Some_iff simp del: upt_Suc)
    have nxt: "abs_next sts cur = j" using Some by (simp add: abs_next_def)
    have "ahead ?n cur j = Suc m" using ahead_unique [of cur ?n "Suc m"] assms m by simp
    moreover have "Suc m \<le> ahead ?n cur i" if "i < ?n" "sts ! i = TASK_READY" for i
    proof (rule ccontr)
      assume "\<not> Suc m \<le> ahead ?n cur i"
      moreover have "1 \<le> ahead ?n cur i" using ahead_bounds assms that by simp
      ultimately obtain d where "ahead ?n cur i = Suc d" "d < m" by (cases "ahead ?n cur i") auto
      with first that ahead_mod [OF assms, of i] show False by metis
    qed
    moreover have "j < ?n" using assms by (simp only: m(2)) (rule mod_less_divisor, linarith)
    ultimately show ?thesis using m nxt by (intro ready) auto
  qed
qed

lemma abs_next_less: "cur < length sts \<Longrightarrow> abs_next sts cur < length sts"
  by (cases rule: abs_next_cases [of cur sts]) simp_all

lemma abs_next_successor:
  assumes "cur < length sts" and "sts ! (Suc cur mod length sts) = TASK_READY"
  shows "abs_next sts cur = Suc cur mod length sts"
proof -
  have "[1..<Suc (length sts)] = 1 # [2..<Suc (length sts)]"
    using assms(1) by (subst upt_conv_Cons) (auto simp: numeral_2_eq_2)
  then show ?thesis using assms by (simp add: abs_next_def del: upt_Suc)
qed

section \<open>The code computes the abstract scheduler\<close>

definition sched_ok :: "nat \<Rightarrow> kernel \<Rightarrow> bool" where
  [inv_defs]: "sched_ok c k \<longleftrightarrow> c < 4 \<and> length (task_pool k) = 4 \<and> length (task_pool k ! c) = 8 \<and>
     length (task_count k) = 4 \<and> length (current_task k) = 4 \<and> length (tick_count k) = 4 \<and>
     unat (task_count k ! c) \<le> 8"

definition states :: "nat \<Rightarrow> kernel \<Rightarrow> task_state list" where
  "states c k = map t_state (take (unat (task_count k ! c)) (task_pool k ! c))"

definition current :: "nat \<Rightarrow> kernel \<Rightarrow> nat" where
  "current c k = unat (current_task k ! c)"

text \<open>A core that runs one of its tasks.\<close>

definition running :: "nat \<Rightarrow> kernel \<Rightarrow> bool" where
  [inv_defs]: "running c k \<longleftrightarrow> sched_ok c k \<and> current c k < length (states c k)"

definition abs_sched :: "nat \<Rightarrow> kernel \<Rightarrow> task_state list \<times> nat" where
  "abs_sched c k = (states c k, current c k)"

lemma length_states: "sched_ok c k \<Longrightarrow> length (states c k) = unat (task_count k ! c)"
  by (simp add: states_def sched_ok_def)

lemma states_nth:
  "sched_ok c k \<Longrightarrow> i < length (states c k) \<Longrightarrow> states c k ! i = t_state (task_pool k ! c ! i)"
  by (simp add: states_def)

lemma first_ready_eq:
  "\<forall>c \<in> set cs. unat c < length row \<Longrightarrow> first_ready row cs cur =
     Inr (case List.find (\<lambda>c. t_state (row ! unat c) = TASK_READY) cs of Some c \<Rightarrow> c | None \<Rightarrow> cur)"
  by (induction cs) auto

lemma find_map_unat:
  "\<forall>i \<in> set is. unat (f i) = g i \<Longrightarrow>
    (case List.find (\<lambda>c. P (unat c)) (map f is) of Some c \<Rightarrow> unat c | None \<Rightarrow> n) =
    (case List.find P (map g is) of Some j \<Rightarrow> j | None \<Rightarrow> n)"
  by (induction "is") auto

lemma pick_next_abs:
  assumes "running c k"
  shows "\<exists>r. pick_next c k = Inr r \<and> unat r = abs_next (states c k) (current c k)"
proof -
  let ?count = "task_count k ! c" and ?cur = "current_task k ! c" and ?row = "task_pool k ! c"
  let ?f = "\<lambda>i. (?cur + of_nat i) mod ?count" and ?is = "[1..<Suc (unat ?count)]"
  let ?g = "\<lambda>i. (unat ?cur + i) mod unat ?count"
  have ok: "sched_ok c k" "unat ?cur < unat ?count" "unat ?count \<le> 8" "length ?row = 8"
    using assms length_states [of c k] by (auto simp: running_def sched_ok_def current_def)
  have cand: "unat (?f i) = ?g i" if "i \<in> set ?is" for i
  proof -
    have "unat (of_nat i :: u32) = i" using that ok by (auto simp: unat_of_nat simp del: upt_Suc)
    then have "unat (?cur + of_nat i) = unat ?cur + i"
      using that ok by (subst unat_plus_if') auto
    then show ?thesis by (simp add: unat_mod_distrib)
  qed
  have "?g i < unat ?count" for i using ok by simp
  then have bound: "unat x < length ?row" if "x \<in> set (map ?f ?is)" for x
    using that ok cand by (metis (no_types, lifting) imageE list.set_map order_less_le_trans)
  have cong: "List.find (\<lambda>i. states c k ! i = TASK_READY) (map ?g ?is) =
      List.find (\<lambda>i. t_state (?row ! i) = TASK_READY) (map ?g ?is)"
    using ok by (intro find_cong) (auto simp: states_nth length_states)
  have "unat (case List.find (\<lambda>c. t_state (?row ! unat c) = TASK_READY) (map ?f ?is)
        of Some c \<Rightarrow> c | None \<Rightarrow> ?cur) =
      (case List.find (\<lambda>c. t_state (?row ! unat c) = TASK_READY) (map ?f ?is)
        of Some c \<Rightarrow> unat c | None \<Rightarrow> unat ?cur)"
    by (simp split: option.split)
  also have "\<dots> = abs_next (states c k) (current c k)"
    using cand cong ok
    by (subst find_map_unat [where g = ?g])
      (auto simp: abs_next_def length_states current_def simp del: upt_Suc)
  finally show ?thesis
    using bound first_ready_eq [of "map ?f ?is" ?row ?cur]
    by (simp add: pick_next_def Let_def del: upt_Suc)
qed

lemma states_update_tcb:
  "sched_ok c k \<Longrightarrow> i < length (states c k) \<Longrightarrow>
    states c (update_tcb c i f k) = (states c k)[i := t_state (f (task_pool k ! c ! i))]"
  by (simp add: states_def update_tcb_def sched_ok_def take_update_swap map_update)

lemma update_tcb_simps [simp]:
  "task_count (update_tcb c i f k) = task_count k" "current_task (update_tcb c i f k) = current_task k"
  "tick_count (update_tcb c i f k) = tick_count k" "k_sys (update_tcb c i f k) = k_sys k"
  "k_mem (update_tcb c i f k) = k_mem k" "k_pool_addr (update_tcb c i f k) = k_pool_addr k"
  "boot_temp (update_tcb c i f k) = boot_temp k"
  by (simp_all add: update_tcb_def)

lemma sched_ok_update_tcb [simp]: "sched_ok c (update_tcb d i f k) = sched_ok c k"
  by (cases "d < length (task_pool k)"; cases "c = d") (auto simp: sched_ok_def update_tcb_def)

lemma current_update_tcb [simp]: "current c (update_tcb d i f k) = current c k"
  by (simp add: current_def)

lemma states_current_task [simp]: "states c (k\<lparr>current_task := x\<rparr>) = states c k"
  by (simp add: states_def)

text \<open>The value of \<^verbatim>\<open>mpidr_el1\<close> on core \<open>c\<close>.\<close>

definition on_core :: "u64 \<Rightarrow> nat \<Rightarrow> bool" where
  "on_core mpidr c \<longleftrightarrow> unat (get_core_id mpidr) = c"

lemma task_yield_abs:
  assumes run: "running c k" and core: "on_core mpidr c"
  shows "\<exists>sw k'. task_yield mpidr k = Inr (sw, k') \<and> running c k' \<and>
    (sw, abs_sched c k') = abs_yield (abs_sched c k) \<and> k_sys k' = k_sys k \<and> tick_count k' = tick_count k"
proof -
  obtain r where r: "pick_next c k = Inr r" "unat r = abs_next (states c k) (current c k)"
    using pick_next_abs [OF run] by blast
  have ok: "sched_ok c k" "c < 4" "current c k < length (states c k)"
      "current c k < length (task_pool k ! c)" "length (current_task k) = 4"
    using run length_states [of c k] by (auto simp: running_def sched_ok_def)
  have less: "unat r < length (states c k)" using r(2) abs_next_less [OF ok(3)] by simp
  have eq: "current_task k ! c = r \<longleftrightarrow> current c k = unat r"
    by (simp add: current_def word_unat_eq_iff)
  let ?k1 = "update_tcb c (current c k) (\<lambda>t. t\<lparr>t_state := TASK_READY\<rparr>) k"
  let ?k2 = "update_tcb c (unat r) (\<lambda>t. t\<lparr>t_state := TASK_RUNNING\<rparr>) ?k1"
  let ?k3 = "?k2\<lparr>current_task := (current_task k)[c := r]\<rparr>"
  show ?thesis
  proof (cases "current c k = unat r")
    case True
    then have "task_yield mpidr k = Inr (None, k)"
      using r(1) core ok eq by (simp add: task_yield_def on_core_def CORE_COUNT_def)
    with True r(2) run show ?thesis by (simp add: abs_yield_def abs_sched_def)
  next
    case False
    then have "task_yield mpidr k = Inr (Some (current c k, unat r), ?k3)"
      using r(1) core ok eq
      by (simp add: task_yield_def on_core_def CORE_COUNT_def Let_def) (simp add: current_def)
    moreover have "states c ?k3 = (states c k)[current c k := TASK_READY, unat r := TASK_RUNNING]"
      using ok less by (simp add: states_update_tcb)
    moreover have "current c ?k3 = unat r" using ok by (simp add: current_def)
    moreover have "running c ?k3"
      using ok less calculation(2,3) by (simp add: running_def) (simp add: sched_ok_def update_tcb_def)
    ultimately show ?thesis
      using False r(2) by (simp add: abs_yield_def abs_sched_def Let_def)
  qed
qed

section \<open>Several yields\<close>

text \<open>A core whose tasks do nothing but yield, \<open>n\<close> times.\<close>

primrec yields :: "u64 \<Rightarrow> nat \<Rightarrow> kernel \<Rightarrow> kernel exec" where
  "yields mpidr 0 k = Inr k"
| "yields mpidr (Suc n) k = bind_exec (task_yield mpidr k) (\<lambda>(_, k). yields mpidr n k)"

lemma yields_abs:
  assumes "running c k" and "on_core mpidr c"
  shows "\<exists>k'. yields mpidr n k = Inr k' \<and> running c k' \<and>
    abs_sched c k' = (abs_step ^^ n) (abs_sched c k)"
  using assms(1)
proof (induction n arbitrary: k)
  case 0
  then show ?case by simp
next
  case (Suc n)
  obtain sw k1 where "task_yield mpidr k = Inr (sw, k1)" "running c k1"
      "(sw, abs_sched c k1) = abs_yield (abs_sched c k)"
    using task_yield_abs [OF Suc.prems assms(2)] by blast
  moreover from this(3) have "abs_sched c k1 = abs_step (abs_sched c k)"
    by (metis abs_step_def snd_conv)
  ultimately show ?case
    using Suc.IH [of k1] by (simp add: funpow_swap1)
qed

lemma length_abs_yield [simp]: "length (fst (snd (abs_yield (sts, cur)))) = length sts"
  by (simp add: abs_yield_def Let_def)

definition one_running :: "task_state list \<times> nat \<Rightarrow> bool" where
  "one_running = (\<lambda>(sts, cur). cur < length sts \<and>
     (\<forall>i < length sts. sts ! i = TASK_RUNNING \<longleftrightarrow> i = cur))"

lemma one_running_yield: "one_running a \<Longrightarrow> one_running (snd (abs_yield a))"
  using abs_next_less [of "snd a" "fst a"]
  by (cases a) (auto simp: one_running_def abs_yield_def Let_def nth_list_update)

lemma one_running_yields: "one_running a \<Longrightarrow> one_running ((abs_step ^^ n) a)"
  by (induction n) (simp_all add: one_running_yield abs_step_def)

text \<open>Every task but the current one is ready.\<close>

definition rotation :: "nat \<Rightarrow> task_state list \<times> nat \<Rightarrow> bool" where
  "rotation n = (\<lambda>(sts, cur). length sts = n \<and> cur < n \<and>
     (\<forall>i < n. sts ! i = (if i = cur then TASK_RUNNING else TASK_READY)))"

lemma rotation_yield:
  assumes "rotation n (sts, cur)"
  shows "rotation n (snd (abs_yield (sts, cur))) \<and> snd (snd (abs_yield (sts, cur))) = Suc cur mod n"
proof (cases "Suc cur mod n = cur")
  case True
  have len: "length sts = n" "cur < n" using assms by (auto simp: rotation_def)
  then have "n = 1" using True by (auto simp: mod_Suc split: if_splits)
  then have "abs_next sts cur = cur"
    using abs_next_less [of cur sts] len by simp
  then show ?thesis using assms True by (simp add: abs_yield_def)
next
  case False
  have len: "length sts = n" "cur < n" "Suc cur mod n < n" using assms by (auto simp: rotation_def)
  then have "abs_next sts cur = Suc cur mod n"
    using abs_next_successor [of cur sts] assms False by (simp add: rotation_def)
  then show ?thesis
    using assms False len by (auto simp: abs_yield_def rotation_def Let_def nth_list_update)
qed

lemma rotation_yields:
  assumes "rotation n (sts, cur)"
  shows "rotation n ((abs_step ^^ m) (sts, cur)) \<and>
    snd ((abs_step ^^ m) (sts, cur)) = (cur + m) mod n"
proof (induction m)
  case 0
  then show ?case using assms by (simp add: rotation_def)
next
  case (Suc m)
  obtain sts' cur' where eq: "(abs_step ^^ m) (sts, cur) = (sts', cur')" by (meson surj_pair)
  then have "(abs_step ^^ Suc m) (sts, cur) = snd (abs_yield (sts', cur'))"
    by simp (simp add: abs_step_def)
  moreover have "rotation n (sts', cur')" "cur' = (cur + m) mod n" using Suc unfolding eq by auto
  ultimately show ?case using rotation_yield [of n sts' cur'] by (simp add: mod_Suc_eq)
qed

text \<open>A ready task is reached: each yield brings it nearer.\<close>

lemma ready_task_runs:
  assumes "cur < length sts" and "j < length sts" and "sts ! j = TASK_READY"
  shows "\<exists>m \<ge> 1. m \<le> ahead (length sts) cur j \<and> snd ((abs_step ^^ m) (sts, cur)) = j"
  using assms
proof (induction "ahead (length sts) cur j" arbitrary: sts cur rule: less_induct)
  case less
  let ?n = "length sts" and ?r = "abs_next sts cur"
  have r: "?r < ?n" "ahead ?n cur ?r \<le> ahead ?n cur j" "sts ! ?r = TASK_READY"
    using less.prems by (cases rule: abs_next_cases [of cur sts]; auto)+
  have one: "snd (snd (abs_yield (sts, cur))) = ?r" by (simp add: abs_yield_def Let_def)
  show ?case
  proof (cases "?r = j")
    case True
    with one ahead_bounds less.prems show ?thesis by (intro exI [of _ 1]) (simp add: abs_step_def)
  next
    case False
    define sts' where "sts' = fst (snd (abs_yield (sts, cur)))"
    have eq: "snd (abs_yield (sts, cur)) = (sts', ?r)" by (simp add: sts'_def flip: one)
    have "ahead ?n cur ?r \<noteq> ahead ?n cur j"
      using False ahead_mod less.prems r(1) by metis
    then have lt: "ahead ?n cur ?r < ahead ?n cur j" using r(2) by simp
    have len: "length sts' = ?n" by (simp add: sts'_def)
    have j: "sts' ! j = TASK_READY"
      using less.prems False
      by (auto simp: sts'_def abs_yield_def Let_def nth_list_update)
    have step: "ahead ?n ?r j = ahead ?n cur j - ahead ?n cur ?r"
      using less.prems r lt by (intro ahead_step)
    moreover have "1 \<le> ahead ?n cur ?r" using ahead_bounds less.prems r by simp
    ultimately have "ahead (length sts') ?r j < ahead ?n cur j" using lt len by simp
    from less.hyps [OF this] obtain m where "m \<ge> 1" "m \<le> ahead ?n ?r j"
        "snd ((abs_step ^^ m) (sts', ?r)) = j"
      using less.prems r len j by auto
    then show ?thesis
      using eq step \<open>1 \<le> ahead ?n cur ?r\<close> lt
      by (intro exI [of _ "Suc m"]) (simp add: funpow_Suc_right abs_step_def del: funpow.simps)
  qed
qed

section \<open>Ticks, sleeping, starting, registering\<close>

definition wake :: "u64 \<Rightarrow> tcb \<Rightarrow> tcb" where
  "wake now t = (if t_state t = TASK_SLEEPING \<and> now \<ge> t_wake_tick t
     then t\<lparr>t_state := TASK_READY\<rparr> else t)"

lemma tick_loop:
  assumes "c < length (task_pool k)" and "m \<le> length (task_pool k ! c)"
  shows "fold (\<lambda>i k. let t = task_pool k ! c ! i in
      if t_state t = TASK_SLEEPING \<and> tick_count k ! c \<ge> t_wake_tick t
      then update_tcb c i (\<lambda>t. t\<lparr>t_state := TASK_READY\<rparr>) k else k) [0..<m] k =
    k\<lparr>task_pool := (task_pool k)[c := map (wake (tick_count k ! c)) (take m (task_pool k ! c)) @
      drop m (task_pool k ! c)]\<rparr>"
  using assms(2)
proof (induction m)
  case 0
  then show ?case using assms(1) by simp
next
  case (Suc m)
  let ?row = "task_pool k ! c" and ?now = "tick_count k ! c"
  let ?k = "k\<lparr>task_pool := (task_pool k)[c := map (wake ?now) (take m ?row) @ drop m ?row]\<rparr>"
  let ?f = "\<lambda>i k. let t = task_pool k ! c ! i in
      if t_state t = TASK_SLEEPING \<and> tick_count k ! c \<ge> t_wake_tick t
      then update_tcb c i (\<lambda>t. t\<lparr>t_state := TASK_READY\<rparr>) k else k"
  have m: "m < length ?row" using Suc.prems by simp
  have row: "task_pool ?k ! c = map (wake ?now) (take m ?row) @ ?row ! m # drop (Suc m) ?row"
    using assms(1) m by (simp add: Cons_nth_drop_Suc)
  have step: "?f m ?k = k\<lparr>task_pool := (task_pool k)[c :=
      map (wake ?now) (take (Suc m) ?row) @ drop (Suc m) ?row]\<rparr>"
  proof (cases "t_state (?row ! m) = TASK_SLEEPING \<and> ?now \<ge> t_wake_tick (?row ! m)")
    case True
    then have "?f m ?k = update_tcb c m (\<lambda>t. t\<lparr>t_state := TASK_READY\<rparr>) ?k"
      using m assms(1) by (simp add: nth_append)
    with True m assms(1) show ?thesis
      by (simp add: update_tcb_def row take_Suc_conv_app_nth list_update_append wake_def
          nth_append Cons_nth_drop_Suc [symmetric])
  next
    case False
    then have "?f m ?k = ?k" using m assms(1) by (auto simp: nth_append Let_def)
    moreover have "wake ?now (?row ! m) = ?row ! m" using False by (auto simp: wake_def)
    ultimately show ?thesis using m row assms(1)
      by (simp add: take_Suc_conv_app_nth Cons_nth_drop_Suc [symmetric])
  qed
  have "fold ?f [0..<m] k = ?k" using Suc by simp
  then have "fold ?f [0..<Suc m] k = ?f m ?k"
    by (simp only: upt_Suc_append le0 fold_append fold_simps comp_apply)
  then show ?case by (simp only: step)
qed

lemma sched_tick_eq:
  assumes "sched_ok c k" and "on_core mpidr c"
  shows "sched_tick mpidr k = Inr (k\<lparr>tick_count := (tick_count k)[c := tick_count k ! c + 1],
    task_pool := (task_pool k)[c := map (wake (tick_count k ! c + 1)) (take (unat (task_count k ! c))
      (task_pool k ! c)) @ drop (unat (task_count k ! c)) (task_pool k ! c)]\<rparr>)"
proof -
  let ?k = "k\<lparr>tick_count := (tick_count k)[c := tick_count k ! c + 1]\<rparr>"
  have "c < length (task_pool ?k)" "unat (task_count k ! c) \<le> length (task_pool ?k ! c)" "c < length (tick_count k)"
    using assms(1) by (auto simp: sched_ok_def)
  then show ?thesis
    using assms tick_loop [of c ?k "unat (task_count k ! c)"]
    by (simp add: sched_tick_def on_core_def sched_ok_def CORE_COUNT_def MAX_TASKS_def Let_def)
qed

lemma sched_ok_run: "sched_ok c k \<Longrightarrow> sched_ok c (on_sys f k)"
  by (simp add: sched_ok_def on_sys_def)

lemma on_sys_simps [simp]:
  "task_count (on_sys f k) = task_count k" "current_task (on_sys f k) = current_task k"
  "tick_count (on_sys f k) = tick_count k" "task_pool (on_sys f k) = task_pool k"
  "k_mem (on_sys f k) = k_mem k" "k_pool_addr (on_sys f k) = k_pool_addr k"
  "k_sys (on_sys f k) = f (k_sys k)" "boot_temp (on_sys f k) = boot_temp k"
  by (simp_all add: on_sys_def)

lemma sched_run_eq:
  assumes ok: "sched_ok c k" and core: "on_core mpidr c" and tasks: "task_count k ! c \<noteq> 0"
  shows "\<exists>k'. sched_run mpidr k = Inr k' \<and> running c k' \<and> current c k' = 0 \<and>
    states c k' = (states c k)[0 := TASK_RUNNING]"
proof -
  have c: "c < 4" "length (current_task k) = 4" using ok by (auto simp: sched_ok_def)
  define k1 where "k1 = (on_sys (con_puts ('' task(s)'' @ [newline]) \<circ>
                con_putc (digit_char (task_count k ! c)) \<circ> con_puts '': starting '' \<circ>
                con_putc (digit_char (get_core_id mpidr)) \<circ> con_puts ''[SCHEDULE] Core '') k)
      \<lparr>current_task := (current_task k)[c := 0]\<rparr>"
  let ?k = "update_tcb c 0 (\<lambda>t. t\<lparr>t_state := TASK_RUNNING\<rparr>) k1"
  have "sched_run mpidr k = Inr ?k"
    using c tasks core by (simp add: sched_run_def on_core_def CORE_COUNT_def Let_def k1_def)
  moreover have ok1: "sched_ok c k1" "states c k1 = states c k" "current c k1 = 0"
    using ok c by (simp_all add: k1_def sched_ok_def states_def current_def)
  moreover have pos: "0 < length (states c k)"
    using tasks length_states [OF ok] by (simp add: unat_gt_0)
  moreover from ok1 pos have "states c ?k = (states c k)[0 := TASK_RUNNING]"
    by (simp add: states_update_tcb)
  ultimately show ?thesis by (auto simp: running_def)
qed

lemma task_sleep_abs:
  assumes run: "running c k" and core: "on_core mpidr c"
  shows "\<exists>sw k'. task_sleep_ms mpidr ms k = Inr (sw, k') \<and> running c k' \<and>
    (sw, abs_sched c k') = abs_yield ((states c k)[current c k := TASK_SLEEPING], current c k)"
proof -
  let ?f = "\<lambda>t. t\<lparr>t_state := TASK_SLEEPING, t_wake_tick := tick_count k ! c + ucast ms\<rparr>"
  let ?k = "update_tcb c (current c k) ?f k"
  have ok: "sched_ok c k" "current c k < length (states c k)" using run by (auto simp: running_def)
  then have len: "c < 4" "current c k < length (task_pool k ! c)"
    using length_states [of c k] by (auto simp: sched_ok_def)
  have st: "states c ?k = (states c k)[current c k := TASK_SLEEPING]"
    using ok by (simp add: states_update_tcb)
  then have "running c ?k" using ok by (simp add: running_def)
  moreover have "task_sleep_ms mpidr ms k = task_yield mpidr ?k"
    using core len by (simp add: task_sleep_ms_def on_core_def CORE_COUNT_def current_def)
  ultimately show ?thesis
    using task_yield_abs [of c ?k mpidr] core st by (auto simp: abs_sched_def)
qed

section \<open>The first stack frame\<close>

lemma load_zeros:
  assumes "i < 2 ^ 32" and "n \<le> 2 ^ 32"
  shows "load64 (tos + 8 * of_nat i) (fold (\<lambda>i. store64 (tos + 8 * of_nat i) 0) [0..<n] mem) =
    (if i < n then 0 else load64 (tos + 8 * of_nat i) mem)"
  using assms(2)
proof (induction n)
  case 0
  then show ?case by simp
next
  case (Suc n)
  then show ?case
    using apart_slots [of n i tos] assms(1) by (cases "i = n") auto
qed

lemma load_initial_frame:
  "i < 12 \<Longrightarrow> load64 (tos + 8 * of_nat i) (initial_frame tos entry mem) = (if i = 1 then entry else 0)"
  using apart_slots [of 1 i tos] load_zeros [of i 12 tos mem]
  by (cases "i = 1") (auto simp: initial_frame_def)

lemma fold_store_outside:
  assumes "96 \<le> unat (b - tos)"
  shows "n \<le> 12 \<Longrightarrow> fold (\<lambda>i. store64 (tos + 8 * of_nat i) 0) [0..<n] mem b = mem b"
    and "i < 12 \<Longrightarrow> store64 (tos + 8 * of_nat i) v mem b = mem b"
proof -
  have out: "store64 (tos + 8 * of_nat i) v mem b = mem b" if "i < 12" for i v mem
  proof -
    have "unat (8 * of_nat i :: u64) = 8 * i" using that by (simp add: unat_word_ariths unat_of_nat)
    moreover from this have "unat ((b - tos) - 8 * of_nat i) = unat (b - tos) - unat (8 * of_nat i :: u64)"
      using that assms by (intro unat_sub) (simp add: word_le_nat_alt)
    ultimately have "unat (b - (tos + 8 * of_nat i)) = unat (b - tos) - 8 * i"
      by (simp add: diff_diff_eq)
    with that assms have "\<not> unat (b - (tos + 8 * of_nat i)) < 8" by linarith
    then show ?thesis by (simp add: store64_def)
  qed
  then show "i < 12 \<Longrightarrow> store64 (tos + 8 * of_nat i) v mem b = mem b" .
  show "n \<le> 12 \<Longrightarrow> fold (\<lambda>i. store64 (tos + 8 * of_nat i) 0) [0..<n] mem b = mem b"
    using out by (induction n) simp_all
qed

lemma initial_frame_outside: "96 \<le> unat (b - tos) \<Longrightarrow> initial_frame tos entry mem b = mem b"
  using fold_store_outside(2) [of b tos 1 entry] fold_store_outside(1) [of b tos 12 mem]
  by (simp add: initial_frame_def del: upt_Suc)

lemma unat_Suc_small: "unat x < 8 \<Longrightarrow> unat ((x :: u32) + 1) = Suc (unat x)"
  by (rule unat_Suc_u32) simp

lemma sched_add_task_eq:
  assumes ok: "sched_ok c k" and core: "on_core mpidr c" and room: "unat (task_count k ! c) < 8"
  shows "\<exists>k'. sched_add_task mpidr job k = Inr k' \<and> sched_ok c k' \<and>
    states c k' = states c k @ [TASK_READY] \<and> current c k' = current c k \<and>
    unat (task_count k' ! c) = Suc (unat (task_count k ! c)) \<and>
    (let idx = unat (task_count k ! c); t = task_pool k' ! c ! idx; tos = stack_end k c idx - 96 in
       t_id t = job_id job \<and> t_entry t = job_entry job \<and> t_name t = job_task_name job \<and>
       t_wake_tick t = 0 \<and> t_sp t = tos \<and> k_mem k' = initial_frame tos (job_entry job) (k_mem k))"
proof -
  let ?idx = "unat (task_count k ! c)" and ?tos = "stack_end k c (unat (task_count k ! c)) - 96"
  let ?t = "\<lparr>t_sp = ?tos, t_id = job_id job, t_state = TASK_READY, t_wake_tick = 0,
      t_entry = job_entry job, t_name = job_task_name job\<rparr>"
  have len: "c < 4" "length (task_pool k) = 4" "length (task_pool k ! c) = 8" "length (task_count k) = 4"
    using ok by (auto simp: sched_ok_def)
  obtain k' where k': "sched_add_task mpidr job k = Inr k'"
      "task_pool k' = task_pool (update_tcb c ?idx (\<lambda>_. ?t) k)"
      "task_count k' = (task_count k)[c := task_count k ! c + 1]" "current_task k' = current_task k"
      "tick_count k' = tick_count k" "k_mem k' = initial_frame ?tos (job_entry job) (k_mem k)"
    using core len room
    by (simp add: sched_add_task_def on_core_def CORE_COUNT_def MAX_TASKS_def Let_def)
  have row: "task_pool k' ! c = (task_pool k ! c)[?idx := ?t]"
    using k'(2) len by (simp add: update_tcb_def)
  have count: "unat (task_count k' ! c) = Suc ?idx"
    using k'(3) len room by (simp add: unat_Suc_small)
  have "sched_ok c k'"
    using ok k' row count room by (auto simp: sched_ok_def update_tcb_def)
  moreover have "states c k' = states c k @ [TASK_READY]"
    using row count len room by (simp add: states_def take_Suc_update)
  moreover have "current c k' = current c k" using k'(4) by (simp add: current_def)
  ultimately show ?thesis using k' row count len room by (simp add: Let_def)
qed

section \<open>Reachable scheduler states\<close>

text \<open>
  Core \<open>c\<close> after \<^verbatim>\<open>sched_run\<close>, and then any calls of \<^verbatim>\<open>task_yield\<close>, \<^verbatim>\<open>task_sleep_ms\<close> and
  \<^verbatim>\<open>sched_tick\<close> on it.
\<close>

inductive sched_reach :: "nat \<Rightarrow> kernel \<Rightarrow> bool" for c where
  start: "sched_ok c k \<Longrightarrow> on_core mpidr c \<Longrightarrow> set (states c k) \<subseteq> {TASK_READY} \<Longrightarrow>
    sched_run mpidr k = Inr k' \<Longrightarrow> sched_reach c k'"
| yield: "sched_reach c k \<Longrightarrow> on_core mpidr c \<Longrightarrow> task_yield mpidr k = Inr (sw, k') \<Longrightarrow> sched_reach c k'"
| sleep: "sched_reach c k \<Longrightarrow> on_core mpidr c \<Longrightarrow> task_sleep_ms mpidr ms k = Inr (sw, k') \<Longrightarrow>
    sched_reach c k'"
| tick: "sched_reach c k \<Longrightarrow> on_core mpidr c \<Longrightarrow> sched_tick mpidr k = Inr k' \<Longrightarrow> sched_reach c k'"

definition only_current :: "task_state list \<times> nat \<Rightarrow> bool" where
  [inv_defs]: "only_current = (\<lambda>(sts, cur). cur < length sts \<and>
     (\<forall>i < length sts. sts ! i = TASK_RUNNING \<longrightarrow> i = cur))"

lemma only_current_yield: "only_current a \<Longrightarrow> only_current (snd (abs_yield a))"
proof -
  assume only: "only_current a"
  obtain sts cur where a: "a = (sts, cur)" by (cases a)
  have cur: "cur < length sts" and run: "\<And>i. i < length sts \<Longrightarrow> sts ! i = TASK_RUNNING \<Longrightarrow> i = cur"
    using only by (auto simp: only_current_def a)
  let ?j = "abs_next sts cur"
  have new: "i = ?j" if "i < length sts" "sts[cur := TASK_READY, ?j := TASK_RUNNING] ! i = TASK_RUNNING" for i
  proof (rule ccontr)
    assume "i \<noteq> ?j"
    with that(2) have *: "sts[cur := TASK_READY] ! i = TASK_RUNNING" by simp
    with cur have "i \<noteq> cur" by auto
    with * run [OF that(1)] show False by simp
  qed
  show ?thesis
  proof (cases "?j = cur")
    case True
    then have "snd (abs_yield a) = a" by (simp add: a abs_yield_def)
    with only show ?thesis by (simp only:)
  next
    case False
    then have "snd (abs_yield a) = (sts[cur := TASK_READY, ?j := TASK_RUNNING], ?j)"
      by (simp add: a abs_yield_def Let_def)
    moreover have "only_current (sts[cur := TASK_READY, ?j := TASK_RUNNING], ?j)"
      unfolding only_current_def using abs_next_less [OF cur] new by simp
    ultimately show ?thesis by (simp only:)
  qed
qed

lemma states_tick:
  assumes "sched_ok c k" and "on_core mpidr c" and "sched_tick mpidr k = Inr k'"
  shows "sched_ok c k'" and "current c k' = current c k" and "length (states c k') = length (states c k)"
    and "\<forall>i < length (states c k). states c k' ! i =
      t_state (wake (tick_count k ! c + 1) (task_pool k ! c ! i))"
proof -
  note k' = assms(3) [unfolded sched_tick_eq [OF assms(1,2)], simplified]
  have len: "c < 4" "length (task_pool k) = 4" "length (task_pool k ! c) = 8" "unat (task_count k ! c) \<le> 8"
    using assms(1) by (auto simp: sched_ok_def)
  show "sched_ok c k'" using assms(1) len by (auto simp: sched_ok_def k' [symmetric])
  then show "length (states c k') = length (states c k)"
    using assms(1) by (simp add: length_states) (simp add: k' [symmetric])
  show "current c k' = current c k" by (simp add: current_def k' [symmetric])
  show "\<forall>i < length (states c k). states c k' ! i =
      t_state (wake (tick_count k ! c + 1) (task_pool k ! c ! i))"
    using len by (auto simp: states_def k' [symmetric])
qed

lemma sched_reach_inv: "sched_reach c k \<Longrightarrow> running c k \<and> only_current (abs_sched c k)"
proof (induction rule: sched_reach.induct)
  case (start k mpidr k')
  then have "task_count k ! c \<noteq> 0"
    by (auto simp: sched_run_def on_core_def CORE_COUNT_def sched_ok_def split: if_splits)
  with start sched_run_eq [of c k mpidr] have run: "running c k'" "current c k' = 0"
      "states c k' = (states c k)[0 := TASK_RUNNING]" by auto
  have "states c k ! i = TASK_READY" if "i < length (states c k)" for i
    using start(3) nth_mem [OF that] by blast
  with run show ?case
    by (auto simp: only_current_def abs_sched_def running_def nth_list_update split: if_splits)
next
  case (yield k mpidr sw k')
  then obtain "running c k'" "(sw, abs_sched c k') = abs_yield (abs_sched c k)"
    using task_yield_abs [of c k mpidr] by auto
  with yield show ?case by (metis only_current_yield snd_conv)
next
  case (sleep k mpidr ms sw k')
  let ?a = "((states c k)[current c k := TASK_SLEEPING], current c k)"
  from sleep obtain "running c k'" "(sw, abs_sched c k') = abs_yield ?a"
    using task_sleep_abs [of c k mpidr ms] by auto
  moreover have "only_current ?a"
    using sleep by (auto simp: only_current_def abs_sched_def nth_list_update split: if_splits)
  ultimately show ?case by (metis only_current_yield snd_conv)
next
  case (tick k mpidr k')
  then have ok: "sched_ok c k" by (simp add: running_def)
  note t = states_tick [OF ok tick(2,3)]
  have "states c k ! i = TASK_RUNNING" if "i < length (states c k)" "states c k' ! i = TASK_RUNNING" for i
    using that t(4) states_nth [OF ok that(1)] by (auto simp: wake_def split: if_splits)
  with tick t show ?case by (auto simp: running_def only_current_def abs_sched_def)
qed

section \<open>Registering several tasks\<close>

primrec add_tasks :: "u64 \<Rightarrow> job list \<Rightarrow> kernel \<Rightarrow> kernel exec" where
  "add_tasks mpidr [] k = Inr k"
| "add_tasks mpidr (j # js) k = bind_exec (sched_add_task mpidr j k) (add_tasks mpidr js)"

lemma sched_add_task_full:
  assumes "sched_ok c k" and "on_core mpidr c" and "unat (task_count k ! c) = 8"
  shows "sched_add_task mpidr job k = Inl OutOfBounds"
  using assms by (simp add: sched_add_task_def on_core_def MAX_TASKS_def Let_def)

lemma add_tasks_result:
  assumes "sched_ok c k" and "on_core mpidr c"
  shows "if unat (task_count k ! c) + length js \<le> 8
    then \<exists>k'. add_tasks mpidr js k = Inr k' \<and> sched_ok c k' \<and> current c k' = current c k \<and>
      states c k' = states c k @ replicate (length js) TASK_READY
    else add_tasks mpidr js k = Inl OutOfBounds"
  using assms(1)
proof (induction js arbitrary: k)
  case Nil
  then show ?case by (simp add: sched_ok_def)
next
  case (Cons j js)
  show ?case
  proof (cases "unat (task_count k ! c) < 8")
    case True
    obtain k1 where k1: "sched_add_task mpidr j k = Inr k1" "sched_ok c k1"
        "states c k1 = states c k @ [TASK_READY]" "current c k1 = current c k"
        "unat (task_count k1 ! c) = Suc (unat (task_count k ! c))"
      using sched_add_task_eq [OF Cons.prems assms(2) True, of j] by blast
    from Cons.IH [OF k1(2)] k1 show ?thesis by (auto simp: replicate_append_same)
  next
    case False
    with Cons.prems have "unat (task_count k ! c) = 8" by (simp add: sched_ok_def)
    with sched_add_task_full [OF Cons.prems assms(2)] show ?thesis by simp
  qed
qed

lemma stack_end_mod:
  assumes "unat (k_pool_addr k) mod 16 = 0"
  shows "unat (stack_end k c i - 96) mod 16 = (8 * i + 10) mod 16"
proof -
  let ?n = "(c * 8 + i) * 2088 + 1962"
  have "stack_end k c i - 96 = k_pool_addr k + of_nat ?n"
    by (simp add: stack_end_def MAX_TASKS_def sizeof_tcb_def stack_offset_def TASK_STACK_SIZE_def)
  then have "unat (stack_end k c i - 96) mod 16 = (unat (k_pool_addr k) + ?n) mod 16"
    by (simp only: unat_add_mod_16)
  also have "\<dots> = ?n mod 16" using assms by (metis add_0 mod_add_left_eq)
  also have "\<dots> = (8 * i + 10) mod 16"
  proof -
    have "?n = (8 * i + 10) + 16 * (1044 * c + 130 * i + 122)" by simp
    then show ?thesis by (simp only: mod_mult_self2)
  qed
  finally show ?thesis .
qed

section \<open>Properties\<close>

text \<open>Zeroed static variables, and the same with three registered tasks on core 0.\<close>

definition zero_tcb :: tcb where
  "zero_tcb = \<lparr>t_sp = 0, t_id = 0, t_state = TASK_READY, t_wake_tick = 0, t_entry = 0, t_name = []\<rparr>"

definition zero_kernel :: kernel where
  "zero_kernel = \<lparr>k_sys = \<lparr>sys_lock = 0, sys_mailboxes = [], sys_ring = \<lparr>rb_head = 0, rb_tail = 0, rb_data = []\<rparr>,
       sys_key = [], sys_console = []\<rparr>, k_mem = (\<lambda>a. 0xAA), k_pool_addr = 0x40100000,
     task_pool = replicate 4 (replicate 8 zero_tcb), task_count = replicate 4 0,
     current_task = replicate 4 0, tick_count = replicate 4 0, boot_temp = replicate 4 zero_tcb\<rparr>"

definition three_tasks :: kernel where
  "three_tasks = zero_kernel\<lparr>task_count := [3, 0, 0, 0],
     task_pool := (task_pool zero_kernel)[0 := zero_tcb\<lparr>t_state := TASK_RUNNING\<rparr> # replicate 7 zero_tcb]\<rparr>"

lemma zero_kernel_ok: "c < 4 \<Longrightarrow> sched_ok c zero_kernel \<and> task_count zero_kernel ! c = 0"
  by (simp add: sched_ok_def zero_kernel_def)

lemma three_tasks_states: "states 0 three_tasks = [TASK_RUNNING, TASK_READY, TASK_READY]"
  by (simp add: states_def three_tasks_def zero_kernel_def zero_tcb_def take_Cons')
    (simp add: numeral_2_eq_2)

lemma three_tasks_running: "running 0 three_tasks \<and> current 0 three_tasks = 0"
  using three_tasks_states
  by (simp add: running_def current_def) (simp add: sched_ok_def three_tasks_def zero_kernel_def)

lemma on_core_0 [simp]: "on_core 0x80000000 0"
  by (simp add: on_core_def get_core_id_def)

text \<open>
  Property C21: \<^verbatim>\<open>task_yield\<close> and the search loop of \<^verbatim>\<open>pick_next\<close>, with their 32-bit arithmetic and
  array accesses, return on every core that runs a task and compute the abstract scheduler's
  step: the first ready task after the current one in cyclic order, or the current one.
\<close>
theorem task_yield_refines:
  assumes "running c k" and "on_core mpidr c"
  shows "\<exists>sw k'. task_yield mpidr k = Inr (sw, k') \<and> running c k' \<and>
    (sw, abs_sched c k') = abs_yield (abs_sched c k)"
  using task_yield_abs [OF assms] by blast

lemma task_yield_refines_witness:
  "\<exists>k'. task_yield 0x80000000 three_tasks = Inr (Some (0, 1), k') \<and>
     states 0 k' = [TASK_READY, TASK_RUNNING, TASK_READY] \<and> current 0 k' = 1"
proof -
  have "abs_yield (abs_sched 0 three_tasks) = (Some (0, 1), [TASK_READY, TASK_RUNNING, TASK_READY], 1)"
    by (simp add: abs_sched_def three_tasks_states three_tasks_running abs_yield_def abs_next_def upt_rec)
  with task_yield_refines [of 0 three_tasks "0x80000000"] three_tasks_running show ?thesis
    by (auto simp: abs_sched_def)
qed

text \<open>
  Round robin.  When every registered task is ready, \<^verbatim>\<open>sched_run\<close> starts task 0 and
  after any number \<open>m\<close> of yields the current task is \<open>m\<close> modulo the number of tasks, it alone is
  running and all others are ready.
\<close>
theorem sched_round_robin:
  assumes "sched_ok c k" and "on_core mpidr c" and "states c k = replicate n TASK_READY" and "0 < n"
  shows "\<exists>k1 k2. sched_run mpidr k = Inr k1 \<and> yields mpidr m k1 = Inr k2 \<and> current c k2 = m mod n \<and>
    states c k2 = (replicate n TASK_READY)[m mod n := TASK_RUNNING]"
proof -
  have "task_count k ! c \<noteq> 0" using length_states [OF assms(1)] assms(3,4) by auto
  then obtain k1 where k1: "sched_run mpidr k = Inr k1" "running c k1" "current c k1 = 0"
      "states c k1 = (replicate n TASK_READY)[0 := TASK_RUNNING]"
    using sched_run_eq [OF assms(1,2)] assms(3) by auto
  obtain k2 where k2: "yields mpidr m k1 = Inr k2" "abs_sched c k2 = (abs_step ^^ m) (abs_sched c k1)"
    using yields_abs [OF k1(2) assms(2)] by blast
  have "rotation n (abs_sched c k1)"
    using k1 assms(4) by (auto simp: rotation_def abs_sched_def nth_list_update)
  then have rot: "rotation n (abs_sched c k2)" "snd (abs_sched c k2) = m mod n"
    using rotation_yields [of n "states c k1" "current c k1" m] k1(3) k2(2) by (auto simp: abs_sched_def)
  then have "current c k2 = m mod n" by (simp add: abs_sched_def)
  moreover have "states c k2 = (replicate n TASK_READY)[m mod n := TASK_RUNNING]"
    using rot by (intro nth_equalityI) (auto simp: rotation_def abs_sched_def nth_list_update)
  ultimately show ?thesis using k1(1) k2(1) by blast
qed

definition ready3 :: kernel where
  "ready3 = zero_kernel\<lparr>task_count := [3, 0, 0, 0]\<rparr>"

lemma ready3_ok: "sched_ok 0 ready3 \<and> states 0 ready3 = replicate 3 TASK_READY"
  by (simp add: ready3_def sched_ok_def states_def zero_kernel_def zero_tcb_def)

lemma sched_round_robin_witness:
  "\<exists>k1 k2. sched_run 0x80000000 ready3 = Inr k1 \<and> yields 0x80000000 1000 k1 = Inr k2 \<and> current 0 k2 = 1"
  using sched_round_robin [of 0 ready3 "0x80000000" 3 1000] ready3_ok by auto

text \<open>
  Property C28: no starvation.  A ready task runs after at most as many yields as it is away from
  the current task in cyclic order, whatever the states of the other tasks.
\<close>
theorem sched_no_starvation:
  assumes "running c k" and "on_core mpidr c" and "j < length (states c k)" and "states c k ! j = TASK_READY"
  shows "\<exists>m k'. 1 \<le> m \<and> m \<le> ahead (length (states c k)) (current c k) j \<and> m \<le> 8 \<and>
    yields mpidr m k = Inr k' \<and> current c k' = j"
proof -
  have cur: "current c k < length (states c k)" "length (states c k) \<le> 8"
    using assms(1) length_states [of c k] by (auto simp: running_def sched_ok_def)
  obtain m where m: "1 \<le> m" "m \<le> ahead (length (states c k)) (current c k) j"
      "snd ((abs_step ^^ m) (abs_sched c k)) = j"
    using ready_task_runs [OF cur(1) assms(3,4)] by (auto simp: abs_sched_def)
  obtain k' where "yields mpidr m k = Inr k'" "abs_sched c k' = (abs_step ^^ m) (abs_sched c k)"
    using yields_abs [OF assms(1,2)] by blast
  moreover have "m \<le> 8" using m(2) cur ahead_bounds [OF cur(1) assms(3)] by linarith
  ultimately show ?thesis using m by (metis abs_sched_def snd_conv)
qed

lemma sched_no_starvation_witness:
  "\<exists>m k'. 1 \<le> m \<and> m \<le> 2 \<and> yields 0x80000000 m three_tasks = Inr k' \<and> current 0 k' = 2"
  using sched_no_starvation [of 0 three_tasks "0x80000000" 2] three_tasks_running three_tasks_states
  by (auto simp: ahead_def)

text \<open>
  Property C33: the scheduler invariant.  In every state reached from \<^verbatim>\<open>sched_run\<close> by yields, sleeps
  and ticks in any order, the current task index is one of the registered tasks, no task but
  the current one is marked running, and each of the three operations returns.
\<close>
theorem sched_invariant:
  assumes "sched_reach c k" and "on_core mpidr c"
  shows "current c k < unat (task_count k ! c) \<and> unat (task_count k ! c) \<le> MAX_TASKS \<and>
    (\<forall>i < unat (task_count k ! c). t_state (task_pool k ! c ! i) = TASK_RUNNING \<longrightarrow> i = current c k) \<and>
    (\<exists>r. task_yield mpidr k = Inr r) \<and> (\<exists>r. task_sleep_ms mpidr ms k = Inr r) \<and>
    (\<exists>r. sched_tick mpidr k = Inr r)"
proof -
  have run: "running c k" and only: "only_current (abs_sched c k)" using sched_reach_inv [OF assms(1)] by auto
  then have ok: "sched_ok c k" by (simp add: running_def)
  have "\<exists>r. task_yield mpidr k = Inr r" using task_yield_abs [OF run assms(2)] by blast
  moreover have "\<exists>r. task_sleep_ms mpidr ms k = Inr r" using task_sleep_abs [OF run assms(2)] by blast
  moreover have "\<exists>r. sched_tick mpidr k = Inr r" using sched_tick_eq [OF ok assms(2)] by blast
  moreover have "unat (task_count k ! c) \<le> MAX_TASKS" using ok by (simp add: sched_ok_def MAX_TASKS_def)
  ultimately show ?thesis
    using only length_states [OF ok] states_nth [OF ok] by (auto simp: only_current_def abs_sched_def)
qed

lemma sched_invariant_witness:
  "\<exists>k. sched_reach 0 k \<and> current 0 k < unat (task_count k ! 0) \<and> (\<exists>r. task_sleep_ms 0x80000000 5 k = Inr r)"
proof -
  have "task_count ready3 ! 0 \<noteq> 0" by (simp add: ready3_def)
  then obtain k where "sched_run 0x80000000 ready3 = Inr k"
    using sched_run_eq [of 0 ready3 "0x80000000"] ready3_ok by auto
  then have "sched_reach 0 k"
    using ready3_ok by (intro sched_reach.start [of 0 ready3 "0x80000000"]) auto
  with sched_invariant [of 0 k "0x80000000" 5] show ?thesis by auto
qed

text \<open>
  \<^verbatim>\<open>sched_tick\<close> counts one tick and makes ready exactly the sleeping tasks whose
  \<^verbatim>\<open>wake_tick\<close> has come; every other task keeps its state and the current task stays.
\<close>
theorem sched_tick_wakes:
  assumes "sched_ok c k" and "on_core mpidr c"
  shows "\<exists>k'. sched_tick mpidr k = Inr k' \<and> tick_count k' ! c = tick_count k ! c + 1 \<and>
    current c k' = current c k \<and>
    (\<forall>i < unat (task_count k ! c). t_state (task_pool k' ! c ! i) =
       (if t_state (task_pool k ! c ! i) = TASK_SLEEPING \<and> t_wake_tick (task_pool k ! c ! i) \<le> tick_count k ! c + 1
        then TASK_READY else t_state (task_pool k ! c ! i)))"
proof -
  have len: "c < 4" "length (task_pool k) = 4" "length (task_pool k ! c) = 8" "unat (task_count k ! c) \<le> 8"
      "length (tick_count k) = 4"
    using assms(1) by (auto simp: sched_ok_def)
  then show ?thesis
    by (auto simp: sched_tick_eq [OF assms] current_def wake_def nth_append)
qed

lemma sched_tick_wakes_witness:
  "\<exists>k'. sched_tick 0x80000000 (three_tasks\<lparr>tick_count := [9, 0, 0, 0], task_pool :=
       (task_pool three_tasks)[0 := zero_tcb # zero_tcb\<lparr>t_state := TASK_SLEEPING, t_wake_tick := 10\<rparr> #
         zero_tcb\<lparr>t_state := TASK_SLEEPING, t_wake_tick := 11\<rparr> # replicate 5 zero_tcb]\<rparr>) = Inr k' \<and>
     t_state (task_pool k' ! 0 ! 1) = TASK_READY \<and> t_state (task_pool k' ! 0 ! 2) = TASK_SLEEPING"
proof -
  let ?k = "three_tasks\<lparr>tick_count := [9, 0, 0, 0], task_pool :=
       (task_pool three_tasks)[0 := zero_tcb # zero_tcb\<lparr>t_state := TASK_SLEEPING, t_wake_tick := 10\<rparr> #
         zero_tcb\<lparr>t_state := TASK_SLEEPING, t_wake_tick := 11\<rparr> # replicate 5 zero_tcb]\<rparr>"
  have ok: "sched_ok 0 ?k" and three: "unat (task_count ?k ! 0) = 3"
    by (simp_all add: sched_ok_def three_tasks_def zero_kernel_def)
  obtain k' where k': "sched_tick 0x80000000 ?k = Inr k'"
      "\<forall>i < 3. t_state (task_pool k' ! 0 ! i) = (if t_state (task_pool ?k ! 0 ! i) = TASK_SLEEPING \<and>
         t_wake_tick (task_pool ?k ! 0 ! i) \<le> tick_count ?k ! 0 + 1
         then TASK_READY else t_state (task_pool ?k ! 0 ! i))"
    using sched_tick_wakes [OF ok, of "0x80000000"] unfolding three by auto
  have "task_pool ?k ! 0 ! 1 = zero_tcb\<lparr>t_state := TASK_SLEEPING, t_wake_tick := 10\<rparr>"
    "task_pool ?k ! 0 ! 2 = zero_tcb\<lparr>t_state := TASK_SLEEPING, t_wake_tick := 11\<rparr>" "tick_count ?k ! 0 = 9"
    by (simp_all add: three_tasks_def zero_kernel_def)
  with k'(2) have "t_state (task_pool k' ! 0 ! 1) = TASK_READY" "t_state (task_pool k' ! 0 ! 2) = TASK_SLEEPING"
    by (simp_all add: zero_tcb_def)
  with k'(1) show ?thesis by blast
qed

text \<open>
  \<^verbatim>\<open>sched_add_task\<close> on a core with room.  The new task is the last of the core's list,
  ready, with the job's fields; a context switch to it will pop its entry address into the link
  register and zeros into all other registers, and outside the 96 bytes of that frame no stack
  memory has changed.
\<close>
theorem sched_add_task_spec:
  assumes "sched_ok c k" and "on_core mpidr c" and "unat (task_count k ! c) < MAX_TASKS"
  shows "\<exists>k'. sched_add_task mpidr job k = Inr k' \<and> sched_ok c k' \<and>
    states c k' = states c k @ [TASK_READY] \<and>
    (let t = task_pool k' ! c ! unat (task_count k ! c) in
       t_id t = job_id job \<and> t_entry t = job_entry job \<and> t_name t = job_task_name job \<and>
       t_sp t = stack_end k c (unat (task_count k ! c)) - 96 \<and>
       (\<forall>i < 12. load64 (t_sp t + 8 * of_nat i) (k_mem k') = (if i = 1 then job_entry job else 0)) \<and>
       (\<forall>a. 96 \<le> unat (a - t_sp t) \<longrightarrow> k_mem k' a = k_mem k a))"
proof -
  let ?idx = "unat (task_count k ! c)" and ?tos = "stack_end k c (unat (task_count k ! c)) - 96"
  obtain k' where k': "sched_add_task mpidr job k = Inr k'" "sched_ok c k'"
      "states c k' = states c k @ [TASK_READY]" "k_mem k' = initial_frame ?tos (job_entry job) (k_mem k)"
      "t_id (task_pool k' ! c ! ?idx) = job_id job" "t_entry (task_pool k' ! c ! ?idx) = job_entry job"
      "t_name (task_pool k' ! c ! ?idx) = job_task_name job" "t_sp (task_pool k' ! c ! ?idx) = ?tos"
    using sched_add_task_eq [OF assms(1,2), of job] assms(3) by (auto simp: MAX_TASKS_def Let_def)
  moreover have "\<forall>i < 12. load64 (?tos + 8 * of_nat i) (k_mem k') = (if i = 1 then job_entry job else 0)"
    unfolding k'(4) using load_initial_frame by blast
  moreover have "\<forall>a. 96 \<le> unat (a - ?tos) \<longrightarrow> k_mem k' a = k_mem k a"
    unfolding k'(4) using initial_frame_outside by blast
  ultimately show ?thesis unfolding Let_def by metis
qed

definition sample_job :: job where
  "sample_job = \<lparr>job_id = 1, job_core_id = 0, job_task_name = ''ring_consumer'', job_entry = 0x40080000\<rparr>"

lemma sched_add_task_spec_witness:
  "\<exists>k'. sched_add_task 0x80000000 sample_job ready3 = Inr k' \<and>
     states 0 k' = replicate 3 TASK_READY @ [TASK_READY] \<and>
     load64 (t_sp (task_pool k' ! 0 ! 3) + 8 * of_nat 1) (k_mem k') = 0x40080000"
proof -
  have idx: "unat (task_count ready3 ! 0) = 3" by (simp add: ready3_def)
  then have "unat (task_count ready3 ! 0) < MAX_TASKS" by (simp add: MAX_TASKS_def)
  with sched_add_task_spec [of 0 ready3 "0x80000000" sample_job] ready3_ok
  obtain k' where "sched_add_task 0x80000000 sample_job ready3 = Inr k'"
      "states 0 k' = replicate 3 TASK_READY @ [TASK_READY]"
      "\<forall>i < 12. load64 (t_sp (task_pool k' ! 0 ! 3) + 8 * of_nat i) (k_mem k') =
        (if i = 1 then job_entry sample_job else 0)"
    unfolding idx Let_def by auto
  moreover from this(3) have "load64 (t_sp (task_pool k' ! 0 ! 3) + 8 * of_nat 1) (k_mem k') =
      (if (1 :: nat) = 1 then job_entry sample_job else 0)"
    by (elim allE [of _ 1]) (erule mp, simp)
  moreover have "job_entry sample_job = 0x40080000" by (simp add: sample_job_def)
  ultimately show ?thesis by (intro exI [of _ k']) (simp only: simp_thms if_True)
qed

text \<open>
  Registering a list of jobs succeeds exactly when it does not exceed eight tasks per
  core, and then appends that many ready tasks; the ninth task is written outside the core's
  row of \<^verbatim>\<open>task_pool\<close>, because \<^verbatim>\<open>sched_add_task\<close> does not compare with \<^verbatim>\<open>MAX_TASKS\<close>.
\<close>
theorem sched_add_tasks_bound:
  assumes "sched_ok c k" and "on_core mpidr c"
  shows "if length (states c k) + length js \<le> MAX_TASKS
    then \<exists>k'. add_tasks mpidr js k = Inr k' \<and> sched_ok c k' \<and>
      states c k' = states c k @ replicate (length js) TASK_READY
    else add_tasks mpidr js k = Inl OutOfBounds"
  using add_tasks_result [OF assms, of js] length_states [OF assms(1)]
  by (auto simp: MAX_TASKS_def split: if_splits)

lemma sched_add_tasks_bound_witness:
  "add_tasks 0x80000000 (replicate 9 sample_job) zero_kernel = Inl OutOfBounds \<and>
   (\<exists>k'. add_tasks 0x80000000 (replicate 8 sample_job) zero_kernel = Inr k' \<and>
      states 0 k' = replicate 8 TASK_READY)"
proof -
  have "sched_ok 0 zero_kernel" "length (states 0 zero_kernel) = 0" "states 0 zero_kernel = []"
    using zero_kernel_ok [of 0] by (simp_all add: states_def)
  with sched_add_tasks_bound [of 0 zero_kernel "0x80000000" "replicate 9 sample_job"]
    sched_add_tasks_bound [of 0 zero_kernel "0x80000000" "replicate 8 sample_job"]
  show ?thesis by (auto simp: MAX_TASKS_def)
qed

text \<open>
  Property C36: \<^verbatim>\<open>task_sleep_ms\<close> does not put the task to sleep.  When another task is ready the
  caller is left ready, not sleeping, and can be scheduled again at once; when no other task
  is ready the call returns without any switch, the caller still running although it is marked
  sleeping.
\<close>
theorem sched_sleep_does_not_sleep:
  assumes "running c k" and "on_core mpidr c"
  shows "if \<exists>j < length (states c k). j \<noteq> current c k \<and> states c k ! j = TASK_READY
    then \<exists>j k'. task_sleep_ms mpidr ms k = Inr (Some (current c k, j), k') \<and> j \<noteq> current c k \<and>
      states c k' ! current c k = TASK_READY
    else \<exists>k'. task_sleep_ms mpidr ms k = Inr (None, k') \<and> current c k' = current c k \<and>
      states c k' = (states c k)[current c k := TASK_SLEEPING]"
proof -
  let ?cur = "current c k" and ?sts = "(states c k)[current c k := TASK_SLEEPING]"
  let ?j = "abs_next ?sts ?cur"
  have cur: "?cur < length (states c k)" using assms(1) by (simp add: running_def)
  obtain sw k' where k': "task_sleep_ms mpidr ms k = Inr (sw, k')" "(sw, abs_sched c k') = abs_yield (?sts, ?cur)"
    using task_sleep_abs [OF assms] by blast
  have ready: "?sts ! i = TASK_READY \<longleftrightarrow> i \<noteq> ?cur \<and> states c k ! i = TASK_READY" if "i < length (states c k)" for i
    using that cur by (auto simp: nth_list_update)
  have sel: "?j \<noteq> ?cur \<longleftrightarrow> (\<exists>j < length (states c k). j \<noteq> ?cur \<and> states c k ! j = TASK_READY)"
    by (cases rule: abs_next_cases [of ?cur ?sts]) (use cur ready in auto)
  have "?j < length (states c k)" using abs_next_less [of ?cur ?sts] cur by simp
  with k' sel cur show ?thesis
    by (auto simp: abs_yield_def abs_sched_def Let_def split: if_splits)
qed

lemma sched_sleep_does_not_sleep_witness:
  "\<exists>j k'. task_sleep_ms 0x80000000 1000 three_tasks = Inr (Some (0, j), k') \<and>
     states 0 k' ! 0 = TASK_READY"
proof -
  have "\<exists>j < length (states 0 three_tasks). j \<noteq> current 0 three_tasks \<and> states 0 three_tasks ! j = TASK_READY"
    by (intro exI [of _ 1]) (simp add: three_tasks_states three_tasks_running)
  with sched_sleep_does_not_sleep [of 0 three_tasks "0x80000000" 1000] three_tasks_running show ?thesis
    by auto
qed

text \<open>
  The initial stack pointers are misaligned.  With \<^verbatim>\<open>task_pool\<close> at a multiple of 16,
  the stack pointer stored for task \<open>i\<close> is 10 or 2 modulo 16, never a multiple of 16 as the
  AArch64 procedure call standard requires of \<^verbatim>\<open>sp\<close>, because the stack array follows a 16-bit
  field.
\<close>
theorem sched_stack_misaligned:
  assumes "sched_ok c k" and "on_core mpidr c" and "unat (task_count k ! c) < MAX_TASKS"
    and "unat (k_pool_addr k) mod 16 = 0" and "sched_add_task mpidr job k = Inr k'"
  shows "unat (t_sp (task_pool k' ! c ! unat (task_count k ! c))) mod 16 =
    (if even (unat (task_count k ! c)) then 10 else 2)"
proof -
  let ?i = "unat (task_count k ! c)"
  have "t_sp (task_pool k' ! c ! ?i) = stack_end k c ?i - 96"
    using sched_add_task_eq [OF assms(1,2), of job] assms(3,5) by (auto simp: MAX_TASKS_def Let_def)
  moreover have "(8 * ?i + 10) mod 16 = (if even ?i then 10 else 2)"
    by (auto elim!: evenE oddE)
  ultimately show ?thesis using stack_end_mod [OF assms(4)] by simp
qed

lemma sched_stack_misaligned_witness:
  "\<exists>k'. sched_add_task 0x80000000 sample_job zero_kernel = Inr k' \<and>
     unat (t_sp (task_pool k' ! 0 ! 0)) mod 16 = 10"
proof -
  have ok: "sched_ok 0 zero_kernel" "task_count zero_kernel ! 0 = 0" "unat (k_pool_addr zero_kernel) mod 16 = 0"
    using zero_kernel_ok [of 0] by (simp_all add: zero_kernel_def)
  then obtain k' where "sched_add_task 0x80000000 sample_job zero_kernel = Inr k'"
    using sched_add_task_eq [of 0 zero_kernel "0x80000000" sample_job] by auto
  with sched_stack_misaligned [of 0 zero_kernel "0x80000000" sample_job k'] ok show ?thesis
    by (simp add: MAX_TASKS_def)
qed

end
