(* ===== verification/Context_Switch.thy ===== *)
theory Context_Switch
  imports Scheduler
begin

text \<open>
  \<^verbatim>\<open>src/sched.S\<close>: the context switch, instruction by instruction, on the general registers, the
  stack pointer and the byte memory of the stacks, and its composition with the decisions of
  the scheduler.  A context that was switched out comes back with the registers it had, and
  the first switch to a task jumps to its entry function.
\<close>

section \<open>The code\<close>

record cpu =
  regs :: "nat \<Rightarrow> u64"     \<comment> \<open>x0 to x30\<close>
  sp_reg :: u64
  pc_reg :: u64

text \<open>The two kinds of TCB the assembly gets a pointer to, and the \<open>sp\<close> field at offset 0.\<close>

datatype tcb_ref = Pool nat nat | Boot nat

primrec get_sp :: "tcb_ref \<Rightarrow> kernel \<Rightarrow> u64" where
  "get_sp (Pool core i) k = t_sp (task_pool k ! core ! i)"
| "get_sp (Boot core) k = t_sp (boot_temp k ! core)"

primrec set_sp :: "tcb_ref \<Rightarrow> u64 \<Rightarrow> kernel \<Rightarrow> kernel" where
  "set_sp (Pool core i) v k = update_tcb core i (\<lambda>t. t\<lparr>t_sp := v\<rparr>) k"
| "set_sp (Boot core) v k = k\<lparr>boot_temp := (boot_temp k)[core := (boot_temp k ! core)\<lparr>t_sp := v\<rparr>]\<rparr>"

text \<open>\<^verbatim>\<open>stp xa, xb, [sp, #-16]!\<close> and \<^verbatim>\<open>ldp xa, xb, [sp], #16\<close>.\<close>

definition stp_pre :: "nat \<Rightarrow> nat \<Rightarrow> cpu \<times> kernel \<Rightarrow> cpu \<times> kernel" where
  "stp_pre a b = (\<lambda>(cpu, k). let sp = sp_reg cpu - 16 in
     (cpu\<lparr>sp_reg := sp\<rparr>,
      k\<lparr>k_mem := store64 (sp + 8) (regs cpu b) (store64 sp (regs cpu a) (k_mem k))\<rparr>))"

definition ldp_post :: "nat \<Rightarrow> nat \<Rightarrow> cpu \<times> kernel \<Rightarrow> cpu \<times> kernel" where
  "ldp_post a b = (\<lambda>(cpu, k). let sp = sp_reg cpu in
     (cpu\<lparr>regs := (regs cpu)(a := load64 sp (k_mem k), b := load64 (sp + 8) (k_mem k)),
          sp_reg := sp + 16\<rparr>, k))"

definition push_callee_saved :: "cpu \<times> kernel \<Rightarrow> cpu \<times> kernel" where
  "push_callee_saved s = (let s = stp_pre 19 20 s; s = stp_pre 21 22 s; s = stp_pre 23 24 s;
     s = stp_pre 25 26 s; s = stp_pre 27 28 s in stp_pre 29 30 s)"

definition pop_callee_saved :: "cpu \<times> kernel \<Rightarrow> cpu \<times> kernel" where
  "pop_callee_saved s = (let s = ldp_post 29 30 s; s = ldp_post 27 28 s; s = ldp_post 25 26 s;
     s = ldp_post 23 24 s; s = ldp_post 21 22 s in ldp_post 19 20 s)"

definition sched_context_switch :: "tcb_ref \<Rightarrow> tcb_ref \<Rightarrow> cpu \<times> kernel \<Rightarrow> cpu \<times> kernel" where
  "sched_context_switch old_tcb new_tcb s =
     (let (cpu, k) = push_callee_saved s;
          k = set_sp old_tcb (sp_reg cpu) k;
          x2 = get_sp new_tcb k;
          cpu = cpu\<lparr>regs := (regs cpu)(2 := x2), sp_reg := x2\<rparr>;
          (cpu, k) = pop_callee_saved (cpu, k)
      in (cpu\<lparr>pc_reg := regs cpu 30\<rparr>, k))"

text \<open>
  \<^verbatim>\<open>task_yield\<close> and \<^verbatim>\<open>sched_run\<close> with the switch they end in; \<open>cpu\<close> is the register file at the
  call of the assembly, its x30 the return address into the caller.
\<close>

definition task_yield_cpu :: "u64 \<Rightarrow> cpu \<times> kernel \<Rightarrow> (cpu \<times> kernel) exec" where
  "task_yield_cpu mpidr = (\<lambda>(cpu, k). let core = unat (get_core_id mpidr) in
     bind_exec (task_yield mpidr k) (\<lambda>(sw, k). case sw of
         None \<Rightarrow> Inr (cpu, k)
       | Some (old, new) \<Rightarrow> Inr (sched_context_switch (Pool core old) (Pool core new) (cpu, k))))"

definition sched_run_cpu :: "u64 \<Rightarrow> cpu \<times> kernel \<Rightarrow> (cpu \<times> kernel) exec" where
  "sched_run_cpu mpidr = (\<lambda>(cpu, k). let core = unat (get_core_id mpidr) in
     bind_exec (sched_run mpidr k) (\<lambda>k.
       Inr (sched_context_switch (Boot core) (Pool core 0) (cpu, k))))"

section \<open>Saved contexts\<close>

text \<open>The register in slot \<open>i\<close> of a frame, counted from its lowest address.\<close>

definition slot_reg :: "nat \<Rightarrow> nat" where
  "slot_reg i = 29 - 2 * (i div 2) + i mod 2"

definition frame_at :: "u64 \<Rightarrow> (nat \<Rightarrow> u64) \<Rightarrow> memory \<Rightarrow> bool" where
  "frame_at b r m \<longleftrightarrow> (\<forall>i < 12. load64 (b + 8 * of_nat i) m = r (slot_reg i))"

definition frames_apart :: "u64 \<Rightarrow> u64 \<Rightarrow> bool" where
  "frames_apart a b \<longleftrightarrow> (\<forall>i < 12. \<forall>j < 12. apart (a + 8 * of_nat i) (b + 8 * of_nat j))"

text \<open>The context \<open>cpu\<close> is what a switch to the TCB will bring back.\<close>

definition saved :: "tcb_ref \<Rightarrow> cpu \<Rightarrow> kernel \<Rightarrow> bool" where
  "saved ref cpu k \<longleftrightarrow> get_sp ref k = sp_reg cpu - 96 \<and> frame_at (sp_reg cpu - 96) (regs cpu) (k_mem k)"

lemma less_12: "i < 12 \<longleftrightarrow> i \<in> {0, 1, 2, 3, 4, 5, 6, 7, 8, 9, 10, 11 :: nat}"
  by (simp; presburger)

definition pushed :: "u64 \<Rightarrow> (nat \<Rightarrow> u64) \<Rightarrow> memory \<Rightarrow> memory" where
  "pushed b r m = fold (\<lambda>i. store64 (b + 8 * of_nat i) (r (slot_reg i)))
     [10, 11, 8, 9, 6, 7, 4, 5, 2, 3, 0, 1] m"

lemma push_eq:
  "push_callee_saved (cpu, k) = (cpu\<lparr>sp_reg := sp_reg cpu - 96\<rparr>,
     k\<lparr>k_mem := pushed (sp_reg cpu - 96) (regs cpu) (k_mem k)\<rparr>)"
  by (simp add: push_callee_saved_def stp_pre_def pushed_def slot_reg_def Let_def)

lemma pushed_frame: "frame_at b r (pushed b r m)"
proof -
  have "load64 (b + 8 * of_nat i) (fold (\<lambda>i. store64 (b + 8 * of_nat i) (r (slot_reg i))) is m) =
      (if i \<in> set is then r (slot_reg i) else load64 (b + 8 * of_nat i) m)"
    if "i < 12" "set is \<subseteq> {..<12}" for i "is"
    using that(2)
  proof (induction "is" arbitrary: m)
    case Nil
    then show ?case by simp
  next
    case (Cons j "is")
    with that(1) apart_slots [of j i b] show ?case by (cases "i = j") auto
  qed
  from this [of _ "[10, 11, 8, 9, 6, 7, 4, 5, 2, 3, 0, 1]"] show ?thesis
    by (auto simp: frame_at_def pushed_def less_12)
qed

lemma pushed_apart: "frames_apart b a \<Longrightarrow> frame_at a r (pushed b r' m) = frame_at a r m"
proof -
  assume apart: "frames_apart b a"
  have far: "load64 (a + 8 * of_nat i) (fold (\<lambda>i. store64 (b + 8 * of_nat i) (r' (slot_reg i))) is m) =
      load64 (a + 8 * of_nat i) m" if "i < 12" "set is \<subseteq> {..<12}" for i "is"
    using that(2)
  proof (induction "is" arbitrary: m)
    case Nil
    then show ?case by simp
  next
    case (Cons j "is")
    with that(1) apart have "apart (b + 8 * of_nat j) (a + 8 * of_nat i)"
      by (simp add: frames_apart_def)
    with Cons show ?case by simp
  qed
  have "load64 (a + 8 * of_nat i) (pushed b r' m) = load64 (a + 8 * of_nat i) m" if "i < 12" for i
    unfolding pushed_def by (rule far [OF that]) simp
  then show ?thesis by (simp add: frame_at_def)
qed

lemma pop_eq:
  assumes "frame_at (sp_reg cpu) r (k_mem k)"
  shows "\<exists>x. pop_callee_saved (cpu, k) = (cpu\<lparr>regs := x, sp_reg := sp_reg cpu + 96\<rparr>, k) \<and>
    (\<forall>n. x n = (if 19 \<le> n \<and> n \<le> 30 then r n else regs cpu n))"
proof -
  have slot: "load64 (sp_reg cpu + 8 * of_nat i) (k_mem k) = r (slot_reg i)" if "i < 12" for i
    using assms that by (simp add: frame_at_def)
  note slots = slot [of 0] slot [of 1] slot [of 2] slot [of 3] slot [of 4] slot [of 5] slot [of 6]
    slot [of 7] slot [of 8] slot [of 9] slot [of 10] slot [of 11]
  let ?x = "\<lambda>n. if 19 \<le> n \<and> n \<le> 30 then r n else regs cpu n"
  have "regs (fst (pop_callee_saved (cpu, k))) n = ?x n" for n
  proof (cases "19 \<le> n \<and> n \<le> 30")
    case True
    then have "n \<in> {19, 20, 21, 22, 23, 24, 25, 26, 27, 28, 29, 30}" by (simp; presburger)
    with slots show ?thesis
      by (auto simp: pop_callee_saved_def ldp_post_def slot_reg_def Let_def ac_simps)
  next
    case False
    then show ?thesis by (auto simp: pop_callee_saved_def ldp_post_def Let_def)
  qed
  then have "regs (fst (pop_callee_saved (cpu, k))) = ?x" ..
  moreover have "pop_callee_saved (cpu, k) =
      (cpu\<lparr>regs := regs (fst (pop_callee_saved (cpu, k))), sp_reg := sp_reg cpu + 96\<rparr>, k)"
    by (simp add: pop_callee_saved_def ldp_post_def Let_def)
  ultimately show ?thesis by (intro exI [of _ ?x]) simp
qed

text \<open>Two frames whose lowest addresses are 96 bytes apart.\<close>

lemma frames_apart_far:
  assumes "96 \<le> unat (a - b)" and "96 \<le> unat (b - a)"
  shows "frames_apart a b"
proof -
  have *: "8 \<le> unat ((a + 8 * of_nat i) - (b + 8 * of_nat j))"
    if "96 \<le> unat (a - b)" "96 \<le> unat (b - a)" "i < 12" "j < 12" for a b :: u64 and i j
  proof -
    have "a \<noteq> b" using that(1) by auto
    then have d: "unat (a - b) \<le> 2 ^ 64 - 96" using unat_diff_swap [of a b] that(2) by simp
    have e: "unat (8 * of_nat n :: u64) = 8 * n" if "n < 12" for n
      using that by (simp add: unat_word_ariths unat_of_nat)
    have "unat ((a - b) + 8 * of_nat i) = unat (a - b) + 8 * i"
      using d e [OF that(3)] that(3) by (subst unat_plus_if') simp
    moreover have "unat ((a - b) + 8 * of_nat i - 8 * of_nat j) =
        unat ((a - b) + 8 * of_nat i) - unat (8 * of_nat j :: u64)"
      using calculation that e [OF that(4)] by (intro unat_sub) (simp add: word_le_nat_alt)
    moreover have "(a + 8 * of_nat i) - (b + 8 * of_nat j) = (a - b) + 8 * of_nat i - 8 * of_nat j"
      by (simp add: algebra_simps)
    ultimately have "unat ((a + 8 * of_nat i) - (b + 8 * of_nat j)) = unat (a - b) + 8 * i - 8 * j"
      using e [OF that(4)] by (simp only:)
    then show ?thesis using that by linarith
  qed
  show ?thesis
    using *[of a b] *[of b a] assms by (simp add: frames_apart_def apart_def)
qed

section \<open>Switching\<close>

primrec ref_ok :: "tcb_ref \<Rightarrow> kernel \<Rightarrow> bool" where
  "ref_ok (Pool core i) k \<longleftrightarrow> core < length (task_pool k) \<and> i < length (task_pool k ! core)"
| "ref_ok (Boot core) k \<longleftrightarrow> core < length (boot_temp k)"

lemma get_set_sp [simp]: "ref_ok ref k \<Longrightarrow> get_sp ref (set_sp ref v k) = v"
  by (cases ref) (simp_all add: update_tcb_def)

lemma get_set_sp_other:
  "ref' \<noteq> ref \<Longrightarrow> ref_ok ref k \<Longrightarrow> get_sp ref' (set_sp ref v k) = get_sp ref' k"
  by (cases ref; cases ref') (auto simp: update_tcb_def nth_list_update)

lemma set_sp_simps [simp]:
  "k_mem (set_sp ref v k) = k_mem k" "get_sp ref (k\<lparr>k_mem := m\<rparr>) = get_sp ref k"
  "ref_ok ref (k\<lparr>k_mem := m\<rparr>) = ref_ok ref k"
  by (cases ref; simp)+

definition same_context :: "cpu \<Rightarrow> cpu \<Rightarrow> bool" where
  "same_context a b \<longleftrightarrow> sp_reg a = sp_reg b \<and> (\<forall>n. 19 \<le> n \<and> n \<le> 30 \<longrightarrow> regs a n = regs b n)"

text \<open>
  A switch brings the saved context back, jumps to its link register, and saves the context it
  leaves; a third context saved elsewhere stays saved.
\<close>

lemma switch_result:
  assumes "ref_ok old k" and "old \<noteq> new" and "saved new cpu_new k"
    and "frames_apart (sp_reg cpu - 96) (sp_reg cpu_new - 96)"
  shows "\<exists>cpu' k'. sched_context_switch old new (cpu, k) = (cpu', k') \<and>
    same_context cpu' cpu_new \<and> pc_reg cpu' = regs cpu_new 30 \<and> saved old cpu k' \<and>
    k' = set_sp old (sp_reg cpu - 96) (k\<lparr>k_mem := pushed (sp_reg cpu - 96) (regs cpu) (k_mem k)\<rparr>)"
proof -
  let ?k = "set_sp old (sp_reg cpu - 96) (k\<lparr>k_mem := pushed (sp_reg cpu - 96) (regs cpu) (k_mem k)\<rparr>)"
  have x2: "get_sp new ?k = sp_reg cpu_new - 96"
    using assms by (simp add: get_set_sp_other saved_def)
  let ?cpu = "cpu\<lparr>regs := (regs cpu)(2 := sp_reg cpu_new - 96), sp_reg := sp_reg cpu_new - 96\<rparr>"
  have "frame_at (sp_reg ?cpu) (regs cpu_new) (k_mem ?k)"
    using assms(3,4) by (simp add: saved_def pushed_apart)
  from pop_eq [OF this] obtain x where
    x: "pop_callee_saved (?cpu, ?k) = (?cpu\<lparr>regs := x, sp_reg := sp_reg ?cpu + 96\<rparr>, ?k)"
      "\<forall>n. x n = (if 19 \<le> n \<and> n \<le> 30 then regs cpu_new n else regs ?cpu n)"
    by blast
  then have "sched_context_switch old new (cpu, k) =
      (?cpu\<lparr>regs := x, sp_reg := sp_reg ?cpu + 96, pc_reg := x 30\<rparr>, ?k)"
    using x2 by (simp add: sched_context_switch_def push_eq)
  moreover have "saved old cpu ?k" using assms(1) pushed_frame by (simp add: saved_def)
  ultimately show ?thesis using x(2) by (simp add: same_context_def)
qed

lemma saved_cong:
  "get_sp ref k' = get_sp ref k \<Longrightarrow> k_mem k' = k_mem k \<Longrightarrow> saved ref cpu k' = saved ref cpu k"
  by (simp add: saved_def)

text \<open>The scheduler's decisions touch no stack and no saved stack pointer.\<close>

lemma get_sp_update_state:
  assumes "\<And>t. t_sp (f t) = t_sp t" and "ref_ok ref k"
  shows "get_sp ref (update_tcb c i f k) = get_sp ref k"
proof (cases ref)
  case (Pool d j)
  then show ?thesis using assms by (cases "d = c"; cases "j = i") (simp_all add: update_tcb_def)
next
  case (Boot d)
  then show ?thesis by simp
qed

lemma ref_ok_update_tcb [simp]: "ref_ok ref (update_tcb c i f k) = ref_ok ref k"
  by (cases ref; cases "c < length (task_pool k)") (auto simp: update_tcb_def nth_list_update)

lemma ref_simps [simp]:
  "get_sp ref (k\<lparr>current_task := x\<rparr>) = get_sp ref k" "ref_ok ref (k\<lparr>current_task := x\<rparr>) = ref_ok ref k"
  "get_sp ref (on_sys f k) = get_sp ref k" "ref_ok ref (on_sys f k) = ref_ok ref k"
  by (cases ref; simp)+

lemma task_yield_frame:
  assumes "task_yield mpidr k = Inr (sw, k')" and "ref_ok ref k"
  shows "get_sp ref k' = get_sp ref k" "k_mem k' = k_mem k" "ref_ok ref k'" "k_pool_addr k' = k_pool_addr k"
  using assms
  by (auto simp: task_yield_def Let_def bind_exec_Inr_iff get_sp_update_state split: if_splits)

lemma saved_yield:
  assumes "task_yield mpidr k = Inr (sw, k')" and "ref_ok ref k"
  shows "saved ref cpu k' = saved ref cpu k"
  using task_yield_frame [OF assms] by (simp add: saved_def)

lemma running_ref_ok: "running c k \<Longrightarrow> i < length (states c k) \<Longrightarrow> ref_ok (Pool c i) k"
  using length_states [of c k] by (auto simp: running_def sched_ok_def)

section \<open>The contexts of new tasks\<close>

definition entry_context :: "u64 \<Rightarrow> u64 \<Rightarrow> cpu" where
  "entry_context entry stack = \<lparr>regs = (\<lambda>n. 0)(30 := entry), sp_reg = stack, pc_reg = 0\<rparr>"

lemma initial_frame_context: "frame_at b (regs (entry_context entry stack)) (initial_frame b entry m)"
proof -
  have "slot_reg i = 30 \<longleftrightarrow> i = 1" if "i < 12" for i
    using that by (auto simp: less_12 slot_reg_def)
  then have "load64 (b + 8 * of_nat i) (initial_frame b entry m) = ((\<lambda>n. 0)(30 := entry)) (slot_reg i)"
    if "i < 12" for i
    using load_initial_frame [OF that] that by simp
  then show ?thesis
    by (simp only: frame_at_def entry_context_def cpu.select_convs) blast
qed

lemma initial_frame_apart:
  assumes "frames_apart b a"
  shows "frame_at a r (initial_frame b entry m) = frame_at a r m"
proof -
  have zeros: "load64 (a + 8 * of_nat i) (fold (\<lambda>i. store64 (b + 8 * of_nat i) 0) [0..<n] m) =
      load64 (a + 8 * of_nat i) m" if "i < 12" "n \<le> 12" for i n
    using that(2)
  proof (induction n)
    case 0
    then show ?case by simp
  next
    case (Suc n)
    with that(1) assms have "apart (b + 8 * of_nat n) (a + 8 * of_nat i)"
      by (simp add: frames_apart_def)
    with Suc show ?case by simp
  qed
  have "load64 (a + 8 * of_nat i) (initial_frame b entry m) = load64 (a + 8 * of_nat i) m" if "i < 12" for i
  proof -
    have "apart (b + 8 * of_nat 1) (a + 8 * of_nat i)"
      using assms that unfolding frames_apart_def by (metis one_less_numeral_iff semiring_norm(76))
    then show ?thesis
      unfolding initial_frame_def using zeros [OF that, of 12] by (simp only: load_store_apart)
  qed
  then show ?thesis by (simp add: frame_at_def)
qed

lemma stacks_apart:
  assumes "c < 4" and "i < 8" and "j < 8" and "i \<noteq> j"
  shows "frames_apart (stack_end k c i - 96) (stack_end k c j - 96)"
proof -
  have *: "unat (stack_end k c i - stack_end k c j) = 2088 * (i - j)" if "j < i" "i < 8" for i j
  proof -
    have "stack_end k c i - stack_end k c j = (of_nat (2088 * (i - j)) :: u64)"
      using that by (simp add: stack_end_def MAX_TASKS_def sizeof_tcb_def of_nat_diff algebra_simps)
    then show ?thesis using that by (simp only: unat_of_nat) simp
  qed
  have far: "96 \<le> unat (stack_end k c i - stack_end k c j) \<and> 96 \<le> unat (stack_end k c j - stack_end k c i)"
    if "j < i" "i < 8" for i j
  proof -
    have "stack_end k c j \<noteq> stack_end k c i" using *[OF that] that by auto
    with unat_diff_swap [of "stack_end k c j" "stack_end k c i"] *[OF that] that show ?thesis by auto
  qed
  have "96 \<le> unat (stack_end k c i - stack_end k c j)" "96 \<le> unat (stack_end k c j - stack_end k c i)"
    using far [of j i] far [of i j] assms by (cases "j < i"; auto)+
  then show ?thesis by (intro frames_apart_far) simp_all
qed

lemma add_task_contexts:
  assumes ok: "sched_ok c k" and core: "on_core mpidr c"
    and step: "sched_add_task mpidr job k = Inr k'" and room: "unat (task_count k ! c) < 8"
    and old: "\<forall>i < unat (task_count k ! c). saved (Pool c i) (entry_context (e i) (stack_end k c i)) k"
  shows "\<forall>i < Suc (unat (task_count k ! c)). saved (Pool c i)
    (entry_context ((e(unat (task_count k ! c) := job_entry job)) i) (stack_end k' c i)) k'"
proof -
  let ?n = "unat (task_count k ! c)" and ?tos = "stack_end k c (unat (task_count k ! c)) - 96"
  have len: "c < 4" "length (task_pool k) = 4" "length (task_pool k ! c) = 8"
    using ok by (auto simp: sched_ok_def)
  have mem: "k_mem k' = initial_frame ?tos (job_entry job) (k_mem k)"
    and sp: "t_sp (task_pool k' ! c ! ?n) = ?tos"
    using sched_add_task_eq [OF ok core room, of job] step by (auto simp: Let_def)
  have pool: "k_pool_addr k' = k_pool_addr k" "i \<noteq> ?n \<Longrightarrow> task_pool k' ! c ! i = task_pool k ! c ! i" for i
    using step core len
    by (auto simp: sched_add_task_def on_core_def update_tcb_def Let_def split: if_splits)
  then have se: "stack_end k' = stack_end k" by (simp add: stack_end_def fun_eq_iff)
  have "saved (Pool c ?n) (entry_context (job_entry job) (stack_end k' c ?n)) k'"
    using sp mem initial_frame_context
    by (simp add: saved_def se) (simp add: entry_context_def)
  moreover have "saved (Pool c i) (entry_context (e i) (stack_end k' c i)) k'" if "i < ?n" for i
  proof -
    have "frames_apart ?tos (stack_end k c i - 96)"
      using that room len by (intro stacks_apart) simp_all
    with old that pool(2) [of i] show ?thesis
      by (auto simp: saved_def se mem initial_frame_apart entry_context_def)
  qed
  ultimately show ?thesis by (auto simp: less_Suc_eq)
qed

lemma add_tasks_contexts:
  assumes "sched_ok c k" and core: "on_core mpidr c" and "add_tasks mpidr js k = Inr k'"
    and "\<forall>i < unat (task_count k ! c). saved (Pool c i) (entry_context (e i) (stack_end k c i)) k"
  shows "\<exists>e'. (\<forall>i < unat (task_count k ! c) + length js.
      saved (Pool c i) (entry_context (e' i) (stack_end k c i)) k') \<and>
    (\<forall>i < unat (task_count k ! c). e' i = e i) \<and>
    (\<forall>i < length js. e' (unat (task_count k ! c) + i) = job_entry (js ! i))"
  using assms(1,3,4)
proof (induction js arbitrary: k e)
  case Nil
  then show ?case by auto
next
  case (Cons j js)
  let ?n = "unat (task_count k ! c)"
  obtain k1 where k1: "sched_add_task mpidr j k = Inr k1" "add_tasks mpidr js k1 = Inr k'"
    using Cons.prems(2) by (auto simp: bind_exec_Inr_iff)
  have room: "?n < 8"
    using sched_add_task_full [OF Cons.prems(1) core, of j] Cons.prems(1) k1(1)
    by (cases "?n = 8") (auto simp: sched_ok_def)
  from sched_add_task_eq [OF Cons.prems(1) core room, of j] k1(1)
  have ok1: "sched_ok c k1" "unat (task_count k1 ! c) = Suc ?n" by auto
  have se: "stack_end k1 = stack_end k"
    using k1(1) by (auto simp: sched_add_task_def stack_end_def fun_eq_iff Let_def split: if_splits)
  from add_task_contexts [OF Cons.prems(1) core k1(1) room Cons.prems(3)]
  have "\<forall>i < unat (task_count k1 ! c). saved (Pool c i)
      (entry_context ((e(?n := job_entry j)) i) (stack_end k1 c i)) k1"
    by (simp only: ok1(2))
  from Cons.IH [OF ok1(1) k1(2) this] obtain e' where
    e': "\<forall>i < Suc ?n + length js. saved (Pool c i) (entry_context (e' i) (stack_end k c i)) k'"
      "\<forall>i < Suc ?n. e' i = (e(?n := job_entry j)) i" "\<forall>i < length js. e' (Suc ?n + i) = job_entry (js ! i)"
    by (auto simp: ok1(2) se)
  moreover have "\<forall>i < length (j # js). e' (?n + i) = job_entry ((j # js) ! i)"
    using e'(2,3) by (auto simp: nth_Cons split: nat.split)
  ultimately show ?case by (intro exI [of _ e']) auto
qed

section \<open>Properties\<close>

text \<open>
  Property C29: a context switch is undone by the switch back.  Task A is switched out in favour
  of B, whose saved context comes back: callee-saved registers and stack pointer as they were,
  execution at B's return address.  Whatever happens then, as long as A's stack pointer field
  and the 96 bytes of its frame keep their values, a later switch to A brings A's registers
  and stack pointer back and continues at its return address.
\<close>
theorem context_switch_resumes:
  assumes "ref_ok A k" and "A \<noteq> B" and "saved B cpuB k"
    and "frames_apart (sp_reg cpuA - 96) (sp_reg cpuB - 96)"
    and "sched_context_switch A B (cpuA, k) = (cpu1, k1)"
    and "get_sp A k2 = get_sp A k1"
    and "\<forall>i < 12. load64 (sp_reg cpuA - 96 + 8 * of_nat i) (k_mem k2) =
      load64 (sp_reg cpuA - 96 + 8 * of_nat i) (k_mem k1)"
    and "C \<noteq> A" and "ref_ok C k2" and "frames_apart (sp_reg cpu2 - 96) (sp_reg cpuA - 96)"
    and "sched_context_switch C A (cpu2, k2) = (cpu3, k3)"
  shows "same_context cpu1 cpuB \<and> pc_reg cpu1 = regs cpuB 30 \<and>
    same_context cpu3 cpuA \<and> pc_reg cpu3 = regs cpuA 30"
proof -
  have one: "same_context cpu1 cpuB" "pc_reg cpu1 = regs cpuB 30" "saved A cpuA k1"
    using switch_result [OF assms(1-4)] assms(5) by auto
  have "saved A cpuA k2"
    using one(3) assms(6,7) by (simp add: saved_def frame_at_def)
  from switch_result [OF assms(9,8) this assms(10)] assms(11) one show ?thesis by auto
qed

text \<open>Two TCBs, B with a saved context, on stacks that are far apart.\<close>

definition ctx_a :: cpu where
  "ctx_a = \<lparr>regs = of_nat, sp_reg = 0x40200000, pc_reg = 0\<rparr>"

definition ctx_b :: cpu where
  "ctx_b = \<lparr>regs = (\<lambda>n. 7 * of_nat n), sp_reg = 0x40100000, pc_reg = 0\<rparr>"

definition b_saved :: kernel where
  "b_saved = set_sp (Pool 0 1) (sp_reg ctx_b - 96)
     (zero_kernel\<lparr>k_mem := pushed (sp_reg ctx_b - 96) (regs ctx_b) (k_mem zero_kernel)\<rparr>)"

lemma b_saved_ok: "ref_ok (Pool 0 0) b_saved \<and> ref_ok (Pool 0 1) b_saved \<and> saved (Pool 0 1) ctx_b b_saved"
proof -
  have "ref_ok (Pool 0 1) zero_kernel" "ref_ok (Pool 0 0) zero_kernel"
    by (simp_all add: zero_kernel_def)
  then show ?thesis using pushed_frame by (simp add: b_saved_def saved_def) (simp add: update_tcb_def)
qed

lemma ctx_apart: "frames_apart (sp_reg ctx_a - 96) (sp_reg ctx_b - 96)" "frames_apart (sp_reg ctx_b - 96) (sp_reg ctx_a - 96)"
  by (rule frames_apart_far; simp add: ctx_a_def ctx_b_def)+

lemma context_switch_resumes_witness:
  "\<exists>cpu1 k1 cpu3 k3. sched_context_switch (Pool 0 0) (Pool 0 1) (ctx_a, b_saved) = (cpu1, k1) \<and>
     sched_context_switch (Pool 0 1) (Pool 0 0) (cpu1, k1) = (cpu3, k3) \<and>
     sp_reg cpu1 = 0x40100000 \<and> regs cpu3 19 = 19 \<and> pc_reg cpu3 = 30 \<and> sp_reg cpu3 = 0x40200000"
proof -
  obtain cpu1 k1 where s1: "sched_context_switch (Pool 0 0) (Pool 0 1) (ctx_a, b_saved) = (cpu1, k1)"
      "same_context cpu1 ctx_b"
      "k1 = set_sp (Pool 0 0) (sp_reg ctx_a - 96)
        (b_saved\<lparr>k_mem := pushed (sp_reg ctx_a - 96) (regs ctx_a) (k_mem b_saved)\<rparr>)"
    using switch_result [of "Pool 0 0" b_saved "Pool 0 1" ctx_b ctx_a] b_saved_ok ctx_apart by auto
  obtain cpu3 k3 where s3: "sched_context_switch (Pool 0 1) (Pool 0 0) (cpu1, k1) = (cpu3, k3)"
    by (meson surj_pair)
  have "ref_ok (Pool 0 1) k1" using b_saved_ok by (simp add: s1(3))
  moreover have "sp_reg cpu1 = sp_reg ctx_b" using s1(2) by (simp add: same_context_def)
  ultimately have "same_context cpu1 ctx_b \<and> pc_reg cpu1 = regs ctx_b 30 \<and>
      same_context cpu3 ctx_a \<and> pc_reg cpu3 = regs ctx_a 30"
    using context_switch_resumes [of "Pool 0 0" b_saved "Pool 0 1" ctx_b ctx_a cpu1 k1 k1 "Pool 0 1" cpu1 cpu3 k3]
      b_saved_ok ctx_apart s1(1) s3 by simp
  with s1(1) s3 show ?thesis by (simp add: same_context_def ctx_a_def ctx_b_def)
qed

text \<open>
  Property C3: a yield resumes the right task.  When every task but the current one has a saved
  context, on stacks that do not overlap the current one's frame, \<^verbatim>\<open>task_yield\<close> either returns
  with nothing changed or resumes exactly the saved context of the next ready task, and
  again every task but the new current one has a saved context, the yielding task's own
  being the registers it had.
\<close>
theorem task_yield_switches:
  assumes "running c k" and "on_core mpidr c"
    and "\<forall>i < length (states c k). i \<noteq> current c k \<longrightarrow> saved (Pool c i) (ctx i) k \<and>
      frames_apart (sp_reg cpu - 96) (sp_reg (ctx i) - 96)"
  shows "\<exists>cpu' k'. task_yield_cpu mpidr (cpu, k) = Inr (cpu', k') \<and>
    (let j = abs_next (states c k) (current c k) in current c k' = j \<and>
       (if j = current c k then cpu' = cpu \<and> k' = k
        else same_context cpu' (ctx j) \<and> pc_reg cpu' = regs (ctx j) 30 \<and>
          (\<forall>i < length (states c k). i \<noteq> j \<longrightarrow>
             saved (Pool c i) ((ctx(current c k := cpu)) i) k')))"
proof -
  let ?cur = "current c k" and ?j = "abs_next (states c k) (current c k)"
  obtain sw k1 where y: "task_yield mpidr k = Inr (sw, k1)" "running c k1"
      "(sw, abs_sched c k1) = abs_yield (abs_sched c k)"
    using task_yield_abs [OF assms(1,2)] by blast
  have cur: "?cur < length (states c k)" using assms(1) by (simp add: running_def)
  have j: "?j < length (states c k)" by (rule abs_next_less [OF cur])
  show ?thesis
  proof (cases "?j = ?cur")
    case True
    then have "sw = None" using y(3) by (simp add: abs_yield_def abs_sched_def)
    moreover from this have "k1 = k"
      using y(1) by (auto simp: task_yield_def Let_def bind_exec_Inr_iff split: if_splits)
    ultimately show ?thesis using y(1) True by (simp add: task_yield_cpu_def Let_def)
  next
    case False
    then have sw: "sw = Some (?cur, ?j)" and cur1: "current c k1 = ?j"
      using y(3) by (auto simp: abs_yield_def abs_sched_def Let_def)
    note ok = running_ref_ok [OF assms(1)]
    have saved1: "saved (Pool c i) (ctx i) k1 \<and> frames_apart (sp_reg cpu - 96) (sp_reg (ctx i) - 96)"
      if "i < length (states c k)" "i \<noteq> ?cur" for i
      using that assms(3) saved_yield [OF y(1) ok [OF that(1)]] by simp
    have ok1: "ref_ok (Pool c ?cur) k1" by (rule task_yield_frame(3) [OF y(1) ok [OF cur]])
    let ?k = "set_sp (Pool c ?cur) (sp_reg cpu - 96)
      (k1\<lparr>k_mem := pushed (sp_reg cpu - 96) (regs cpu) (k_mem k1)\<rparr>)"
    obtain cpu' where s: "sched_context_switch (Pool c ?cur) (Pool c ?j) (cpu, k1) = (cpu', ?k)"
        "same_context cpu' (ctx ?j)" "pc_reg cpu' = regs (ctx ?j) 30" "saved (Pool c ?cur) cpu ?k"
      using switch_result [OF ok1, of "Pool c ?j" "ctx ?j" cpu] saved1 [OF j False] False by auto
    have "saved (Pool c i) (ctx i) ?k" if "i < length (states c k)" "i \<noteq> ?cur" for i
    proof -
      have "get_sp (Pool c i) ?k = get_sp (Pool c i) k1"
        using that ok1 by (subst get_set_sp_other) simp_all
      with saved1 [OF that] show ?thesis by (simp add: saved_def pushed_apart del: get_sp.simps)
    qed
    moreover have "current c ?k = ?j" using cur1 by (simp add: current_def)
    moreover have "task_yield_cpu mpidr (cpu, k) = Inr (cpu', ?k)"
      using y(1) sw s(1) assms(2) by (simp add: task_yield_cpu_def on_core_def Let_def)
    ultimately show ?thesis using s False by (auto simp: Let_def)
  qed
qed

lemma task_yield_switches_witness:
  "\<exists>cpu' k'. task_yield_cpu 0x80000000 (ctx_a, b_saved\<lparr>task_count := [2, 0, 0, 0]\<rparr>) = Inr (cpu', k') \<and>
     current 0 k' = 1 \<and> sp_reg cpu' = 0x40100000 \<and> pc_reg cpu' = 210"
proof -
  let ?k = "b_saved\<lparr>task_count := [2, 0, 0, 0]\<rparr>"
  have pool: "task_pool b_saved = (task_pool zero_kernel)[0 := (replicate 8 zero_tcb)
      [1 := zero_tcb\<lparr>t_sp := sp_reg ctx_b - 96\<rparr>]]"
    by (simp add: b_saved_def update_tcb_def zero_kernel_def)
  have "states 0 ?k = [TASK_READY, TASK_READY]"
    by (simp add: states_def pool zero_kernel_def zero_tcb_def take_Cons') (simp add: eval_nat_numeral)
  moreover have "current 0 ?k = 0" by (simp add: current_def b_saved_def zero_kernel_def)
  moreover have "sched_ok 0 ?k"
    using zero_kernel_ok [of 0] pool by (simp add: sched_ok_def) (simp add: b_saved_def zero_kernel_def)
  moreover have "saved (Pool 0 1) ctx_b ?k" using b_saved_ok by (simp add: saved_def)
  moreover have "abs_next [TASK_READY, TASK_READY] 0 = 1" by (simp add: abs_next_def upt_rec)
  ultimately show ?thesis
    using task_yield_switches [of 0 ?k "0x80000000" "\<lambda>i. ctx_b" ctx_a] ctx_apart
    by (auto simp: running_def less_Suc_eq same_context_def ctx_b_def Let_def)
qed

lemma add_tasks_boot: "add_tasks mpidr js k = Inr k1 \<Longrightarrow> boot_temp k1 = boot_temp k"
proof (induction js arbitrary: k)
  case (Cons j js)
  then show ?case
    by (fastforce simp: bind_exec_Inr_iff sched_add_task_def Let_def split: if_splits)
qed simp

text \<open>\<open>sched_run\<close> marks the first task running; memory, stack pointers and boot slots stay.\<close>

lemma sched_run_keeps:
  assumes "on_core mpidr c" and "c < 4" and "task_count k ! c \<noteq> 0"
  obtains k' where "sched_run mpidr k = Inr k'" "boot_temp k' = boot_temp k" "k_mem k' = k_mem k"
    "\<And>ref. ref_ok ref k \<Longrightarrow> get_sp ref k' = get_sp ref k"
  using assms that by (simp add: sched_run_def on_core_def CORE_COUNT_def get_sp_update_state Let_def)

text \<open>
  Property C32: the tasks start at their entry functions.  On a core with no tasks, registering
  one to eight jobs and calling \<^verbatim>\<open>sched_run\<close> jumps to the first job's entry function with the
  stack pointer at the end of its own stack and zeros in the callee-saved registers, and every
  other task has a saved context that will start at its own entry function on its own stack.
\<close>
theorem sched_starts_entries:
  assumes "sched_ok c k" and "on_core mpidr c" and "task_count k ! c = 0" and "length (boot_temp k) = 4"
    and "js \<noteq> []" and "add_tasks mpidr js k = Inr k1"
    and "\<forall>i < length js. frames_apart (sp_reg cpu - 96) (stack_end k c i - 96)"
  shows "\<exists>cpu' k2. sched_run_cpu mpidr (cpu, k1) = Inr (cpu', k2) \<and>
    pc_reg cpu' = job_entry (hd js) \<and> sp_reg cpu' = stack_end k c 0 \<and>
    (\<forall>n. 19 \<le> n \<and> n < 30 \<longrightarrow> regs cpu' n = 0) \<and>
    (\<forall>i < length js. i \<noteq> 0 \<longrightarrow> saved (Pool c i) (entry_context (job_entry (js ! i)) (stack_end k c i)) k2)"
proof -
  have js: "length js \<le> 8" "sched_ok c k1" "states c k1 = states c k @ replicate (length js) TASK_READY"
    using add_tasks_result [OF assms(1,2), of js] assms(3,6) by (auto split: if_splits)
  obtain e where e: "\<forall>i < length js. saved (Pool c i) (entry_context (e i) (stack_end k c i)) k1"
      "\<forall>i < length js. e i = job_entry (js ! i)"
    using add_tasks_contexts [OF assms(1,2,6)] assms(3) by auto
  have count: "task_count k1 ! c \<noteq> 0"
    using js(3) assms(5) length_states [OF js(2)] by auto
  have boot: "boot_temp k1 = boot_temp k" by (rule add_tasks_boot [OF assms(6)])
  have c: "c < 4" using assms(1) by (simp add: sched_ok_def)
  obtain k2 where k2: "sched_run mpidr k1 = Inr k2" "boot_temp k2 = boot_temp k1" "k_mem k2 = k_mem k1"
      "\<And>ref. ref_ok ref k1 \<Longrightarrow> get_sp ref k2 = get_sp ref k1"
    using sched_run_keeps [OF assms(2) c count] by blast
  have ref: "ref_ok (Pool c i) k1" if "i < length js" for i
    using js(1,2) that by (simp add: sched_ok_def)
  have saved2: "saved (Pool c i) (entry_context (job_entry (js ! i)) (stack_end k c i)) k2"
    if "i < length js" for i
    using e that saved_cong [OF k2(4) [OF ref [OF that]] k2(3)] by simp
  have z: "0 < length js" using assms(5) by simp
  let ?cpu = "entry_context (job_entry (js ! 0)) (stack_end k c 0)"
  let ?k = "set_sp (Boot c) (sp_reg cpu - 96)
    (k2\<lparr>k_mem := pushed (sp_reg cpu - 96) (regs cpu) (k_mem k2)\<rparr>)"
  have boot2: "ref_ok (Boot c) k2" using k2(2) boot c assms(4) by simp
  obtain cpu' where s: "sched_context_switch (Boot c) (Pool c 0) (cpu, k2) = (cpu', ?k)"
      "same_context cpu' ?cpu" "pc_reg cpu' = regs ?cpu 30"
    using switch_result [OF boot2 _ saved2 [OF z], of cpu] assms(7) z by (auto simp: entry_context_def)
  have "saved (Pool c i) (entry_context (job_entry (js ! i)) (stack_end k c i)) ?k"
    if "i < length js" for i
    using saved2 [OF that] assms(7) that
    by (auto simp: saved_def pushed_apart entry_context_def)
  moreover have "sched_run_cpu mpidr (cpu, k1) = Inr (cpu', ?k)"
    using k2(1) s(1) assms(2) by (simp add: sched_run_cpu_def on_core_def Let_def)
  moreover have "pc_reg cpu' = job_entry (hd js)"
    using s(3) z by (simp add: entry_context_def hd_conv_nth)
  ultimately show ?thesis
    using s(2) by (auto simp: same_context_def entry_context_def)
qed

lemma sched_starts_entries_witness:
  "\<exists>k1 cpu' k2. add_tasks 0x80000000 [sample_job, sample_job] zero_kernel = Inr k1 \<and>
     sched_run_cpu 0x80000000 (ctx_a, k1) = Inr (cpu', k2) \<and> pc_reg cpu' = 0x40080000"
proof -
  have ok: "sched_ok 0 zero_kernel" "task_count zero_kernel ! 0 = 0" "length (boot_temp zero_kernel) = 4"
    by (simp_all add: zero_kernel_def sched_ok_def)
  then obtain k1 where k1: "add_tasks 0x80000000 [sample_job, sample_job] zero_kernel = Inr k1"
    using add_tasks_result [of 0 zero_kernel "0x80000000" "[sample_job, sample_job]"] by auto
  have "frames_apart (sp_reg ctx_a - 96) (stack_end zero_kernel 0 i - 96)" if "i < 2" for i
  proof -
    have "stack_end zero_kernel 0 i \<in> {0x4010080A, 0x40101032}"
      using that by (auto simp: less_2_cases_iff stack_end_def zero_kernel_def MAX_TASKS_def sizeof_tcb_def
          stack_offset_def TASK_STACK_SIZE_def)
    then show ?thesis by (intro frames_apart_far) (auto simp: ctx_a_def)
  qed
  with sched_starts_entries [OF ok(1) on_core_0 ok(2,3) _ k1, of ctx_a] k1 show ?thesis
    by (auto simp: sample_job_def)
qed

end
