(* ===== verification/Irq.thy ===== *)
theory Irq
  imports Prelude
begin

text \<open>
  \<^verbatim>\<open>include/interrupts/irq.c\<close>: the GICv2 driver.  The accesses to device registers are a trace of
  reads and writes; the value a read of GICC_IAR gives is an input.  The table holds handlers of
  an arbitrary type, with a function that says what calling one does to the rest of the system.
\<close>

section \<open>Registers\<close>

definition GICD_BASE :: u64 where "GICD_BASE = 0x08000000"
definition GICC_BASE :: u64 where "GICC_BASE = 0x08010000"

definition GICD_CTLR :: u64 where "GICD_CTLR = GICD_BASE + 0x000"
definition GICD_ISENABLER :: "u32 \<Rightarrow> u64" where "GICD_ISENABLER n = GICD_BASE + 0x100 + ucast n * 4"
definition GICD_ICENABLER :: "u32 \<Rightarrow> u64" where "GICD_ICENABLER n = GICD_BASE + 0x180 + ucast n * 4"
definition GICD_IPRIORITYR :: "u32 \<Rightarrow> u64" where "GICD_IPRIORITYR n = GICD_BASE + 0x400 + ucast n * 4"
definition GICD_ITARGETSR :: "u32 \<Rightarrow> u64" where "GICD_ITARGETSR n = GICD_BASE + 0x800 + ucast n * 4"
definition GICD_ICFGR :: "u32 \<Rightarrow> u64" where "GICD_ICFGR n = GICD_BASE + 0xC00 + ucast n * 4"

definition GICC_CTLR :: u64 where "GICC_CTLR = GICC_BASE + 0x000"
definition GICC_PMR :: u64 where "GICC_PMR = GICC_BASE + 0x004"
definition GICC_BPR :: u64 where "GICC_BPR = GICC_BASE + 0x008"
definition GICC_IAR :: u64 where "GICC_IAR = GICC_BASE + 0x00C"
definition GICC_EOIR :: u64 where "GICC_EOIR = GICC_BASE + 0x010"

lemmas gic_defs = GICD_BASE_def GICC_BASE_def GICD_CTLR_def GICD_ISENABLER_def GICD_ICENABLER_def
  GICD_IPRIORITYR_def GICD_ITARGETSR_def GICD_ICFGR_def GICC_CTLR_def GICC_PMR_def GICC_BPR_def
  GICC_IAR_def GICC_EOIR_def

definition EXC_SPX_IRQ :: u64 where "EXC_SPX_IRQ = 0x12"
definition EXC_A64_IRQ :: u64 where "EXC_A64_IRQ = 0x22"
definition IRQ_ID_TIMER :: u32 where "IRQ_ID_TIMER = 30"
definition IRQ_ID_UART0 :: u32 where "IRQ_ID_UART0 = 33"
definition IRQ_MAX_HANDLERS :: u32 where "IRQ_MAX_HANDLERS = 64"

datatype mmio = Read u64 u32 | Write u64 u32

record 'h irq =
  irq_table :: "'h option list"
  mmio_trace :: "mmio list"
  irqs_masked :: bool            \<comment> \<open>the I bit of DAIF\<close>

definition mmio_log :: "mmio list \<Rightarrow> 'h irq \<Rightarrow> 'h irq" where
  "mmio_log es g = g\<lparr>mmio_trace := mmio_trace g @ es\<rparr>"

section \<open>Operations\<close>

definition irq_init_writes :: "mmio list" where
  "irq_init_writes =
     [Write GICD_CTLR 0] @
     map (\<lambda>i. Write (GICD_ICENABLER (of_nat i)) 0xFFFFFFFF) [1..<8] @
     map (\<lambda>i. Write (GICD_IPRIORITYR (of_nat i)) 0xA0A0A0A0) [0..<64] @
     map (\<lambda>i. Write (GICD_ITARGETSR (of_nat i)) 0x01010101) [8..<32] @
     map (\<lambda>i. Write (GICD_ICFGR (of_nat i)) 0) [2..<8] @
     [Write GICD_CTLR 1, Write GICC_PMR 0xFF, Write GICC_BPR 0, Write GICC_CTLR 1]"

definition irq_init :: "'h irq \<Rightarrow> 'h irq" where
  "irq_init = mmio_log irq_init_writes"

definition irq_register_handler :: "u32 \<Rightarrow> 'h \<Rightarrow> 'h irq \<Rightarrow> 'h irq" where
  "irq_register_handler irq_id handler g =
     (if irq_id \<ge> IRQ_MAX_HANDLERS then g
      else mmio_log [Write (GICD_ISENABLER (irq_id div 32)) (push_bit (unat (irq_id mod 32)) 1)]
             (g\<lparr>irq_table := (irq_table g)[unat irq_id := Some handler]\<rparr>))"

definition irq_enable :: "'h irq \<Rightarrow> 'h irq" where
  "irq_enable g = g\<lparr>irqs_masked := False\<rparr>"

definition irq_disable :: "'h irq \<Rightarrow> 'h irq" where
  "irq_disable g = g\<lparr>irqs_masked := True\<rparr>"

text \<open>
  \<open>call\<close> runs a handler on the state \<open>s\<close> of the rest of the system; \<open>iar\<close> is what the read of
  GICC_IAR gives.  Every exception other than an IRQ parks the core.
\<close>

definition common_trap_handler ::
  "('h \<Rightarrow> u32 \<Rightarrow> 's \<Rightarrow> 's) \<Rightarrow> u64 \<Rightarrow> u32 \<Rightarrow> 'h irq \<times> 's \<Rightarrow> ('h irq \<times> 's) exec" where
  "common_trap_handler call exc_id iar = (\<lambda>(g, s).
     if exc_id = EXC_SPX_IRQ \<or> exc_id = EXC_A64_IRQ then
       let g = mmio_log [Read GICC_IAR iar] g;
           irq_id = iar AND 0x3FF
       in if irq_id = 1023 then Inr (g, s)
          else if irq_id < IRQ_MAX_HANDLERS \<and> unat irq_id \<ge> length (irq_table g) then Inl OutOfBounds
          else
            let s = (if irq_id < IRQ_MAX_HANDLERS then
                       case irq_table g ! unat irq_id of None \<Rightarrow> s | Some h \<Rightarrow> call h irq_id s
                     else s)
            in Inr (mmio_log [Write GICC_EOIR iar] g, s)
     else Inl Halted)"

section \<open>Traces\<close>

text \<open>The value of a register after a trace of writes, if it was written.\<close>

fun last_write :: "u64 \<Rightarrow> mmio list \<Rightarrow> u32 option" where
  "last_write a [] = None"
| "last_write a (e # es) = (case last_write a es of Some v \<Rightarrow> Some v
     | None \<Rightarrow> (case e of Write b v \<Rightarrow> if b = a then Some v else None | Read b v \<Rightarrow> None))"

fun eois :: "mmio list \<Rightarrow> u32 list" where
  "eois [] = []"
| "eois (Write a v # es) = (if a = GICC_EOIR then v # eois es else eois es)"
| "eois (Read a v # es) = eois es"

lemma last_write_append:
  "last_write a (es @ es') = (case last_write a es' of Some v \<Rightarrow> Some v | None \<Rightarrow> last_write a es)"
  by (induction es) (auto split: option.split)

lemma last_write_map:
  "last_write a (map (\<lambda>i. Write (f i) v) is) = (if a \<in> f ` set is then Some v else None)"
  by (induction "is") (auto split: option.split)

lemma eois_append [simp]: "eois (es @ es') = eois es @ eois es'"
  by (induction es rule: eois.induct) auto

text \<open>A run of interrupts, each with the value its read of GICC_IAR gives.\<close>

fun take_irqs :: "('h \<Rightarrow> u32 \<Rightarrow> 's \<Rightarrow> 's) \<Rightarrow> u32 list \<Rightarrow> 'h irq \<times> 's \<Rightarrow> ('h irq \<times> 's) exec" where
  "take_irqs call [] s = Inr s"
| "take_irqs call (iar # iars) s =
     bind_exec (common_trap_handler call EXC_SPX_IRQ iar s) (take_irqs call iars)"

definition irq_ok :: "'h irq \<Rightarrow> bool" where
  [inv_defs]: "irq_ok g \<longleftrightarrow> length (irq_table g) = 64"

text \<open>What the registered handlers do to the rest of the system.\<close>

definition dispatch :: "('h \<Rightarrow> u32 \<Rightarrow> 's \<Rightarrow> 's) \<Rightarrow> 'h option list \<Rightarrow> u32 \<Rightarrow> 's \<Rightarrow> 's" where
  "dispatch call tbl irq_id s =
     (if unat irq_id < length tbl then case tbl ! unat irq_id of None \<Rightarrow> s | Some h \<Rightarrow> call h irq_id s
      else s)"

definition serve :: "('h \<Rightarrow> u32 \<Rightarrow> 's \<Rightarrow> 's) \<Rightarrow> 'h option list \<Rightarrow> u32 \<Rightarrow> 's \<Rightarrow> 's" where
  "serve call tbl iar s = (if iar AND 0x3FF = 1023 then s else dispatch call tbl (iar AND 0x3FF) s)"

lemma mmio_log_simps [simp]:
  "irq_table (mmio_log es g) = irq_table g" "mmio_trace (mmio_log es g) = mmio_trace g @ es"
  "irqs_masked (mmio_log es g) = irqs_masked g" "irq_ok (mmio_log es g) = irq_ok g"
  "mmio_log es (mmio_log es' g) = mmio_log (es' @ es) g"
  by (simp_all add: mmio_log_def irq_ok_def)

lemma trap_irq:
  assumes "irq_ok g" and "exc \<in> {EXC_SPX_IRQ, EXC_A64_IRQ}"
  shows "common_trap_handler call exc iar (g, s) = Inr
    (if iar AND 0x3FF = 1023 then (mmio_log [Read GICC_IAR iar] g, s)
     else (mmio_log [Read GICC_IAR iar, Write GICC_EOIR iar] g,
           dispatch call (irq_table g) (iar AND 0x3FF) s))"
  using assms
  by (auto simp: common_trap_handler_def irq_ok_def IRQ_MAX_HANDLERS_def dispatch_def Let_def
      word_less_nat_alt)

lemma take_irqs_eq:
  assumes "irq_ok g"
  shows "\<exists>g'. take_irqs call iars (g, s) =
      Inr (g', fold (serve call (irq_table g)) iars s) \<and>
    irq_ok g' \<and> irq_table g' = irq_table g \<and> irqs_masked g' = irqs_masked g \<and>
    eois (mmio_trace g') = eois (mmio_trace g) @ filter (\<lambda>iar. iar AND 0x3FF \<noteq> 1023) iars"
  using assms
proof (induction iars arbitrary: g s)
  case Nil
  then show ?case by simp
next
  case (Cons iar iars)
  let ?s = "serve call (irq_table g) iar s"
  let ?g = "if iar AND 0x3FF = 1023 then mmio_log [Read GICC_IAR iar] g
    else mmio_log [Read GICC_IAR iar, Write GICC_EOIR iar] g"
  have step: "common_trap_handler call EXC_SPX_IRQ iar (g, s) = Inr (?g, ?s)"
    using trap_irq [OF Cons.prems, of EXC_SPX_IRQ call iar s] by (simp add: serve_def)
  have same: "irq_table ?g = irq_table g" "irqs_masked ?g = irqs_masked g"
    "eois (mmio_trace ?g) = eois (mmio_trace g) @ (if iar AND 0x3FF = 1023 then [] else [iar])"
    by simp_all
  have "irq_ok ?g" using Cons.prems by simp
  from Cons.IH [OF this, of ?s] show ?case
    unfolding same by (auto simp: step)
qed

section \<open>Register addresses\<close>

lemma reg_address:
  assumes "i < 256" and "unat a < 2 ^ 32"
  shows "unat (a + ucast (of_nat i :: u32) * 4 :: u64) = unat a + 4 * i"
proof -
  have "unat (of_nat i :: u32) = i" using assms(1) by (simp add: unat_of_nat)
  then have "ucast (of_nat i :: u32) = (of_nat i :: u64)" by (metis of_nat_unat)
  then have "a + ucast (of_nat i :: u32) * 4 = a + of_nat (4 * i)" by (simp add: mult.commute)
  moreover have "unat (of_nat (4 * i) :: u64) = 4 * i" using assms(1) by (simp only: unat_of_nat) simp
  ultimately show ?thesis using assms by (simp only: unat_plus_if') simp
qed

lemma unat_gicd:
  "i < 256 \<Longrightarrow> unat (GICD_ISENABLER (of_nat i)) = 0x08000100 + 4 * i"
  "i < 256 \<Longrightarrow> unat (GICD_ICENABLER (of_nat i)) = 0x08000180 + 4 * i"
  "i < 256 \<Longrightarrow> unat (GICD_IPRIORITYR (of_nat i)) = 0x08000400 + 4 * i"
  "i < 256 \<Longrightarrow> unat (GICD_ITARGETSR (of_nat i)) = 0x08000800 + 4 * i"
  "i < 256 \<Longrightarrow> unat (GICD_ICFGR (of_nat i)) = 0x08000C00 + 4 * i"
  "unat GICD_CTLR = 0x08000000" "unat GICC_CTLR = 0x08010000" "unat GICC_PMR = 0x08010004"
  "unat GICC_BPR = 0x08010008"
  by (simp_all add: GICD_ISENABLER_def GICD_ICENABLER_def GICD_IPRIORITYR_def GICD_ITARGETSR_def
      GICD_ICFGR_def GICD_BASE_def GICC_BASE_def GICD_CTLR_def GICC_CTLR_def GICC_PMR_def GICC_BPR_def
      reg_address)

text \<open>Of a run of writes to consecutive registers, one address sees the write of its own index.\<close>

lemma last_write_regs:
  assumes f: "\<And>i. i < 256 \<Longrightarrow> unat (f (of_nat i)) = B + 4 * i" and "n \<le> 256"
  shows "last_write a (map (\<lambda>i. Write (f (of_nat i)) v) [m..<n]) =
    (if B + 4 * m \<le> unat a \<and> unat a < B + 4 * n \<and> unat a mod 4 = B mod 4 then Some v else None)"
proof -
  have "a \<in> (\<lambda>i. f (of_nat i)) ` {m..<n} \<longleftrightarrow>
      B + 4 * m \<le> unat a \<and> unat a < B + 4 * n \<and> unat a mod 4 = B mod 4"
  proof
    assume "a \<in> (\<lambda>i. f (of_nat i)) ` {m..<n}"
    then obtain i where "m \<le> i" "i < n" "a = f (of_nat i)" by auto
    with f [of i] assms(2) show "B + 4 * m \<le> unat a \<and> unat a < B + 4 * n \<and> unat a mod 4 = B mod 4" by auto
  next
    assume a: "B + 4 * m \<le> unat a \<and> unat a < B + 4 * n \<and> unat a mod 4 = B mod 4"
    define i where "i = (unat a - B) div 4"
    have le: "B \<le> unat a" and "unat a mod 4 = B mod 4" using a by simp_all
    then have "4 dvd unat a - B" by (simp add: mod_eq_dvd_iff_nat)
    then have ua: "unat a = B + 4 * i" using le by (simp add: i_def)
    have i: "m \<le> i" "i < n" using a unfolding ua by simp_all
    have "unat (f (of_nat i)) = unat a" using f [of i] i(2) assms(2) by (simp only: ua)
    then have "a = f (of_nat i)" by (simp only: word_unat_eq_iff)
    then show "a \<in> (\<lambda>i. f (of_nat i)) ` {m..<n}"
      using i by (intro image_eqI [of _ _ i]) (simp_all only: atLeastLessThan_iff simp_thms)
  qed
  then show ?thesis by (simp add: last_write_map)
qed

lemma last_write_init:
  "last_write a irq_init_writes =
     (let n = unat a in
      if n = 0x08010000 then Some 1 else if n = 0x08010008 then Some 0 else if n = 0x08010004 then Some 0xFF
      else if n = 0x08000000 then Some 1
      else if 0x08000C08 \<le> n \<and> n < 0x08000C20 \<and> n mod 4 = 0 then Some 0
      else if 0x08000820 \<le> n \<and> n < 0x08000880 \<and> n mod 4 = 0 then Some 0x01010101
      else if 0x08000400 \<le> n \<and> n < 0x08000500 \<and> n mod 4 = 0 then Some 0xA0A0A0A0
      else if 0x08000184 \<le> n \<and> n < 0x080001A0 \<and> n mod 4 = 0 then Some 0xFFFFFFFF else None)"
proof -
  have eq: "b = a \<longleftrightarrow> unat a = unat b" for b by (auto simp: word_unat_eq_iff)
  show ?thesis
    unfolding irq_init_writes_def
    by (simp only: last_write_append last_write_regs [OF unat_gicd(2)] last_write_regs [OF unat_gicd(3)]
        last_write_regs [OF unat_gicd(4)] last_write_regs [OF unat_gicd(5)] last_write.simps eq unat_gicd(6-9)
        mmio.case Let_def)
      auto
qed

lemma eois_regs:
  assumes f: "\<And>i. i < 256 \<Longrightarrow> unat (f (of_nat i)) = B + 4 * i" and "n \<le> 256" and "B < 0x08001000"
  shows "eois (map (\<lambda>i. Write (f (of_nat i)) v) [m..<n]) = []"
proof -
  have "f (of_nat i) \<noteq> GICC_EOIR" if "i < n" for i
  proof -
    have "unat (f (of_nat i)) \<noteq> unat GICC_EOIR"
      using f [of i] that assms(2,3) by (simp add: GICC_EOIR_def GICC_BASE_def)
    then show ?thesis by auto
  qed
  then have less: "eois (map (\<lambda>i. Write (f (of_nat i)) v) is) = []" if "set is \<subseteq> {..<n}" for "is"
    using that by (induction "is") auto
  show ?thesis by (rule less) auto
qed

lemma eois_init: "eois irq_init_writes = []"
proof -
  have "GICD_CTLR \<noteq> GICC_EOIR" "GICC_PMR \<noteq> GICC_EOIR" "GICC_BPR \<noteq> GICC_EOIR" "GICC_CTLR \<noteq> GICC_EOIR"
    by (simp_all add: gic_defs)
  then show ?thesis
    unfolding irq_init_writes_def
    by (simp only: eois_append eois_regs [OF unat_gicd(2)] eois_regs [OF unat_gicd(3)]
        eois_regs [OF unat_gicd(4)] eois_regs [OF unat_gicd(5)] eois.simps if_False append_Nil)
qed

section \<open>Properties\<close>

text \<open>
  Property C27: interrupts are acknowledged and ended in pairs.  A run of interrupts returns; for
  every acknowledged interrupt, spurious ones excepted, exactly the acknowledged value is written
  to GICC_EOIR, in order; the handler registered for its number, and no other, is called once,
  and none for a number without one.
\<close>
theorem irq_ack_eoi:
  assumes "irq_ok g"
  shows "\<exists>g'. take_irqs call iars (g, s) =
      Inr (g', fold (serve call (irq_table g)) iars s) \<and>
    eois (mmio_trace g') = eois (mmio_trace g) @ filter (\<lambda>iar. iar AND 0x3FF \<noteq> 1023) iars"
  using take_irqs_eq [OF assms, of call iars s] by auto

definition sample_irq :: "nat irq" where
  "sample_irq = irq_register_handler 30 5 \<lparr>irq_table = replicate 64 None, mmio_trace = [], irqs_masked = True\<rparr>"

lemma irq_ack_eoi_witness:
  "\<exists>g'. take_irqs (\<lambda>h i s. s + h) [0x41E, 1023, 33, 30] (sample_irq, 0) = Inr (g', 10) \<and>
     eois (mmio_trace g') = [0x41E, 33, 30]"
proof -
  have ok: "irq_ok sample_irq"
    by (simp add: sample_irq_def irq_register_handler_def irq_ok_def IRQ_MAX_HANDLERS_def)
  have tbl: "length (irq_table sample_irq) = 64" "irq_table sample_irq ! 30 = Some 5"
      "irq_table sample_irq ! 33 = None" "eois (mmio_trace sample_irq) = []"
    by (simp_all add: sample_irq_def irq_register_handler_def IRQ_MAX_HANDLERS_def gic_defs)
  have "dispatch (\<lambda>h i s. s + h) (irq_table sample_irq) 30 s = s + 5"
    "dispatch (\<lambda>h i s. s + h) (irq_table sample_irq) 33 s = s" for s :: nat
    using tbl by (simp_all add: dispatch_def)
  then have "fold (serve (\<lambda>h i s. s + h) (irq_table sample_irq)) [0x41E, 1023, 33, 30] 0 = 10"
    by (simp add: serve_def)
  with irq_ack_eoi [OF ok, of "\<lambda>h i s. s + h" "[0x41E, 1023, 33, 30]" 0] tbl(4) show ?thesis
    by simp
qed

text \<open>
  Every exception that is not an IRQ parks the core and is never acknowledged; an
  IRQ never does.
\<close>
theorem trap_halts_iff:
  assumes "irq_ok g"
  shows "common_trap_handler call exc iar (g, s) = Inl Halted \<longleftrightarrow> exc \<notin> {EXC_SPX_IRQ, EXC_A64_IRQ}"
  using trap_irq [OF assms, of exc call iar s] by (auto simp: common_trap_handler_def)

lemma trap_halts_iff_witness:
  "common_trap_handler (\<lambda>h i s. s) 0x21 30 (sample_irq, ()) = Inl Halted"
proof -
  have "irq_ok sample_irq"
    by (simp add: sample_irq_def irq_register_handler_def irq_ok_def IRQ_MAX_HANDLERS_def)
  then show ?thesis
    using trap_halts_iff [of sample_irq "\<lambda>h i s. s" "0x21" 30 "()"]
    by (simp add: EXC_SPX_IRQ_def EXC_A64_IRQ_def)
qed

text \<open>
  \<^verbatim>\<open>irq_register_handler\<close> refuses numbers from 64 on without any effect; for a smaller
  number it changes that table entry only and writes, to the enable register of its block of
  32, exactly the bit of that interrupt.
\<close>
theorem irq_register_spec:
  assumes "irq_ok g"
  shows "if 64 \<le> unat irq_id then irq_register_handler irq_id h g = g
    else \<exists>v. irq_register_handler irq_id h g =
        g\<lparr>irq_table := (irq_table g)[unat irq_id := Some h],
          mmio_trace := mmio_trace g @ [Write (GICD_BASE + 0x100 + 4 * of_nat (unat irq_id div 32)) v]\<rparr> \<and>
      irq_ok (irq_register_handler irq_id h g) \<and>
      (\<forall>b. bit v b \<longleftrightarrow> b = unat irq_id mod 32)"
proof (cases "64 \<le> unat irq_id")
  case True
  then show ?thesis
    by (simp add: irq_register_handler_def IRQ_MAX_HANDLERS_def word_le_nat_alt)
next
  case False
  let ?v = "push_bit (unat (irq_id mod 32)) 1 :: u32"
  have "unat (irq_id mod 32) = unat irq_id mod 32" by (simp add: unat_mod_distrib)
  then have "\<forall>b. bit ?v b \<longleftrightarrow> b = unat irq_id mod 32"
    by (auto simp: bit_simps)
  moreover have "ucast (irq_id div 32) * 4 = (4 * of_nat (unat irq_id div 32) :: u64)"
  proof -
    have "unat (irq_id div 32) = unat irq_id div 32" by (simp add: unat_div_distrib)
    then have "(of_nat (unat irq_id div 32) :: u64) = of_nat (unat (irq_id div 32))" by (simp only:)
    also have "\<dots> = ucast (irq_id div 32)" by (rule of_nat_unat)
    finally show ?thesis by (simp only: mult.commute)
  qed
  moreover have "\<not> irq_id \<ge> IRQ_MAX_HANDLERS"
    using False by (simp add: IRQ_MAX_HANDLERS_def word_le_nat_alt)
  ultimately have eq: "irq_register_handler irq_id h g = g\<lparr>irq_table := (irq_table g)[unat irq_id := Some h],
      mmio_trace := mmio_trace g @ [Write (GICD_BASE + 0x100 + 4 * of_nat (unat irq_id div 32)) ?v]\<rparr>"
    by (simp add: irq_register_handler_def mmio_log_def GICD_ISENABLER_def)
  have "irq_ok (irq_register_handler irq_id h g)"
    using assms by (simp add: eq irq_ok_def)
  with eq False \<open>\<forall>b. bit ?v b \<longleftrightarrow> b = unat irq_id mod 32\<close> show ?thesis by auto
qed

lemma irq_register_spec_witness:
  "\<exists>v. irq_register_handler IRQ_ID_UART0 9 sample_irq =
     sample_irq\<lparr>irq_table := (irq_table sample_irq)[33 := Some 9],
       mmio_trace := mmio_trace sample_irq @ [Write 0x08000104 v]\<rparr> \<and> (\<forall>b. bit v b \<longleftrightarrow> b = 1)"
proof -
  have "irq_ok sample_irq"
    by (simp add: sample_irq_def irq_register_handler_def irq_ok_def IRQ_MAX_HANDLERS_def)
  with irq_register_spec [of sample_irq IRQ_ID_UART0 9] show ?thesis
    by (simp add: IRQ_ID_UART0_def GICD_BASE_def) blast
qed

text \<open>
  What \<^verbatim>\<open>irq_init\<close> leaves in the distributor, for every interrupt number.  The
  distributor is off while it is configured and is switched on before the CPU interface; the
  shared interrupts 32 to 255 are masked and numbers below 256 get priority 0xA0, but only 32 to
  127 are routed to core 0 and made level-sensitive: 128 to 255 are masked and left without a
  target.
\<close>
theorem irq_init_config:
  assumes "n < 1020"
  shows "irq_init g = mmio_log irq_init_writes g \<and>
    (\<exists>conf. irq_init_writes = Write GICD_CTLR 0 # conf @
        [Write GICD_CTLR 1, Write GICC_PMR 0xFF, Write GICC_BPR 0, Write GICC_CTLR 1] \<and>
      last_write GICD_CTLR conf = None \<and> last_write GICC_CTLR conf = None) \<and>
    last_write (GICD_ICENABLER (of_nat (n div 32))) irq_init_writes =
      (if 32 \<le> n \<and> n < 256 then Some 0xFFFFFFFF else None) \<and>
    last_write (GICD_IPRIORITYR (of_nat (n div 4))) irq_init_writes =
      (if n < 256 then Some 0xA0A0A0A0 else None) \<and>
    last_write (GICD_ITARGETSR (of_nat (n div 4))) irq_init_writes =
      (if 32 \<le> n \<and> n < 128 then Some 0x01010101 else None) \<and>
    last_write (GICD_ICFGR (of_nat (n div 16))) irq_init_writes =
      (if 32 \<le> n \<and> n < 128 then Some 0 else None)"
proof -
  let ?conf = "map (\<lambda>i. Write (GICD_ICENABLER (of_nat i)) 0xFFFFFFFF) [1..<8] @
     map (\<lambda>i. Write (GICD_IPRIORITYR (of_nat i)) 0xA0A0A0A0) [0..<64] @
     map (\<lambda>i. Write (GICD_ITARGETSR (of_nat i)) 0x01010101) [8..<32] @
     map (\<lambda>i. Write (GICD_ICFGR (of_nat i)) 0) [2..<8]"
  have "irq_init_writes = Write GICD_CTLR 0 # ?conf @
      [Write GICD_CTLR 1, Write GICC_PMR 0xFF, Write GICC_BPR 0, Write GICC_CTLR 1]"
    by (simp only: irq_init_writes_def append.simps append_assoc)
  moreover have "last_write GICD_CTLR ?conf = None" "last_write GICC_CTLR ?conf = None"
    by (simp_all only: last_write_append last_write_regs [OF unat_gicd(2)] last_write_regs [OF unat_gicd(3)]
        last_write_regs [OF unat_gicd(4)] last_write_regs [OF unat_gicd(5)] unat_gicd(6-9)) simp_all
  moreover have "last_write (GICD_ICENABLER (of_nat (n div 32))) irq_init_writes =
      (if 32 \<le> n \<and> n < 256 then Some 0xFFFFFFFF else None)"
  proof -
    have "n div 32 < 32" "1 \<le> n div 32 \<and> n div 32 < 8 \<longleftrightarrow> 32 \<le> n \<and> n < 256" using assms by auto
    then show ?thesis
      unfolding last_write_init by (auto simp: unat_gicd Let_def)
  qed
  moreover have "last_write (GICD_IPRIORITYR (of_nat (n div 4))) irq_init_writes =
      (if n < 256 then Some 0xA0A0A0A0 else None)"
  proof -
    have "n div 4 < 255" "n div 4 < 64 \<longleftrightarrow> n < 256" using assms by auto
    then show ?thesis unfolding last_write_init by (auto simp: unat_gicd Let_def)
  qed
  moreover have "last_write (GICD_ITARGETSR (of_nat (n div 4))) irq_init_writes =
      (if 32 \<le> n \<and> n < 128 then Some 0x01010101 else None)"
  proof -
    have "n div 4 < 255" "8 \<le> n div 4 \<and> n div 4 < 32 \<longleftrightarrow> 32 \<le> n \<and> n < 128" using assms by auto
    then show ?thesis unfolding last_write_init by (auto simp: unat_gicd Let_def)
  qed
  moreover have "last_write (GICD_ICFGR (of_nat (n div 16))) irq_init_writes =
      (if 32 \<le> n \<and> n < 128 then Some 0 else None)"
  proof -
    have "n div 16 < 64" "2 \<le> n div 16 \<and> n div 16 < 8 \<longleftrightarrow> 32 \<le> n \<and> n < 128" using assms by auto
    then show ?thesis unfolding last_write_init by (auto simp: unat_gicd Let_def)
  qed
  ultimately show ?thesis unfolding irq_init_def by blast
qed

lemma irq_init_config_witness:
  "last_write (GICD_ITARGETSR (of_nat (33 div 4))) irq_init_writes = Some 0x01010101 \<and>
   last_write (GICD_ICENABLER (of_nat (200 div 32))) irq_init_writes = Some 0xFFFFFFFF \<and>
   last_write (GICD_ITARGETSR (of_nat (200 div 4))) irq_init_writes = None"
  using irq_init_config [of 33 sample_irq] irq_init_config [of 200 sample_irq]
  by (simp only: simp_thms if_True if_False) simp

end
