(* ===== verification/Timer_Tests.thy ===== *)
theory Timer_Tests
  imports System_State Irq
begin

text \<open>
  \<^verbatim>\<open>tests/interrupt/timer_tests.c\<close>: the interrupt handlers and the four timer tests, run on the GIC
  driver's model.  The counter, its frequency and the interrupts that arrive while a test waits
  are inputs; a \<^verbatim>\<open>wfe\<close> loop that no interrupt ends is \<open>Halted\<close>.
\<close>

section \<open>State\<close>

definition QEMU_VIRT_FREQ :: u64 where "QEMU_VIRT_FREQ = 62500000"
definition COUNTDOWN_START :: u8 where "COUNTDOWN_START = 0x35"
definition DELTA_TEST_TICKS :: u32 where "DELTA_TEST_TICKS = 3"
definition TOLERANCE_PERCENT :: u64 where "TOLERANCE_PERCENT = 10"

record timer_tests =
  tt_sys :: system
  u_timerLeft :: u8
  g_imask_fired :: u32
  g_delta_count :: u32
  g_delta_timestamps :: "u64 list"
  cntp_ctl :: "u64 list"       \<comment> \<open>the values written to \<open>cntp_ctl_el0\<close>, in order\<close>
  cntp_tval :: "u64 list"
  cntfrq :: u64                \<comment> \<open>what \<open>cntfrq_el0\<close> reads as\<close>
  cntpct :: "nat \<Rightarrow> u64"       \<comment> \<open>the value of the n-th read of \<open>cntpct_el0\<close>\<close>
  cnt_reads :: nat

definition tt_puts :: "string \<Rightarrow> timer_tests \<Rightarrow> timer_tests" where
  "tt_puts str t = t\<lparr>tt_sys := con_puts str (tt_sys t)\<rparr>"

definition tt_putc :: "char \<Rightarrow> timer_tests \<Rightarrow> timer_tests" where
  "tt_putc c t = t\<lparr>tt_sys := con_putc c (tt_sys t)\<rparr>"

definition tt_puthex :: "u64 \<Rightarrow> timer_tests \<Rightarrow> timer_tests" where
  "tt_puthex v t = t\<lparr>tt_sys := con_puthex v (tt_sys t)\<rparr>"

definition read_cntpct :: "timer_tests \<Rightarrow> u64 \<times> timer_tests" where
  "read_cntpct t = (cntpct t (cnt_reads t), t\<lparr>cnt_reads := Suc (cnt_reads t)\<rparr>)"

definition write_ctl :: "u64 \<Rightarrow> timer_tests \<Rightarrow> timer_tests" where
  "write_ctl v t = t\<lparr>cntp_ctl := cntp_ctl t @ [v]\<rparr>"

definition write_tval :: "u64 \<Rightarrow> timer_tests \<Rightarrow> timer_tests" where
  "write_tval v t = t\<lparr>cntp_tval := cntp_tval t @ [v]\<rparr>"

section \<open>Handlers\<close>

datatype handler = Uart0_Handler | Countdown_Handler | Imask_Handler | Delta_Handler

definition uart0_irq_handler :: "u32 \<Rightarrow> timer_tests \<Rightarrow> timer_tests" where
  "uart0_irq_handler irq_id t = t"

definition countdown_irq_handler :: "u32 \<Rightarrow> timer_tests \<Rightarrow> timer_tests" where
  "countdown_irq_handler irq_id t =
     (let t = tt_puts ''[IRQ] Timer fired! Remaining...'' t;
          t = tt_putc (char_of (unat (u_timerLeft t))) t;
          t = tt_puts [newline] t
      in if u_timerLeft t > 0x30 then
           write_tval (cntfrq t) (t\<lparr>u_timerLeft := u_timerLeft t - 1\<rparr>)
         else (write_ctl 0 t)\<lparr>u_timerLeft := 0\<rparr>)"

definition imask_irq_handler :: "u32 \<Rightarrow> timer_tests \<Rightarrow> timer_tests" where
  "imask_irq_handler irq_id t = t\<lparr>g_imask_fired := g_imask_fired t + 1\<rparr>"

definition delta_irq_handler :: "u32 \<Rightarrow> timer_tests \<Rightarrow> timer_tests" where
  "delta_irq_handler irq_id t =
     (let t = (if g_delta_count t \<le> DELTA_TEST_TICKS then
                 let (v, t) = read_cntpct t
                 in t\<lparr>g_delta_timestamps := (g_delta_timestamps t)[unat (g_delta_count t) := v],
                      g_delta_count := g_delta_count t + 1\<rparr>
               else t)
      in if g_delta_count t > DELTA_TEST_TICKS then write_ctl 0 t
         else write_tval (cntfrq t) t)"

primrec run_handler :: "handler \<Rightarrow> u32 \<Rightarrow> timer_tests \<Rightarrow> timer_tests" where
  "run_handler Uart0_Handler = uart0_irq_handler"
| "run_handler Countdown_Handler = countdown_irq_handler"
| "run_handler Imask_Handler = imask_irq_handler"
| "run_handler Delta_Handler = delta_irq_handler"

type_synonym test_state = "handler irq \<times> timer_tests"

definition on_tt :: "(timer_tests \<Rightarrow> timer_tests) \<Rightarrow> test_state \<Rightarrow> test_state" where
  "on_tt f = (\<lambda>(g, t). (g, f t))"

definition on_irq :: "(handler irq \<Rightarrow> handler irq) \<Rightarrow> test_state \<Rightarrow> test_state" where
  "on_irq f = (\<lambda>(g, t). (f g, t))"

section \<open>Tests\<close>

text \<open>
  A loop \<^verbatim>\<open>while (...) wfe\<close>: every arriving interrupt, given by its GICC_IAR value, is taken and
  the condition tested again; the interrupts not taken are left over.
\<close>

fun wait_irqs :: "(timer_tests \<Rightarrow> bool) \<Rightarrow> u32 list \<Rightarrow> test_state \<Rightarrow> (u32 list \<times> test_state) exec" where
  "wait_irqs done [] s = (if done (snd s) then Inr ([], s) else Inl Halted)"
| "wait_irqs done (iar # iars) s =
     (if done (snd s) then Inr (iar # iars, s)
      else bind_exec (common_trap_handler run_handler EXC_SPX_IRQ iar s) (wait_irqs done iars))"

definition test_freq_sanity :: "test_state \<Rightarrow> int \<times> test_state" where
  "test_freq_sanity s =
     (let s = on_tt (tt_puts ''[TEST] Frequency sanity check... '') s; freq = cntfrq (snd s) in
      if freq \<noteq> QEMU_VIRT_FREQ then
        (-1, on_tt (tt_puts ('')'' @ [newline]) \<circ> tt_puthex QEMU_VIRT_FREQ \<circ> tt_puts '', expected 0x'' \<circ>
               tt_puthex freq \<circ> tt_puts ''FAIL (got 0x'') s)
      else (0, on_tt (tt_puts (''PASS (62.5 MHz)'' @ [newline])) s))"

text \<open>
  The busy-wait on the counter: the number of reads it takes, starting from read \<open>n\<close>; it may
  never end.
\<close>

partial_function (option) busy_wait :: "(nat \<Rightarrow> u64) \<Rightarrow> u64 \<Rightarrow> u64 \<Rightarrow> nat \<Rightarrow> nat option" where
  "busy_wait cnt start dur n = (if cnt n - start < dur then busy_wait cnt start dur (Suc n) else Some (Suc n))"

text \<open>\<open>iars\<close> are the interrupts that arrive during the busy-wait, none when IMASK works.\<close>

definition test_imask :: "u32 list \<Rightarrow> test_state \<Rightarrow> (int \<times> test_state) exec" where
  "test_imask iars s =
     (let s = on_tt (\<lambda>t. (tt_puts ''[TEST] IMASK bit test... '' t)\<lparr>g_imask_fired := 0\<rparr>) s;
          s = on_irq (irq_register_handler IRQ_ID_TIMER Imask_Handler) s;
          freq = cntfrq (snd s);
          s = on_irq irq_enable (on_tt (write_ctl 3 \<circ> write_tval freq) s);
          (start, t) = read_cntpct (snd s)
      in case busy_wait (cntpct t) start (2 * freq) (cnt_reads t) of
           None \<Rightarrow> Inl Halted
         | Some n \<Rightarrow>
             bind_exec (take_irqs run_handler iars (fst s, t\<lparr>cnt_reads := n\<rparr>)) (\<lambda>s.
               let s = on_tt (write_ctl 0) (on_irq irq_disable s) in
               Inr (if g_imask_fired (snd s) \<noteq> 0 then
                      (-1, on_tt (tt_puts ('' times despite IMASK)'' @ [newline]) \<circ>
                             tt_putc (digit_char (g_imask_fired (snd s) AND 0xF)) \<circ>
                             tt_puts ''FAIL (handler fired '') s)
                    else (0, on_tt (tt_puts (''PASS (0 fires with IMASK set)'' @ [newline])) s))))"

definition test_countdown :: "u32 list \<Rightarrow> test_state \<Rightarrow> (int \<times> u32 list \<times> test_state) exec" where
  "test_countdown iars s =
     (let s = on_tt (tt_puts ('' -> 0...'' @ [newline]) \<circ> tt_putc (char_of (unat COUNTDOWN_START)) \<circ>
                tt_puts ''[TEST] Countdown timer '') s;
          s = on_tt (\<lambda>t. t\<lparr>u_timerLeft := COUNTDOWN_START\<rparr>) s;
          s = on_irq (irq_register_handler IRQ_ID_TIMER Countdown_Handler) s;
          freq = cntfrq (snd s);
          s = on_irq irq_enable (on_tt (write_ctl 1 \<circ> write_tval freq) s)
      in bind_exec (wait_irqs (\<lambda>t. u_timerLeft t = 0) iars s) (\<lambda>(rest, s).
           Inr (0, rest, on_tt (tt_puts (''[TEST] Countdown... PASS'' @ [newline])) (on_irq irq_disable s))))"

definition delta_min :: "u64 \<Rightarrow> u64" where
  "delta_min freq = freq - (freq * TOLERANCE_PERCENT div 100)"

definition delta_max :: "u64 \<Rightarrow> u64" where
  "delta_max freq = freq + (freq * TOLERANCE_PERCENT div 100)"

text \<open>One round of the loop that checks the deltas: prints it and clears \<open>pass\<close> when it is off.\<close>

definition check_delta :: "u64 \<Rightarrow> nat \<Rightarrow> bool \<times> timer_tests \<Rightarrow> bool \<times> timer_tests" where
  "check_delta freq i = (\<lambda>(pass, t).
     let delta = g_delta_timestamps t ! i - g_delta_timestamps t ! (i - 1);
         t = tt_puthex delta (tt_puts '']: 0x'' (tt_putc (digit_char (of_nat i)) (tt_puts ''  delta['' t)))
     in if delta < delta_min freq \<or> delta > delta_max freq
        then (False, tt_puts ('' FAIL'' @ [newline]) t)
        else (pass, tt_puts ('' OK'' @ [newline]) t))"

definition test_delta :: "u32 list \<Rightarrow> test_state \<Rightarrow> (int \<times> u32 list \<times> test_state) exec" where
  "test_delta iars s =
     (let s = on_tt (tt_puts ''[TEST] Overflow/late-reload delta check... '') s;
          s = on_tt (\<lambda>t. t\<lparr>g_delta_count := 0, g_delta_timestamps :=
                fold (\<lambda>i ts. ts[i := 0]) [0..<4] (g_delta_timestamps t)\<rparr>) s;
          s = on_irq (irq_register_handler IRQ_ID_TIMER Delta_Handler) s;
          freq = cntfrq (snd s);
          s = on_irq irq_enable (on_tt (write_ctl 1 \<circ> write_tval freq) s)
      in bind_exec (wait_irqs (\<lambda>t. g_delta_count t > DELTA_TEST_TICKS) iars s) (\<lambda>(rest, s).
           let (g, t) = on_irq irq_disable s;
               (pass, t) = fold (check_delta freq) [1, 2, 3] (True, t)
           in Inr (if \<not> pass then (-1, rest, (g, tt_puts (''[TEST] Delta check... FAIL'' @ [newline]) t))
                   else (0, rest, (g, tt_puts (''[TEST] Delta check... PASS'' @ [newline]) t)))))"

text \<open>
  \<^verbatim>\<open>interrupt_tests_init\<close>: \<open>quiet\<close> are the interrupts during the IMASK test, \<open>iars\<close> those after it.
\<close>

definition interrupt_tests_init :: "u32 list \<Rightarrow> u32 list \<Rightarrow> test_state \<Rightarrow> (u32 list \<times> test_state) exec" where
  "interrupt_tests_init quiet iars s =
     (let s = on_irq (irq_register_handler IRQ_ID_UART0 Uart0_Handler \<circ> irq_init) s;
          (r, s) = test_freq_sanity s
      in if r \<noteq> 0 then Inl Halted
         else bind_exec (test_imask quiet s) (\<lambda>(_, s).
              bind_exec (test_countdown iars s) (\<lambda>(_, iars, s).
              bind_exec (test_delta iars s) (\<lambda>(_, iars, s).
                Inr (iars, on_tt (tt_puts (''[IRQ] All timer tests complete. Continuing...'' @ [newline])) s)))))"

section \<open>Waiting\<close>

text \<open>The tests as the handlers see them: only the effect of the interrupts on the test state.\<close>

fun wait_pure :: "(u32 \<Rightarrow> timer_tests \<Rightarrow> timer_tests) \<Rightarrow> (timer_tests \<Rightarrow> bool) \<Rightarrow> u32 list \<Rightarrow> timer_tests \<Rightarrow>
    (u32 list \<times> timer_tests) option" where
  "wait_pure f done [] t = (if done t then Some ([], t) else None)"
| "wait_pure f done (iar # iars) t =
     (if done t then Some (iar # iars, t) else wait_pure f done iars (f iar t))"

lemma wait_irqs_pure:
  assumes "irq_ok g"
  shows "case wait_pure (serve run_handler (irq_table g)) done iars t of
      None \<Rightarrow> wait_irqs done iars (g, t) = Inl Halted
    | Some (rest, t') \<Rightarrow> \<exists>g' taken. wait_irqs done iars (g, t) = Inr (rest, g', t') \<and> irq_ok g' \<and>
        irq_table g' = irq_table g \<and> irqs_masked g' = irqs_masked g \<and> iars = taken @ rest \<and>
        eois (mmio_trace g') = eois (mmio_trace g) @ filter (\<lambda>iar. iar AND 0x3FF \<noteq> 1023) taken"
  using assms
proof (induction iars arbitrary: g t)
  case Nil
  then show ?case by simp
next
  case (Cons iar iars)
  show ?case
  proof (cases "done t")
    case True
    then show ?thesis using Cons.prems by simp
  next
    case False
    let ?g = "if iar AND 0x3FF = 1023 then mmio_log [Read GICC_IAR iar] g
      else mmio_log [Read GICC_IAR iar, Write GICC_EOIR iar] g"
    let ?t = "serve run_handler (irq_table g) iar t"
    have step: "common_trap_handler run_handler EXC_SPX_IRQ iar (g, t) = Inr (?g, ?t)"
      using trap_irq [OF Cons.prems, of EXC_SPX_IRQ run_handler iar t] by (simp add: serve_def)
    have same: "irq_table ?g = irq_table g" "irqs_masked ?g = irqs_masked g" by simp_all
    have e: "eois (mmio_trace ?g) = eois (mmio_trace g) @ filter (\<lambda>iar. iar AND 0x3FF \<noteq> 1023) [iar]"
      by simp
    have "irq_ok ?g" using Cons.prems by simp
    note IH = Cons.IH [OF this, of ?t, unfolded same e]
    show ?thesis
    proof (cases "wait_pure (serve run_handler (irq_table g)) done iars ?t")
      case None
      with IH False step show ?thesis by simp
    next
      case (Some a)
      obtain rest t' where a: "a = (rest, t')" by (cases a)
      from IH Some a obtain g' taken where g': "wait_irqs done iars (?g, ?t) = Inr (rest, g', t')" "irq_ok g'"
          "irq_table g' = irq_table g" "irqs_masked g' = irqs_masked g" "iars = taken @ rest"
          "eois (mmio_trace g') = (eois (mmio_trace g) @ filter (\<lambda>iar. iar AND 0x3FF \<noteq> 1023) [iar]) @
             filter (\<lambda>iar. iar AND 0x3FF \<noteq> 1023) taken"
        by auto
      have w: "wait_irqs done (iar # iars) (g, t) = Inr (rest, g', t')"
        using False step g'(1) by (simp only: wait_irqs.simps snd_conv if_False bind_exec.simps)
      have "wait_pure (serve run_handler (irq_table g)) done (iar # iars) t = Some (rest, t')"
        using False Some a by simp
      with w g' show ?thesis
        by (auto intro!: exI [of _ "iar # taken"])
    qed
  qed
qed

section \<open>The registered handlers\<close>

definition is_timer :: "u32 \<Rightarrow> bool" where
  "is_timer iar \<longleftrightarrow> iar AND 0x3FF = IRQ_ID_TIMER"

text \<open>No handler but the one that does nothing is registered for the other interrupts.\<close>

definition only_uart0 :: "handler option list \<Rightarrow> bool" where
  "only_uart0 tbl \<longleftrightarrow> (\<forall>i < 64. i \<noteq> 30 \<longrightarrow> tbl ! i = None \<or> tbl ! i = Some Uart0_Handler)"

definition timer_table :: "handler \<Rightarrow> handler option list \<Rightarrow> bool" where
  "timer_table h tbl \<longleftrightarrow> length tbl = 64 \<and> tbl ! 30 = Some h \<and> only_uart0 tbl"

lemma serve_timer:
  assumes "timer_table h tbl"
  shows "serve run_handler tbl iar t = (if is_timer iar then run_handler h IRQ_ID_TIMER t else t)"
proof (cases "is_timer iar")
  case True
  then show ?thesis
    using assms by (simp add: is_timer_def serve_def dispatch_def timer_table_def IRQ_ID_TIMER_def)
next
  case False
  let ?i = "unat (iar AND 0x3FF)"
  have "?i \<noteq> 30" using False by (auto simp: is_timer_def IRQ_ID_TIMER_def word_unat_eq_iff)
  then have "?i < 64 \<Longrightarrow> tbl ! ?i = None \<or> tbl ! ?i = Some Uart0_Handler"
    using assms by (auto simp: timer_table_def only_uart0_def)
  with False show ?thesis
    using assms by (auto simp: serve_def dispatch_def timer_table_def uart0_irq_handler_def)
qed

lemma register_timer_table:
  assumes "irq_ok g" and "only_uart0 (irq_table g)"
  shows "timer_table h (irq_table (irq_register_handler IRQ_ID_TIMER h g))"
    and "irq_ok (irq_register_handler IRQ_ID_TIMER h g)"
    and "eois (mmio_trace (irq_register_handler IRQ_ID_TIMER h g)) = eois (mmio_trace g)"
  using assms
  by (auto simp: irq_register_handler_def IRQ_MAX_HANDLERS_def IRQ_ID_TIMER_def timer_table_def only_uart0_def irq_ok_def
      gic_defs)

lemma timer_table_rest:
  "timer_table h tbl \<Longrightarrow> only_uart0 tbl"
  by (simp add: timer_table_def)

lemma irq_enable_simps [simp]:
  "irq_table (irq_enable g) = irq_table g" "irq_table (irq_disable g) = irq_table g"
  "mmio_trace (irq_enable g) = mmio_trace g" "mmio_trace (irq_disable g) = mmio_trace g"
  "irq_ok (irq_enable g) = irq_ok g" "irq_ok (irq_disable g) = irq_ok g"
  "irqs_masked (irq_disable g)" "\<not> irqs_masked (irq_enable g)"
  by (simp_all add: irq_enable_def irq_disable_def irq_ok_def)

lemma tt_simps [simp]:
  "u_timerLeft (tt_puts x t) = u_timerLeft t" "u_timerLeft (tt_putc c t) = u_timerLeft t"
  "u_timerLeft (tt_puthex v t) = u_timerLeft t" "u_timerLeft (write_ctl v t) = u_timerLeft t"
  "u_timerLeft (write_tval v t) = u_timerLeft t"
  "g_imask_fired (tt_puts x t) = g_imask_fired t" "g_imask_fired (write_ctl v t) = g_imask_fired t"
  "g_imask_fired (write_tval v t) = g_imask_fired t"
  "g_delta_count (tt_puts x t) = g_delta_count t" "g_delta_count (write_ctl v t) = g_delta_count t"
  "g_delta_count (write_tval v t) = g_delta_count t"
  "g_delta_timestamps (tt_puts x t) = g_delta_timestamps t" "g_delta_timestamps (tt_putc c t) = g_delta_timestamps t"
  "g_delta_timestamps (tt_puthex v t) = g_delta_timestamps t" "g_delta_timestamps (write_ctl v t) = g_delta_timestamps t"
  "g_delta_timestamps (write_tval v t) = g_delta_timestamps t"
  "cntfrq (tt_puts x t) = cntfrq t" "cntfrq (tt_putc c t) = cntfrq t" "cntfrq (tt_puthex v t) = cntfrq t"
  "cntfrq (write_ctl v t) = cntfrq t" "cntfrq (write_tval v t) = cntfrq t"
  "cntpct (tt_puts x t) = cntpct t" "cntpct (tt_putc c t) = cntpct t" "cntpct (tt_puthex v t) = cntpct t"
  "cntpct (write_ctl v t) = cntpct t" "cntpct (write_tval v t) = cntpct t"
  "cnt_reads (tt_puts x t) = cnt_reads t" "cnt_reads (tt_putc c t) = cnt_reads t" "cnt_reads (tt_puthex v t) = cnt_reads t"
  "cnt_reads (write_ctl v t) = cnt_reads t" "cnt_reads (write_tval v t) = cnt_reads t"
  "cntp_ctl (tt_puts x t) = cntp_ctl t" "cntp_ctl (tt_putc c t) = cntp_ctl t" "cntp_ctl (tt_puthex v t) = cntp_ctl t"
  "cntp_ctl (write_ctl v t) = cntp_ctl t @ [v]" "cntp_ctl (write_tval v t) = cntp_ctl t"
  "tt_sys (write_ctl v t) = tt_sys t" "tt_sys (write_tval v t) = tt_sys t"
  "tt_sys (tt_puts x t) = con_puts x (tt_sys t)" "tt_sys (tt_putc c t) = con_putc c (tt_sys t)"
  "tt_sys (tt_puthex v t) = con_puthex v (tt_sys t)"
  by (simp_all add: tt_puts_def tt_putc_def tt_puthex_def write_ctl_def write_tval_def)

section \<open>The countdown\<close>

text \<open>The lines the last \<open>k\<close> interrupts print.\<close>

primrec countdown_text :: "nat \<Rightarrow> string" where
  "countdown_text 0 = []"
| "countdown_text (Suc k) = puts_text ''[IRQ] Timer fired! Remaining...'' @ [char_of (48 + k)] @
     puts_text [newline] @ countdown_text k"

lemma left_zero: "k \<le> 6 \<Longrightarrow> (if k = 0 then 0 else of_nat (47 + k) :: u8) = 0 \<longleftrightarrow> k = 0"
proof -
  assume "k \<le> 6"
  then have "unat (of_nat (47 + k) :: u8) = 47 + k" by (simp only: unat_of_nat) simp
  then have "(of_nat (47 + k) :: u8) \<noteq> 0" by (simp only: word_unat_eq_iff) simp
  then show ?thesis by simp
qed

lemma countdown_fires:
  assumes "j \<le> 5" and "u_timerLeft t = of_nat (48 + j)"
  defines "t' \<equiv> countdown_irq_handler IRQ_ID_TIMER t"
  shows "u_timerLeft t' = (if j = 0 then 0 else of_nat (47 + j))"
    "tt_sys t' = log_text (puts_text ''[IRQ] Timer fired! Remaining...'' @ [char_of (48 + j)] @ puts_text [newline]) (tt_sys t)"
    "cntp_ctl t' = cntp_ctl t @ (if j = 0 then [0] else [])" "cntfrq t' = cntfrq t"
    "cntpct t' = cntpct t" "cnt_reads t' = cnt_reads t" "g_delta_timestamps t' = g_delta_timestamps t"
proof -
  have "unat (of_nat (48 + j) :: u8) = 48 + j" using assms(1) by (simp only: unat_of_nat) simp
  then have left: "unat (u_timerLeft t) = 48 + j" by (simp only: assms(2))
  then have gt: "u_timerLeft t > 0x30 \<longleftrightarrow> j \<noteq> 0" by (simp add: word_less_nat_alt)
  show "u_timerLeft t' = (if j = 0 then 0 else of_nat (47 + j))"
    using gt left assms(2) by (simp add: t'_def countdown_irq_handler_def Let_def)
  show "tt_sys t' = log_text (puts_text ''[IRQ] Timer fired! Remaining...'' @ [char_of (48 + j)] @ puts_text [newline]) (tt_sys t)"
    using left by (simp add: t'_def countdown_irq_handler_def Let_def con_log)
  show "cntp_ctl t' = cntp_ctl t @ (if j = 0 then [0] else [])" "cntfrq t' = cntfrq t"
    "cntpct t' = cntpct t" "cnt_reads t' = cnt_reads t" "g_delta_timestamps t' = g_delta_timestamps t"
    using gt by (simp_all add: t'_def countdown_irq_handler_def Let_def)
qed

lemma countdown_wait:
  assumes "k \<le> 6" and "u_timerLeft t = (if k = 0 then 0 else of_nat (47 + k))"
    and f: "\<And>iar t. f iar t = (if is_timer iar then countdown_irq_handler IRQ_ID_TIMER t else t)"
  shows "if length (filter is_timer iars) < k then wait_pure f (\<lambda>t. u_timerLeft t = 0) iars t = None
    else \<exists>rest t'. wait_pure f (\<lambda>t. u_timerLeft t = 0) iars t = Some (rest, t') \<and>
      u_timerLeft t' = 0 \<and> tt_sys t' = log_text (countdown_text k) (tt_sys t) \<and>
      length (filter is_timer iars) = k + length (filter is_timer rest) \<and>
      cntp_ctl t' = cntp_ctl t @ (if k = 0 then [] else [0]) \<and> cntfrq t' = cntfrq t \<and>
      cntpct t' = cntpct t \<and> cnt_reads t' = cnt_reads t \<and> g_delta_timestamps t' = g_delta_timestamps t"
  using assms(1,2)
proof (induction iars arbitrary: k t)
  case Nil
  then have "u_timerLeft t = 0 \<longleftrightarrow> k = 0" by (simp only: left_zero)
  then show ?case by (simp add: log_text_def)
next
  case (Cons iar iars)
  have zero: "u_timerLeft t = 0 \<longleftrightarrow> k = 0"
    using Cons.prems by (simp only: left_zero)
  show ?case
  proof (cases "k = 0")
    case True
    with zero show ?thesis by (auto simp: log_text_def)
  next
    case False
    show ?thesis
    proof (cases "is_timer iar")
      case False
      have "wait_pure f (\<lambda>t. u_timerLeft t = 0) (iar # iars) t = wait_pure f (\<lambda>t. u_timerLeft t = 0) iars t"
        using False zero \<open>k \<noteq> 0\<close> by (simp add: f)
      with False Cons.IH [OF Cons.prems] show ?thesis by (simp del: wait_pure.simps)
    next
      case True
      obtain j where j: "k = Suc j" using \<open>k \<noteq> 0\<close> by (cases k) auto
      have "j \<le> 5" "u_timerLeft t = of_nat (48 + j)" using Cons.prems j by simp_all
      note fires = countdown_fires [OF this]
      have "wait_pure f (\<lambda>t. u_timerLeft t = 0) (iar # iars) t =
          wait_pure f (\<lambda>t. u_timerLeft t = 0) iars (countdown_irq_handler IRQ_ID_TIMER t)"
        using True zero \<open>k \<noteq> 0\<close> by (simp add: f)
      then show ?thesis
        using Cons.IH [OF _ fires(1)] fires(2-) Cons.prems(1) True j by (auto simp: con_log simp del: wait_pure.simps)
    qed
  qed
qed

section \<open>The delta test\<close>

lemma delta_fires:
  assumes "d < 4" and "g_delta_count t = of_nat d" and "length (g_delta_timestamps t) = 4"
  defines "t' \<equiv> delta_irq_handler IRQ_ID_TIMER t"
  shows "g_delta_count t' = of_nat (Suc d)" "length (g_delta_timestamps t') = 4"
    "take (Suc d) (g_delta_timestamps t') @ map (\<lambda>j. cntpct t' (cnt_reads t' + j)) [0..<4 - Suc d] =
       take d (g_delta_timestamps t) @ map (\<lambda>j. cntpct t (cnt_reads t + j)) [0..<4 - d]"
    "tt_sys t' = tt_sys t" "cntfrq t' = cntfrq t" "cntp_ctl t' = cntp_ctl t @ (if d = 3 then [0] else [])"
proof -
  let ?v = "cntpct t (cnt_reads t)"
  have d: "unat (g_delta_count t) = d" "g_delta_count t \<le> DELTA_TEST_TICKS"
    using assms(1,2) by (auto simp: DELTA_TEST_TICKS_def word_le_nat_alt unat_of_nat)
  have last: "of_nat d + 1 > DELTA_TEST_TICKS \<longleftrightarrow> d = 3"
    using assms(1) by (auto simp: DELTA_TEST_TICKS_def word_less_nat_alt unat_word_ariths unat_of_nat)
  have t: "g_delta_timestamps t' = (g_delta_timestamps t)[d := ?v]" "cntpct t' = cntpct t" "cnt_reads t' = Suc (cnt_reads t)"
    using d assms(2) by (simp_all add: t'_def delta_irq_handler_def read_cntpct_def Let_def)
  have "4 - d = Suc (4 - Suc d)" using assms(1) by simp
  then have "map (\<lambda>j. cntpct t (cnt_reads t + j)) [0..<4 - d] = ?v # map (\<lambda>j. cntpct t' (cnt_reads t' + j)) [0..<4 - Suc d]"
    by (simp add: t map_upt_Suc del: upt_Suc)
  then show "take (Suc d) (g_delta_timestamps t') @ map (\<lambda>j. cntpct t' (cnt_reads t' + j)) [0..<4 - Suc d] =
      take d (g_delta_timestamps t) @ map (\<lambda>j. cntpct t (cnt_reads t + j)) [0..<4 - d]"
    using assms(1,3) by (simp add: t(1) take_Suc_update)
  show "length (g_delta_timestamps t') = 4" using assms(3) by (simp add: t(1))
  show "g_delta_count t' = of_nat (Suc d)" "tt_sys t' = tt_sys t" "cntfrq t' = cntfrq t"
    "cntp_ctl t' = cntp_ctl t @ (if d = 3 then [0] else [])"
    using d assms(2) last by (simp_all add: t'_def delta_irq_handler_def read_cntpct_def Let_def add.commute)
qed

lemma delta_wait:
  assumes "d \<le> 4" and "g_delta_count t = of_nat d" and "length (g_delta_timestamps t) = 4"
    and f: "\<And>iar t. f iar t = (if is_timer iar then delta_irq_handler IRQ_ID_TIMER t else t)"
  shows "if length (filter is_timer iars) < 4 - d
    then wait_pure f (\<lambda>t. g_delta_count t > DELTA_TEST_TICKS) iars t = None
    else \<exists>rest t'. wait_pure f (\<lambda>t. g_delta_count t > DELTA_TEST_TICKS) iars t = Some (rest, t') \<and>
      length (filter is_timer iars) = 4 - d + length (filter is_timer rest) \<and>
      g_delta_timestamps t' = take d (g_delta_timestamps t) @ map (\<lambda>j. cntpct t (cnt_reads t + j)) [0..<4 - d] \<and>
      g_delta_count t' = 4 \<and> tt_sys t' = tt_sys t \<and> cntfrq t' = cntfrq t \<and>
      cntp_ctl t' = cntp_ctl t @ (if d = 4 then [] else [0])"
  using assms(1-3)
proof (induction iars arbitrary: d t)
  case Nil
  then have "g_delta_count t > DELTA_TEST_TICKS \<longleftrightarrow> d = 4"
    by (auto simp: DELTA_TEST_TICKS_def word_less_nat_alt unat_of_nat)
  then show ?case using Nil by (cases "d = 4") simp_all
next
  case (Cons iar iars)
  have full: "g_delta_count t > DELTA_TEST_TICKS \<longleftrightarrow> d = 4"
    using Cons.prems by (auto simp: DELTA_TEST_TICKS_def word_less_nat_alt unat_of_nat)
  show ?case
  proof (cases "d = 4")
    case True
    with full Cons.prems show ?thesis by simp
  next
    case False
    show ?thesis
    proof (cases "is_timer iar")
      case False
      have "wait_pure f (\<lambda>t. g_delta_count t > DELTA_TEST_TICKS) (iar # iars) t =
          wait_pure f (\<lambda>t. g_delta_count t > DELTA_TEST_TICKS) iars t"
        using False full \<open>d \<noteq> 4\<close> by (simp add: f)
      with False Cons.IH [OF Cons.prems] show ?thesis by (simp del: wait_pure.simps)
    next
      case True
      let ?t = "delta_irq_handler IRQ_ID_TIMER t"
      have d: "d < 4" "4 - d = Suc (4 - Suc d)" using Cons.prems(1) \<open>d \<noteq> 4\<close> by simp_all
      note fires = delta_fires [OF d(1) Cons.prems(2,3)]
      have IH: "if length (filter is_timer iars) < 4 - Suc d
        then wait_pure f (\<lambda>t. g_delta_count t > DELTA_TEST_TICKS) iars ?t = None
        else \<exists>rest t'. wait_pure f (\<lambda>t. g_delta_count t > DELTA_TEST_TICKS) iars ?t = Some (rest, t') \<and>
          length (filter is_timer iars) = 4 - Suc d + length (filter is_timer rest) \<and>
          g_delta_timestamps t' = take d (g_delta_timestamps t) @ map (\<lambda>j. cntpct t (cnt_reads t + j)) [0..<4 - d] \<and>
          g_delta_count t' = 4 \<and> tt_sys t' = tt_sys t \<and> cntfrq t' = cntfrq t \<and>
          cntp_ctl t' = cntp_ctl t @ [0]"
        using Cons.IH [OF _ fires(1,2)] d(1) fires(3-) by (auto split: if_splits)
      have "wait_pure f (\<lambda>t. g_delta_count t > DELTA_TEST_TICKS) (iar # iars) t =
          wait_pure f (\<lambda>t. g_delta_count t > DELTA_TEST_TICKS) iars ?t"
        using full \<open>d \<noteq> 4\<close> True by (simp add: f)
      moreover have "length (filter is_timer (iar # iars)) < 4 - d \<longleftrightarrow> length (filter is_timer iars) < 4 - Suc d"
        using True d(1) by auto
      ultimately show ?thesis using IH True \<open>d \<noteq> 4\<close> d(2) by (auto split: if_splits)
    qed
  qed
qed

section \<open>Properties\<close>

text \<open>Every test registers a handler, enables interrupts, waits, and disables them again.\<close>

lemma wait_timer:
  assumes g: "irq_ok g" "only_uart0 (irq_table g)"
    and g1: "g1 = irq_enable (irq_register_handler IRQ_ID_TIMER h g)"
    and f: "f = (\<lambda>iar t. if is_timer iar then run_handler h IRQ_ID_TIMER t else t)"
  shows "case wait_pure f done iars t of
      None \<Rightarrow> wait_irqs done iars (g1, t) = Inl Halted
    | Some (rest, t') \<Rightarrow> \<exists>g' taken. wait_irqs done iars (g1, t) = Inr (rest, g', t') \<and> irq_ok g' \<and>
        only_uart0 (irq_table g') \<and> iars = taken @ rest \<and>
        eois (mmio_trace g') = eois (mmio_trace g) @ filter (\<lambda>iar. iar AND 0x3FF \<noteq> 1023) taken"
proof -
  note r = register_timer_table [OF g, of h]
  have ok: "irq_ok g1" using r(2) by (simp add: g1)
  have tbl: "timer_table h (irq_table g1)" using r(1) by (simp add: g1)
  have "serve run_handler (irq_table g1) = f" using serve_timer [OF tbl] by (auto simp: f fun_eq_iff)
  with wait_irqs_pure [OF ok, of "done" iars t] show ?thesis
    using timer_table_rest [OF tbl] r(3) by (auto simp: g1 split: option.splits)
qed

definition countdown_log :: string where
  "countdown_log = puts_text ''[TEST] Countdown timer '' @ ''5'' @ puts_text ('' -> 0...'' @ [newline]) @
     countdown_text 6 @ puts_text (''[TEST] Countdown... PASS'' @ [newline])"

lemma test_countdown_wait:
  assumes g: "irq_ok g" "only_uart0 (irq_table g)"
  shows "if length (filter is_timer iars) < 6 then test_countdown iars (g, t) = Inl Halted
    else \<exists>taken rest g' t'. test_countdown iars (g, t) = Inr (0, rest, g', t') \<and> iars = taken @ rest \<and>
      length (filter is_timer taken) = 6 \<and> tt_sys t' = log_text countdown_log (tt_sys t) \<and>
      cntp_ctl t' = cntp_ctl t @ [1, 0] \<and> irqs_masked g' \<and> irq_ok g' \<and> only_uart0 (irq_table g') \<and>
      cntfrq t' = cntfrq t \<and> cntpct t' = cntpct t \<and> cnt_reads t' = cnt_reads t \<and>
      g_delta_timestamps t' = g_delta_timestamps t \<and>
      eois (mmio_trace g') = eois (mmio_trace g) @ filter (\<lambda>iar. iar AND 0x3FF \<noteq> 1023) taken"
proof -
  define f where "f = (\<lambda>iar t. if is_timer iar then run_handler Countdown_Handler IRQ_ID_TIMER t else t)"
  define t1 where "t1 = (tt_puts ('' -> 0...'' @ [newline]) \<circ> tt_putc (char_of (unat COUNTDOWN_START)) \<circ>
    tt_puts ''[TEST] Countdown timer '') t"
  define t2 where "t2 = (write_ctl 1 \<circ> write_tval (cntfrq t)) (t1\<lparr>u_timerLeft := COUNTDOWN_START\<rparr>)"
  let ?g = "irq_enable (irq_register_handler IRQ_ID_TIMER Countdown_Handler g)"
  let ?w = "wait_irqs (\<lambda>t. u_timerLeft t = 0) iars (?g, t2)"
  have "cntfrq t1 = cntfrq t" by (simp add: t1_def)
  then have eq: "test_countdown iars (g, t) = bind_exec ?w (\<lambda>(rest, s).
      Inr (0, rest, on_tt (tt_puts (''[TEST] Countdown... PASS'' @ [newline])) (on_irq irq_disable s)))"
    by (simp add: test_countdown_def Let_def on_tt_def on_irq_def t2_def t1_def)
  have t2: "tt_sys t2 = log_text (puts_text ''[TEST] Countdown timer '' @ ''5'' @
      puts_text ('' -> 0...'' @ [newline])) (tt_sys t)"
    "u_timerLeft t2 = of_nat (47 + 6)" "cntp_ctl t2 = cntp_ctl t @ [1]" "cntfrq t2 = cntfrq t"
    "cntpct t2 = cntpct t" "cnt_reads t2 = cnt_reads t" "g_delta_timestamps t2 = g_delta_timestamps t"
    by (simp_all add: t2_def t1_def COUNTDOWN_START_def con_log char_of_def bit_Suc_0_iff)
  note w = countdown_wait [of 6 t2 f iars, simplified t2, simplified]
  note s = wait_timer [OF g refl f_def, of "\<lambda>t. u_timerLeft t = 0" iars t2]
  show ?thesis
  proof (cases "length (filter is_timer iars) < 6")
    case True
    with w have "wait_pure f (\<lambda>t. u_timerLeft t = 0) iars t2 = None" by (simp add: f_def)
    with s True eq show ?thesis by simp
  next
    case False
    with w obtain rest t' where t': "wait_pure f (\<lambda>t. u_timerLeft t = 0) iars t2 = Some (rest, t')"
      "tt_sys t' = log_text (countdown_text 6) (tt_sys t2)"
      "length (filter is_timer iars) = 6 + length (filter is_timer rest)"
      "cntp_ctl t' = cntp_ctl t @ [1, 0]" "cntfrq t' = cntfrq t"
      "cntpct t' = cntpct t" "cnt_reads t' = cnt_reads t" "g_delta_timestamps t' = g_delta_timestamps t"
      by (auto simp: f_def t2(1))
    with s obtain g' taken where g': "?w = Inr (rest, g', t')" "irq_ok g'" "only_uart0 (irq_table g')"
      "iars = taken @ rest"
      "eois (mmio_trace g') = eois (mmio_trace g) @ filter (\<lambda>iar. iar AND 0x3FF \<noteq> 1023) taken"
      by auto
    let ?t = "tt_puts (''[TEST] Countdown... PASS'' @ [newline]) t'"
    have res: "test_countdown iars (g, t) = Inr (0, rest, irq_disable g', ?t)"
      using g'(1) by (simp add: eq on_tt_def on_irq_def)
    have "tt_sys ?t = log_text countdown_log (tt_sys t)"
      using t'(2) by (simp add: countdown_log_def t2(1) con_log)
    then show ?thesis
      unfolding res using False t' g'
      by (intro if_not_P [THEN iffD2] exI [of _ taken] exI [of _ rest] exI [of _ "irq_disable g'"]
          exI [of _ ?t]) simp_all
  qed
qed

text \<open>A delta is accepted when it is within the tolerance.\<close>

definition delta_fine :: "u64 \<Rightarrow> u64 \<Rightarrow> bool" where
  "delta_fine freq d \<longleftrightarrow> delta_min freq \<le> d \<and> d \<le> delta_max freq"

lemma check_deltas:
  "\<exists>str. fold (check_delta freq) is (p, t) =
     (p \<and> (\<forall>i \<in> set is. delta_fine freq (g_delta_timestamps t ! i - g_delta_timestamps t ! (i - 1))),
      t\<lparr>tt_sys := log_text str (tt_sys t)\<rparr>)"
proof (induction "is" arbitrary: p t)
  case Nil
  have "t\<lparr>tt_sys := log_text [] (tt_sys t)\<rparr> = t" by (simp add: log_text_def)
  then show ?case by (auto intro!: exI [of _ "[]"])
next
  case (Cons i "is")
  let ?d = "g_delta_timestamps t ! i - g_delta_timestamps t ! (i - 1)"
  have "\<exists>str. check_delta freq i (p, t) = (p \<and> delta_fine freq ?d, t\<lparr>tt_sys := log_text str (tt_sys t)\<rparr>)"
    by (auto simp: check_delta_def Let_def delta_fine_def tt_puts_def tt_putc_def tt_puthex_def con_log
        linorder_not_less)
  then obtain str where str:
    "check_delta freq i (p, t) = (p \<and> delta_fine freq ?d, t\<lparr>tt_sys := log_text str (tt_sys t)\<rparr>)" ..
  show ?case
    using Cons.IH [of "p \<and> delta_fine freq ?d" "t\<lparr>tt_sys := log_text str (tt_sys t)\<rparr>"]
    by (auto simp: str con_log)
qed

lemma all_less_three: "(\<forall>i < (3::nat). P i) \<longleftrightarrow> P 0 \<and> P 1 \<and> P 2"
  by (auto simp: less_Suc_eq eval_nat_numeral)

lemma delta_verdict:
  assumes "g_delta_timestamps t = map stamp [0..<4]"
  obtains str where "fold (check_delta freq) [1, 2, 3] (True, t) =
    (\<forall>i < 3. delta_fine freq (stamp (Suc i) - stamp i), t\<lparr>tt_sys := log_text str (tt_sys t)\<rparr>)"
proof -
  have "(\<forall>i < 3. delta_fine freq (stamp (Suc i) - stamp i)) \<longleftrightarrow>
      (\<forall>i \<in> set [1, 2, 3]. delta_fine freq (g_delta_timestamps t ! i - g_delta_timestamps t ! (i - 1)))"
    unfolding all_less_three assms by (simp add: eval_nat_numeral)
  with check_deltas [of freq "[1, 2, 3]" True t] that show thesis by (simp only: simp_thms) blast
qed

lemma test_delta_wait:
  assumes g: "irq_ok g" "only_uart0 (irq_table g)" and len: "length (g_delta_timestamps t) = 4"
  defines "stamp \<equiv> \<lambda>i. cntpct t (cnt_reads t + i)"
  shows "if length (filter is_timer iars) < 4 then test_delta iars (g, t) = Inl Halted
    else \<exists>taken rest str g' t'. test_delta iars (g, t) =
        Inr (if \<forall>i < 3. delta_fine (cntfrq t) (stamp (Suc i) - stamp i) then 0 else -1, rest, g', t') \<and>
      iars = taken @ rest \<and> length (filter is_timer taken) = 4 \<and>
      g_delta_timestamps t' = map stamp [0..<4] \<and> tt_sys t' = log_text str (tt_sys t) \<and>
      cntp_ctl t' = cntp_ctl t @ [1, 0] \<and> irqs_masked g' \<and> irq_ok g' \<and> only_uart0 (irq_table g') \<and>
      eois (mmio_trace g') = eois (mmio_trace g) @ filter (\<lambda>iar. iar AND 0x3FF \<noteq> 1023) taken"
proof -
  define f where "f = (\<lambda>iar t. if is_timer iar then run_handler Delta_Handler IRQ_ID_TIMER t else t)"
  define t1 where "t1 = (tt_puts ''[TEST] Overflow/late-reload delta check... '' t)\<lparr>g_delta_count := 0,
      g_delta_timestamps := fold (\<lambda>i ts. ts[i := 0]) [0..<4] (g_delta_timestamps t)\<rparr>"
  define t2 where "t2 = (write_ctl 1 \<circ> write_tval (cntfrq t)) t1"
  let ?D = "\<lambda>t. g_delta_count t > DELTA_TEST_TICKS"
  let ?g = "irq_enable (irq_register_handler IRQ_ID_TIMER Delta_Handler g)"
  let ?w = "wait_irqs ?D iars (?g, t2)"
  have eq: "test_delta iars (g, t) = bind_exec ?w (\<lambda>(rest, s).
      let (g, t') = on_irq irq_disable s; (pass, t') = fold (check_delta (cntfrq t)) [1, 2, 3] (True, t')
      in Inr (if \<not> pass then (-1, rest, (g, tt_puts (''[TEST] Delta check... FAIL'' @ [newline]) t'))
              else (0, rest, (g, tt_puts (''[TEST] Delta check... PASS'' @ [newline]) t'))))"
    by (simp add: test_delta_def Let_def on_tt_def on_irq_def t2_def t1_def)
  have "length (fold (\<lambda>i ts. ts[i := 0 :: u64]) [0..<4] (g_delta_timestamps t)) = 4"
    using len by (simp add: eval_nat_numeral)
  then have t2: "tt_sys t2 = log_text (puts_text ''[TEST] Overflow/late-reload delta check... '') (tt_sys t)"
    "g_delta_count t2 = of_nat 0" "cntp_ctl t2 = cntp_ctl t @ [1]" "cntfrq t2 = cntfrq t"
    "cntpct t2 = cntpct t" "cnt_reads t2 = cnt_reads t" "length (g_delta_timestamps t2) = 4"
    by (simp_all add: t2_def t1_def con_log)
  have fs: "f iar t = (if is_timer iar then delta_irq_handler IRQ_ID_TIMER t else t)" for iar t
    by (simp add: f_def)
  note w = delta_wait [OF zero_le t2(2,7) fs, of iars, unfolded t2 diff_zero take_0 append.simps]
  note s = wait_timer [OF g refl f_def, of ?D iars t2]
  show ?thesis
  proof (cases "length (filter is_timer iars) < 4")
    case True
    with w have "wait_pure f ?D iars t2 = None" by simp
    with s True eq show ?thesis by simp
  next
    case False
    with w obtain rest t' where t': "wait_pure f ?D iars t2 = Some (rest, t')" "tt_sys t' = tt_sys t2"
      "length (filter is_timer iars) = 4 + length (filter is_timer rest)"
      "g_delta_timestamps t' = map stamp [0..<4]" "cntfrq t' = cntfrq t" "cntp_ctl t' = cntp_ctl t @ [1, 0]"
      by (auto simp: t2 stamp_def)
    with s obtain g' taken where g': "?w = Inr (rest, g', t')" "irq_ok g'" "only_uart0 (irq_table g')"
      "iars = taken @ rest"
      "eois (mmio_trace g') = eois (mmio_trace g) @ filter (\<lambda>iar. iar AND 0x3FF \<noteq> 1023) taken"
      by auto
    let ?ok = "\<forall>i < 3. delta_fine (cntfrq t) (stamp (Suc i) - stamp i)"
    obtain str where
      fold: "fold (check_delta (cntfrq t)) [1, 2, 3] (True, t') = (?ok, t'\<lparr>tt_sys := log_text str (tt_sys t')\<rparr>)"
      using delta_verdict [OF t'(4)] by blast
    let ?t = "tt_puts (if ?ok then ''[TEST] Delta check... PASS'' @ [newline]
      else ''[TEST] Delta check... FAIL'' @ [newline]) (t'\<lparr>tt_sys := log_text str (tt_sys t')\<rparr>)"
    have res: "test_delta iars (g, t) = Inr (if ?ok then 0 else -1, rest, irq_disable g', ?t)"
      using g'(1) fold by (auto simp: eq on_irq_def Let_def)
    obtain str' where "tt_sys ?t = log_text str' (tt_sys t)"
      using t'(2) by (auto simp: t2(1) con_log)
    then show ?thesis
      unfolding res using False t' g'
      by (intro if_not_P [THEN iffD2] exI [of _ taken] exI [of _ rest] exI [of _ str'] exI [of _ "irq_disable g'"]
          exI [of _ ?t]) simp_all
  qed
qed

section \<open>The busy-wait and the IMASK test\<close>

lemma busy_wait_first:
  assumes "n \<le> m" and "dur \<le> cnt m - start" and "\<And>k. n \<le> k \<Longrightarrow> k < m \<Longrightarrow> cnt k - start < dur"
  shows "busy_wait cnt start dur n = Some (Suc m)"
  using assms
proof (induction "m - n" arbitrary: n)
  case 0
  then show ?case by (subst busy_wait.simps) (simp add: linorder_not_less [THEN iffD2])
next
  case (Suc d)
  then have "n < m" by simp
  moreover from this have "cnt n - start < dur" using Suc.prems(3) [of n] by simp
  moreover have "busy_wait cnt start dur (Suc n) = Some (Suc m)"
    using Suc.hyps Suc.prems \<open>n < m\<close> by (intro Suc.hyps(1)) simp_all
  ultimately show ?case by (subst busy_wait.simps) simp
qed

lemma busy_wait_stops:
  assumes "busy_wait cnt start dur n = Some m"
  shows "\<exists>k \<ge> n. m = Suc k \<and> dur \<le> cnt k - start"
proof (rule busy_wait.raw_induct [OF _ assms])
  fix f cnt start and dur :: u64 and n m
  assume IH: "\<And>cnt start dur n m. f cnt start dur n = Some m \<Longrightarrow> \<exists>k \<ge> n. m = Suc k \<and> dur \<le> cnt k - start"
    and eq: "(if cnt n - start < dur then f cnt start dur (Suc n) else Some (Suc n)) = Some m"
  show "\<exists>k \<ge> n. m = Suc k \<and> dur \<le> cnt k - start"
  proof (cases "cnt n - start < dur")
    case True
    with eq IH [of cnt start dur "Suc n" m] show ?thesis by (auto intro: Suc_leD)
  next
    case False
    with eq show ?thesis by (intro exI [of _ n]) simp
  qed
qed

lemma busy_wait_none_iff:
  "busy_wait cnt start dur n = None \<longleftrightarrow> (\<forall>k \<ge> n. cnt k - start < dur)"
proof
  assume none: "busy_wait cnt start dur n = None"
  show "\<forall>k \<ge> n. cnt k - start < dur"
  proof (rule ccontr)
    assume "\<not> ?thesis"
    then have ex: "\<exists>k. n \<le> k \<and> dur \<le> cnt k - start" by (auto simp: linorder_not_less)
    define m where "m = (LEAST k. n \<le> k \<and> dur \<le> cnt k - start)"
    have "n \<le> m \<and> dur \<le> cnt m - start" unfolding m_def by (rule LeastI_ex [OF ex])
    moreover have "cnt k - start < dur" if "n \<le> k" "k < m" for k
      using not_less_Least [of k "\<lambda>k. n \<le> k \<and> dur \<le> cnt k - start"] that by (auto simp: m_def linorder_not_le)
    ultimately have "busy_wait cnt start dur n = Some (Suc m)" by (intro busy_wait_first) auto
    with none show False by simp
  qed
next
  assume "\<forall>k \<ge> n. cnt k - start < dur"
  then show "busy_wait cnt start dur n = None"
    using busy_wait_stops [of cnt start dur n] by (cases "busy_wait cnt start dur n") (auto simp: linorder_not_le [symmetric])
qed

lemma imask_fold:
  assumes "timer_table Imask_Handler tbl"
  shows "fold (serve run_handler tbl) iars t =
    t\<lparr>g_imask_fired := g_imask_fired t + of_nat (length (filter is_timer iars))\<rparr>"
  by (induction iars arbitrary: t) (simp_all add: serve_timer [OF assms] imask_irq_handler_def add.assoc)

lemma test_imask_wait:
  assumes g: "irq_ok g" "only_uart0 (irq_table g)"
  shows "case busy_wait (cntpct t) (cntpct t (cnt_reads t)) (2 * cntfrq t) (Suc (cnt_reads t)) of
      None \<Rightarrow> test_imask iars (g, t) = Inl Halted
    | Some n \<Rightarrow> \<exists>str g' t'. test_imask iars (g, t) =
          Inr (if (of_nat (length (filter is_timer iars)) :: u32) = 0 then 0 else -1, g', t') \<and>
        tt_sys t' = log_text str (tt_sys t) \<and> cntp_ctl t' = cntp_ctl t @ [3, 0] \<and> cnt_reads t' = n \<and>
        cntfrq t' = cntfrq t \<and> cntpct t' = cntpct t \<and> g_delta_timestamps t' = g_delta_timestamps t \<and>
        irqs_masked g' \<and> irq_ok g' \<and> only_uart0 (irq_table g') \<and>
        eois (mmio_trace g') = eois (mmio_trace g) @ filter (\<lambda>iar. iar AND 0x3FF \<noteq> 1023) iars"
proof (cases "busy_wait (cntpct t) (cntpct t (cnt_reads t)) (2 * cntfrq t) (Suc (cnt_reads t))")
  case None
  then show ?thesis by (simp add: test_imask_def Let_def on_tt_def on_irq_def read_cntpct_def)
next
  case (Some n)
  let ?fired = "of_nat (length (filter is_timer iars)) :: u32"
  let ?g = "irq_enable (irq_register_handler IRQ_ID_TIMER Imask_Handler g)"
  define t1 where "t1 = (write_ctl 3 \<circ> write_tval (cntfrq t))
    ((tt_puts ''[TEST] IMASK bit test... '' t)\<lparr>g_imask_fired := 0\<rparr>)"
  define t2 where "t2 = t1\<lparr>cnt_reads := n, g_imask_fired := ?fired\<rparr>"
  note r = register_timer_table [OF g, of Imask_Handler]
  have "irq_ok ?g" "timer_table Imask_Handler (irq_table ?g)" using r by simp_all
  with take_irqs_eq [of ?g run_handler iars "t1\<lparr>cnt_reads := n\<rparr>"] obtain g' where
    g': "take_irqs run_handler iars (?g, t1\<lparr>cnt_reads := n\<rparr>) = Inr (g', t2)" "irq_ok g'"
      "irq_table g' = irq_table ?g"
      "eois (mmio_trace g') = eois (mmio_trace ?g) @ filter (\<lambda>iar. iar AND 0x3FF \<noteq> 1023) iars"
    by (auto simp: imask_fold t2_def t1_def write_ctl_def write_tval_def tt_puts_def)
  define t3 where "t3 = write_ctl 0 t2"
  define t4 where "t4 = (if ?fired = 0 then tt_puts (''PASS (0 fires with IMASK set)'' @ [newline]) t3
    else (tt_puts ('' times despite IMASK)'' @ [newline]) \<circ> tt_putc (digit_char (?fired AND 0xF)) \<circ>
      tt_puts ''FAIL (handler fired '') t3)"
  have fr: "cntfrq t1 = cntfrq t" "cntpct t1 = cntpct t" "cnt_reads t1 = cnt_reads t"
    "g_imask_fired t3 = ?fired"
    by (simp_all add: t1_def t2_def t3_def)
  have upd: "(t1\<lparr>cnt_reads := Suc m\<rparr>)\<lparr>cnt_reads := n\<rparr> = t1\<lparr>cnt_reads := n\<rparr>" for m by simp
  have res: "test_imask iars (g, t) = Inr (if ?fired = 0 then 0 else -1, irq_disable g', t4)"
    using Some g'(1)
    by (simp add: test_imask_def Let_def on_tt_def on_irq_def read_cntpct_def fr t4_def
        flip: t1_def [unfolded comp_def] t3_def)
  have t4: "\<exists>str. tt_sys t4 = log_text str (tt_sys t)"
    by (auto simp: t4_def t3_def t2_def t1_def con_log)
  have t4': "cntp_ctl t4 = cntp_ctl t @ [3, 0]" "cnt_reads t4 = n" "cntfrq t4 = cntfrq t"
    "cntpct t4 = cntpct t" "g_delta_timestamps t4 = g_delta_timestamps t"
    by (simp_all add: t4_def t3_def t2_def t1_def)
  show ?thesis
    unfolding Some res using t4 t4' g' r timer_table_rest [OF r(1)] by auto
qed

section \<open>Properties\<close>

definition sample_gic :: "handler irq" where
  "sample_gic = \<lparr>irq_table = replicate 64 None, mmio_trace = [], irqs_masked = True\<rparr>"

definition sample_tests :: "nat \<Rightarrow> timer_tests" where
  "sample_tests step = \<lparr>tt_sys = \<lparr>sys_lock = 0, sys_mailboxes = [], sys_ring = nearly_full_ring, sys_key = [],
       sys_console = []\<rparr>, u_timerLeft = 0, g_imask_fired = 0, g_delta_count = 0,
     g_delta_timestamps = [0, 0, 0, 0], cntp_ctl = [], cntp_tval = [], cntfrq = 62500000,
     cntpct = (\<lambda>n. of_nat (n * step)), cnt_reads = 0\<rparr>"

lemma sample_gic_ok: "irq_ok sample_gic" "only_uart0 (irq_table sample_gic)"
    "eois (mmio_trace sample_gic) = []"
  by (simp_all add: sample_gic_def irq_ok_def only_uart0_def)

lemma is_timer_30 [simp]: "is_timer 30" by (simp add: is_timer_def IRQ_ID_TIMER_def)

text \<open>
  The countdown test takes six timer interrupts, prints one line for each of the
  digits 5 to 0, and returns with the timer off and interrupts masked; with fewer timer
  interrupts, however many others arrive, it never returns.
\<close>
theorem countdown_result:
  assumes "irq_ok g" "only_uart0 (irq_table g)"
  shows "if length (filter is_timer iars) < 6 then test_countdown iars (g, t) = Inl Halted
    else \<exists>taken rest g' t'. test_countdown iars (g, t) = Inr (0, rest, g', t') \<and> iars = taken @ rest \<and>
      length (filter is_timer taken) = 6 \<and> tt_sys t' = log_text countdown_log (tt_sys t) \<and>
      cntp_ctl t' = cntp_ctl t @ [1, 0] \<and> irqs_masked g'"
  using test_countdown_wait [OF assms, of iars t] by (simp split: if_splits) blast

lemma countdown_result_witness:
  "\<exists>g' t'. test_countdown [30, 30, 30, 30, 30, 30] (sample_gic, sample_tests 1) = Inr (0, [], g', t') \<and>
     sys_console (tt_sys t') = countdown_log \<and> cntp_ctl t' = [1, 0]"
proof -
  let ?iars = "[30, 30, 30, 30, 30, 30] :: u32 list"
  have "\<not> length (filter is_timer ?iars) < 6" by simp
  with countdown_result [OF sample_gic_ok(1,2), of ?iars "sample_tests 1", THEN if_not_P [THEN iffD1, rotated]]
  obtain taken rest g' t' where
    *: "test_countdown ?iars (sample_gic, sample_tests 1) = Inr (0, rest, g', t')" "?iars = taken @ rest"
    "length (filter is_timer taken) = 6" "tt_sys t' = log_text countdown_log (tt_sys (sample_tests 1))"
    "cntp_ctl t' = cntp_ctl (sample_tests 1) @ [1, 0]"
    by blast
  have "length taken + length rest = 6" using arg_cong [OF *(2), of length] by simp
  moreover have "6 \<le> length taken" using length_filter_le [of is_timer taken] *(3) by simp
  ultimately have "length rest = 0" by arith
  then have "rest = []" by simp
  with * show ?thesis by (auto simp: sample_tests_def)
qed

text \<open>
  The verdict of the delta test.  It needs four timer interrupts and reports success
  exactly when each of the three differences of consecutive counter reads is within the
  tolerance; the counter may wrap between two reads.
\<close>
theorem delta_result:
  assumes "irq_ok g" "only_uart0 (irq_table g)" and "length (g_delta_timestamps t) = 4"
  shows "if length (filter is_timer iars) < 4 then test_delta iars (g, t) = Inl Halted
    else \<exists>rest g' t'. test_delta iars (g, t) =
        Inr (if \<forall>i < 3. delta_fine (cntfrq t) (cntpct t (cnt_reads t + Suc i) - cntpct t (cnt_reads t + i))
             then 0 else -1, rest, g', t') \<and> irqs_masked g' \<and>
      g_delta_timestamps t' = map (\<lambda>i. cntpct t (cnt_reads t + i)) [0..<4]"
proof (cases "length (filter is_timer iars) < 4")
  case True
  with test_delta_wait [OF assms, of iars] show ?thesis by simp
next
  case False
  with test_delta_wait [OF assms, of iars] show ?thesis by (simp only: if_False add_Suc_right) blast
qed

lemma delta_result_witness:
  "(\<exists>s'. test_delta [30, 30, 30, 30] (sample_gic, sample_tests 60000000) = Inr (0, s')) \<and>
   (\<exists>s'. test_delta [30, 30, 30, 30] (sample_gic, sample_tests 1000) = Inr (-1, s')) \<and>
   test_delta [30, 30, 30] (sample_gic, sample_tests 1000) = Inl Halted"
proof -
  note r = delta_result [OF sample_gic_ok(1,2)]
  have len: "length (g_delta_timestamps (sample_tests n)) = 4" for n by (simp add: sample_tests_def)
  have c: "cntfrq (sample_tests n) = 62500000" "cntpct (sample_tests n) k = of_nat (k * n)"
    "cnt_reads (sample_tests n) = 0" for n k
    by (simp_all add: sample_tests_def)
  have lim: "delta_fine 62500000 d \<longleftrightarrow> 56250000 \<le> d \<and> d \<le> 68750000" for d
    by (simp add: delta_fine_def delta_min_def delta_max_def TOLERANCE_PERCENT_def)
  have "\<forall>i < 3. delta_fine 62500000 (of_nat (Suc i * 60000000) - of_nat (i * 60000000))"
    unfolding all_less_three by (simp add: lim)
  with r [OF len, of "[30, 30, 30, 30]" "60000000"] have
    "\<exists>s'. test_delta [30, 30, 30, 30] (sample_gic, sample_tests 60000000) = Inr (0, s')" by (auto simp: c)
  moreover have "\<not> (\<forall>i < 3. delta_fine 62500000 (of_nat (Suc i * 1000) - of_nat (i * 1000)))"
    unfolding all_less_three by (simp add: lim)
  with r [OF len, of "[30, 30, 30, 30]" "1000"] have
    "\<exists>s'. test_delta [30, 30, 30, 30] (sample_gic, sample_tests 1000) = Inr (-1, s')"
    by (auto simp del: of_nat_Suc of_nat_mult mult_Suc simp: c)
  moreover have "test_delta [30, 30, 30] (sample_gic, sample_tests 1000) = Inl Halted"
    using r [OF len, of "[30, 30, 30]" "1000"] by simp
  ultimately show ?thesis by blast
qed

text \<open>
  The busy-wait of the IMASK test lasts \<open>dur\<close> ticks whatever the counter reads at its
  start, also when the 64-bit counter wraps meanwhile: it ends with the first read at which
  \<open>dur\<close> ticks have passed, and never ends if there is none.
\<close>
theorem busy_wait_ticks:
  assumes cnt: "\<And>k. cnt k = start + of_nat (ticks k)" and "\<And>k. ticks k < 2 ^ 64"
  shows "busy_wait cnt start dur n = (if \<exists>k \<ge> n. unat dur \<le> ticks k
    then Some (Suc (LEAST k. n \<le> k \<and> unat dur \<le> ticks k)) else None)"
proof -
  have "unat (of_nat (ticks k) :: u64) = ticks k" for k using assms(2) [of k] by (simp add: unat_of_nat)
  then have iff: "cnt k - start < dur \<longleftrightarrow> ticks k < unat dur" for k by (simp add: cnt word_less_nat_alt)
  show ?thesis
  proof (cases "\<exists>k \<ge> n. unat dur \<le> ticks k")
    case True
    define m where "m = (LEAST k. n \<le> k \<and> unat dur \<le> ticks k)"
    have "n \<le> m \<and> unat dur \<le> ticks m" unfolding m_def by (rule LeastI_ex [OF True])
    moreover have "ticks k < unat dur" if "n \<le> k" "k < m" for k
      using not_less_Least [of k "\<lambda>k. n \<le> k \<and> unat dur \<le> ticks k"] that
      by (simp add: m_def linorder_not_le)
    ultimately have "busy_wait cnt start dur n = Some (Suc m)"
      by (intro busy_wait_first) (simp_all add: iff flip: linorder_not_less)
    with True show ?thesis by (simp add: m_def)
  next
    case False
    have "cnt k - start < dur" if "n \<le> k" for k
      using False that linorder_not_less by (force simp: iff)
    then have "busy_wait cnt start dur n = None" by (simp add: busy_wait_none_iff)
    with False show ?thesis by (simp only: if_False)
  qed
qed

lemma busy_wait_ticks_witness:
  "busy_wait (\<lambda>k. 0xFFFFFFFFFFFFFFF0 + of_nat (min k 1000 * 10)) 0xFFFFFFFFFFFFFFF0 100 1 = Some 11"
proof -
  have "(LEAST k. 1 \<le> k \<and> 100 \<le> min k 1000 * 10) = (10::nat)" by (rule Least_equality) auto
  moreover have "\<exists>k \<ge> 1. 100 \<le> min k 1000 * (10::nat)" by (intro exI [of _ 10]) simp
  ultimately show ?thesis
    using busy_wait_ticks [of "\<lambda>k. 0xFFFFFFFFFFFFFFF0 + of_nat (min k 1000 * 10)" "0xFFFFFFFFFFFFFFF0"
        "\<lambda>k. min k 1000 * 10" 100 1] by simp
qed

lemma register_uart0:
  assumes "irq_ok g" and "only_uart0 (irq_table g)"
  shows "irq_ok (irq_register_handler IRQ_ID_UART0 Uart0_Handler (irq_init g))"
    and "only_uart0 (irq_table (irq_register_handler IRQ_ID_UART0 Uart0_Handler (irq_init g)))"
    and "eois (mmio_trace (irq_register_handler IRQ_ID_UART0 Uart0_Handler (irq_init g))) = eois (mmio_trace g)"
proof -
  note eois_init
  with assms show "irq_ok (irq_register_handler IRQ_ID_UART0 Uart0_Handler (irq_init g))"
    and "only_uart0 (irq_table (irq_register_handler IRQ_ID_UART0 Uart0_Handler (irq_init g)))"
    and "eois (mmio_trace (irq_register_handler IRQ_ID_UART0 Uart0_Handler (irq_init g))) = eois (mmio_trace g)"
    by (auto simp: irq_register_handler_def IRQ_MAX_HANDLERS_def IRQ_ID_UART0_def only_uart0_def irq_ok_def
        irq_init_def nth_list_update gic_defs)
qed

text \<open>The two tests that wait for interrupts, one after the other, take ten of the timer.\<close>

lemma countdown_then_delta:
  fixes iars :: "u32 list"
  assumes g: "irq_ok g" "only_uart0 (irq_table g)" and len: "length (g_delta_timestamps t) = 4"
  defines "run \<equiv> bind_exec (test_countdown iars (g, t)) (\<lambda>(_, iars, s). test_delta iars s)"
  shows "if length (filter is_timer iars) < 10 then run = Inl Halted
    else \<exists>r taken rest str g' t'. run = Inr (r, rest, g', t') \<and> iars = taken @ rest \<and>
      length (filter is_timer taken) = 10 \<and> irqs_masked g' \<and> cntp_ctl t' = cntp_ctl t @ [1, 0, 1, 0] \<and>
      tt_sys t' = log_text str (tt_sys t) \<and>
      eois (mmio_trace g') = eois (mmio_trace g) @ filter (\<lambda>iar. iar AND 0x3FF \<noteq> 1023) taken"
proof (cases "length (filter is_timer iars) < 6")
  case True
  with test_countdown_wait [OF g, of iars t] show ?thesis by (simp add: run_def)
next
  case False
  with test_countdown_wait [OF g, of iars t] obtain taken2 rest2 g2 t2 where
    2: "test_countdown iars (g, t) = Inr (0, rest2, g2, t2)" "iars = taken2 @ rest2"
    "length (filter is_timer taken2) = 6" "tt_sys t2 = log_text countdown_log (tt_sys t)"
    "cntp_ctl t2 = cntp_ctl t @ [1, 0]" "irq_ok g2" "only_uart0 (irq_table g2)" "length (g_delta_timestamps t2) = 4"
    "eois (mmio_trace g2) = eois (mmio_trace g) @ filter (\<lambda>iar. iar AND 0x3FF \<noteq> 1023) taken2"
    unfolding len [symmetric] by (simp only: if_False) metis
  have run: "run = test_delta rest2 (g2, t2)" by (simp add: run_def 2(1))
  have few: "length (filter is_timer iars) < 10 \<longleftrightarrow> length (filter is_timer rest2) < 4" using 2(2,3) by auto
  note dl = test_delta_wait [OF 2(6-8), of rest2]
  show ?thesis
  proof (cases "length (filter is_timer rest2) < 4")
    case True
    with dl show ?thesis by (simp add: run few)
  next
    case False
    with dl obtain r taken3 rest3 str g3 t3 where 3: "run = Inr (r, rest3, g3, t3)"
      "rest2 = taken3 @ rest3" "length (filter is_timer taken3) = 4" "tt_sys t3 = log_text str (tt_sys t2)"
      "cntp_ctl t3 = cntp_ctl t2 @ [1, 0]" "irqs_masked g3"
      "eois (mmio_trace g3) = eois (mmio_trace g2) @ filter (\<lambda>iar. iar AND 0x3FF \<noteq> 1023) taken3"
      unfolding run by (simp only: if_False) blast
    have "iars = (taken2 @ taken3) @ rest3 \<and> length (filter is_timer (taken2 @ taken3)) = 10 \<and>
        tt_sys t3 = log_text (countdown_log @ str) (tt_sys t) \<and> cntp_ctl t3 = cntp_ctl t @ [1, 0, 1, 0] \<and>
        eois (mmio_trace g3) = eois (mmio_trace g) @ filter (\<lambda>iar. iar AND 0x3FF \<noteq> 1023) (taken2 @ taken3)"
      using 2(2-5,9) 3(2-5,7) by simp
    then show ?thesis using False few 3(1,6) by (simp only: if_False) blast
  qed
qed

lemma interrupt_tests_run:
  assumes "irq_ok g" "only_uart0 (irq_table g)" and "length (g_delta_timestamps t) = 4"
  shows "if cntfrq t \<noteq> QEMU_VIRT_FREQ \<or>
      (\<forall>k > cnt_reads t. cntpct t k - cntpct t (cnt_reads t) < 2 * QEMU_VIRT_FREQ) \<or>
      length (filter is_timer iars) < 10
    then interrupt_tests_init quiet iars (g, t) = Inl Halted
    else \<exists>taken rest str g' t'. interrupt_tests_init quiet iars (g, t) = Inr (rest, g', t') \<and>
      iars = taken @ rest \<and> length (filter is_timer taken) = 10 \<and> irqs_masked g' \<and>
      cntp_ctl t' = cntp_ctl t @ [3, 0, 1, 0, 1, 0] \<and> tt_sys t' = log_text str (tt_sys t) \<and>
      eois (mmio_trace g') = eois (mmio_trace g) @ filter (\<lambda>iar. iar AND 0x3FF \<noteq> 1023) (quiet @ taken)"
proof -
  let ?g = "irq_register_handler IRQ_ID_UART0 Uart0_Handler (irq_init g)"
  let ?t = "tt_puts (''PASS (62.5 MHz)'' @ [newline]) (tt_puts ''[TEST] Frequency sanity check... '' t)"
  let ?bw = "busy_wait (cntpct ?t) (cntpct ?t (cnt_reads ?t)) (2 * cntfrq ?t) (Suc (cnt_reads ?t))"
  have init: "interrupt_tests_init quiet iars (g, t) = bind_exec (test_imask quiet (?g, ?t)) (\<lambda>(_, s).
      bind_exec (test_countdown iars s) (\<lambda>(_, iars, s). bind_exec (test_delta iars s) (\<lambda>(_, iars, s).
        Inr (iars, on_tt (tt_puts (''[IRQ] All timer tests complete. Continuing...'' @ [newline])) s))))"
    if "cntfrq t = QEMU_VIRT_FREQ"
    using that by (simp add: interrupt_tests_init_def test_freq_sanity_def on_irq_def on_tt_def)
  note u = register_uart0 [OF assms(1,2)]
  note im = test_imask_wait [OF u(1,2), of quiet ?t]
  have never: "?bw = None \<longleftrightarrow> (\<forall>k > cnt_reads t. cntpct t k - cntpct t (cnt_reads t) < 2 * QEMU_VIRT_FREQ)"
    if "cntfrq t = QEMU_VIRT_FREQ"
    using that by (simp add: busy_wait_none_iff Suc_le_eq)
  consider "cntfrq t \<noteq> QEMU_VIRT_FREQ" | "cntfrq t = QEMU_VIRT_FREQ" "?bw = None"
    | n where "cntfrq t = QEMU_VIRT_FREQ" "?bw = Some n" by blast
  then show ?thesis
  proof cases
    case 1
    then show ?thesis by (simp add: interrupt_tests_init_def test_freq_sanity_def on_irq_def on_tt_def)
  next
    case 2
    with im init never show ?thesis by simp
  next
    case 3
    with im obtain str1 r1 g1 t1 where 1: "test_imask quiet (?g, ?t) = Inr (r1, g1, t1)"
      "tt_sys t1 = log_text str1 (tt_sys t)" "cntp_ctl t1 = cntp_ctl t @ [3, 0]" "cntfrq t1 = cntfrq t"
      "cntpct t1 = cntpct t" "g_delta_timestamps t1 = g_delta_timestamps t" "irq_ok g1" "only_uart0 (irq_table g1)"
      "eois (mmio_trace g1) = eois (mmio_trace g) @ filter (\<lambda>iar. iar AND 0x3FF \<noteq> 1023) quiet"
      by (auto simp: con_log u(3))
    let ?run = "bind_exec (test_countdown iars (g1, t1)) (\<lambda>(_, iars, s). test_delta iars s)"
    let ?tell = "tt_puts (''[IRQ] All timer tests complete. Continuing...'' @ [newline])"
    have eq: "interrupt_tests_init quiet iars (g, t) = bind_exec ?run (\<lambda>(_, iars, s). Inr (iars, on_tt ?tell s))"
      using 1(1) init [OF 3(1)] by (simp add: bind_exec_assoc split_def)
    have "length (g_delta_timestamps t1) = 4" using 1(6) assms(3) by simp
    note run = countdown_then_delta [OF 1(7,8) this, of iars]
    show ?thesis
    proof (cases "length (filter is_timer iars) < 10")
      case True
      with run eq show ?thesis by simp
    next
      case False
      with run obtain r taken rest str g' t' where run: "?run = Inr (r, rest, g', t')" "iars = taken @ rest"
        "length (filter is_timer taken) = 10" "irqs_masked g'" "cntp_ctl t' = cntp_ctl t1 @ [1, 0, 1, 0]"
        "tt_sys t' = log_text str (tt_sys t1)"
        "eois (mmio_trace g') = eois (mmio_trace g1) @ filter (\<lambda>iar. iar AND 0x3FF \<noteq> 1023) taken"
        by (simp only: if_False) blast
      obtain str' where "tt_sys (?tell t') = log_text str' (tt_sys t)"
        using 1(2) run(6) by (auto simp: con_log)
      moreover have "interrupt_tests_init quiet iars (g, t) = Inr (rest, g', ?tell t')"
        using run(1) by (simp add: eq on_tt_def)
      moreover have "cntp_ctl (?tell t') = cntp_ctl t @ [3, 0, 1, 0, 1, 0]" "eois (mmio_trace g') =
          eois (mmio_trace g) @ filter (\<lambda>iar. iar AND 0x3FF \<noteq> 1023) (quiet @ taken)"
        using 1(3,9) run(5,7) by simp_all
      moreover have "\<not> (cntfrq t \<noteq> QEMU_VIRT_FREQ \<or>
          (\<forall>k > cnt_reads t. cntpct t k - cntpct t (cnt_reads t) < 2 * QEMU_VIRT_FREQ) \<or>
          length (filter is_timer iars) < 10)"
        using False never [OF 3(1)] 3 by simp
      ultimately show ?thesis using run(2-4) by (simp only: if_False) blast
    qed
  qed
qed

text \<open>
  Property C24: the whole run of the timer tests.  It parks the core for ever when the counter
  frequency is wrong, the counter never advances by two seconds, or fewer than ten timer
  interrupts arrive after the IMASK test; otherwise it returns, having taken exactly ten timer
  interrupts, with the timer off, interrupts masked, every acknowledged interrupt ended in order,
  and nothing of the shared system changed but the console.
\<close>
theorem interrupt_tests_result:
  assumes "irq_ok g" "only_uart0 (irq_table g)" and "length (g_delta_timestamps t) = 4"
  shows "if cntfrq t \<noteq> QEMU_VIRT_FREQ \<or>
      (\<forall>k > cnt_reads t. cntpct t k - cntpct t (cnt_reads t) < 2 * QEMU_VIRT_FREQ) \<or>
      length (filter is_timer iars) < 10
    then interrupt_tests_init quiet iars (g, t) = Inl Halted
    else \<exists>taken rest str g' t'. interrupt_tests_init quiet iars (g, t) = Inr (rest, g', t') \<and>
      iars = taken @ rest \<and> length (filter is_timer taken) = 10 \<and> irqs_masked g' \<and>
      cntp_ctl t' = cntp_ctl t @ [3, 0, 1, 0, 1, 0] \<and> tt_sys t' = log_text str (tt_sys t) \<and>
      eois (mmio_trace g') = eois (mmio_trace g) @ filter (\<lambda>iar. iar AND 0x3FF \<noteq> 1023) (quiet @ taken)"
  by (rule interrupt_tests_run [OF assms])

lemma interrupt_tests_result_witness:
  "\<exists>rest g' t'. interrupt_tests_init [] (replicate 12 30) (sample_gic, sample_tests 62500000) = Inr (rest, g', t') \<and>
     irqs_masked g' \<and> cntp_ctl t' = [3, 0, 1, 0, 1, 0]"
proof -
  let ?t = "sample_tests 62500000"
  have "length (g_delta_timestamps ?t) = 4" by (simp add: sample_tests_def)
  note r = interrupt_tests_result [OF sample_gic_ok(1,2) this, of "replicate 12 30" "[]"]
  have "cntfrq ?t = QEMU_VIRT_FREQ" "cnt_reads ?t = 0"
    "\<not> cntpct ?t 2 - cntpct ?t 0 < 2 * QEMU_VIRT_FREQ"
    "\<not> length (filter is_timer (replicate 12 30)) < 10"
    by (simp_all add: sample_tests_def QEMU_VIRT_FREQ_def)
  moreover from this(2,3) have
    "\<not> (\<forall>k > cnt_reads ?t. cntpct ?t k - cntpct ?t (cnt_reads ?t) < 2 * QEMU_VIRT_FREQ)"
    by (metis zero_less_numeral)
  moreover have "cntp_ctl ?t = []" by (simp add: sample_tests_def)
  ultimately show ?thesis using r by (simp only: simp_thms if_False append_Nil) blast
qed

end
