(* ===== verification/Boot_Main.thy ===== *)
theory Boot_Main
  imports Trivial_Tests Context_Switch Timer_Tests
begin

text \<open>
  \<^verbatim>\<open>src/main.c\<close>: what core 0 does from \<^verbatim>\<open>main\<close> to the first task, and what cores 1 to 3 do from
  \<^verbatim>\<open>secondary_main\<close>.  The firmware call \<^verbatim>\<open>hvc\<close> behind \<^verbatim>\<open>psci_cpu_on\<close>, the addresses the linker
  gives the task functions and the delays are parameters.
\<close>

section \<open>Core 0\<close>

definition secret_key :: "u8 list" where
  "secret_key =
     [0x2B, 0x7E, 0x15, 0x16, 0x28, 0xAE, 0xD2, 0xA6,
      0xAB, 0xF7, 0x15, 0x88, 0x09, 0xCF, 0x4F, 0x3C,
      0x76, 0x2E, 0x45, 0x18, 0x5A, 0x31, 0xC7, 0xD9,
      0x11, 0xF2, 0x83, 0x6A, 0xBC, 0x44, 0x07, 0x9E]"

definition PSCI_CPU_ON :: u64 where "PSCI_CPU_ON = 0xC4000003"

text \<open>\<open>hvc\<close> gives the value left in x0 for the values of x0 to x3.\<close>

definition psci_cpu_on :: "(u64 \<Rightarrow> u64 \<Rightarrow> u64 \<Rightarrow> u64 \<Rightarrow> u64) \<Rightarrow> u64 \<Rightarrow> u64 \<Rightarrow> u64" where
  "psci_cpu_on hvc cpu entry = hvc PSCI_CPU_ON cpu entry 0"

definition read_current_el :: "u64 \<Rightarrow> u64" where
  "read_current_el el = drop_bit 2 el AND 0x3"

primrec start_cores :: "(u64 \<Rightarrow> u64 \<Rightarrow> u64 \<Rightarrow> u64 \<Rightarrow> u64) \<Rightarrow> u64 \<Rightarrow> pause \<Rightarrow> nat list \<Rightarrow> system \<Rightarrow> system exec" where
  "start_cores hvc entry delay [] s = Inr s"
| "start_cores hvc entry delay (cpu # cpus) s =
     (let ret = psci_cpu_on hvc (of_nat cpu) entry in
      bind_exec (locked (\<lambda>s. con_puts [newline] (con_puthex ret (con_puts '' PSCI: ''
        (con_putc (digit_char (of_nat cpu)) (con_puts ''[Core 0] Core '' s))))) s) (\<lambda>s.
      bind_exec (delay 3000000 s) (start_cores hvc entry delay cpus)))"

text \<open>\<^verbatim>\<open>main\<close> up to the interrupt tests, on QEMU, where \<^verbatim>\<open>uart_init\<close> writes nothing.\<close>

definition main_boot :: "(u64 \<Rightarrow> u64 \<Rightarrow> u64 \<Rightarrow> u64 \<Rightarrow> u64) \<Rightarrow> u64 \<Rightarrow> pause \<Rightarrow> system \<Rightarrow> system exec" where
  "main_boot hvc start delay s =
     (let s = s\<lparr>sys_lock := spinlock_init (sys_lock s)\<rparr>;
          s = s\<lparr>sys_ring := ring_buffer_init (sys_ring s)\<rparr>
      in bind_exec (hmac_key_init secret_key (sys_key s)) (\<lambda>key.
      let s = con_puts (''[CRYPTO] HMAC key loaded'' @ [newline]) (s\<lparr>sys_key := key\<rparr>) in
      bind_exec (locked (\<lambda>s. con_puts (''[Core 0] Initializing mailboxes...'' @ [newline])
        (con_puts ([newline] @ ''=== Multi-Core Boot Test ==='' @ [newline]) s)) s) (\<lambda>s.
      bind_exec (init_mailboxes [0, 1, 2, 3] s) (\<lambda>s.
      bind_exec (locked (con_puts (''[Core 0] Starting secondary cores...'' @ [newline, newline])) s) (\<lambda>s.
      bind_exec (start_cores hvc start delay [1, 2, 3] s) (delay 10000000))))))"

record machine =
  m_kernel :: kernel
  m_irq :: "handler irq"
  m_timer :: timer_tests    \<comment> \<open>its copy of the shared state is set before it is used\<close>

definition on_shared :: "(system \<Rightarrow> system exec) \<Rightarrow> machine \<Rightarrow> machine exec" where
  "on_shared f m = bind_exec (f (k_sys (m_kernel m)))
     (\<lambda>s. Inr (m\<lparr>m_kernel := (m_kernel m)\<lparr>k_sys := s\<rparr>\<rparr>))"

definition on_kernel :: "(kernel \<Rightarrow> kernel exec) \<Rightarrow> machine \<Rightarrow> machine exec" where
  "on_kernel f m = bind_exec (f (m_kernel m)) (\<lambda>k. Inr (m\<lparr>m_kernel := k\<rparr>))"

definition main_interrupt_tests :: "u32 list \<Rightarrow> u32 list \<Rightarrow> machine \<Rightarrow> machine exec" where
  "main_interrupt_tests quiet iars m =
     bind_exec (interrupt_tests_init quiet iars (m_irq m, (m_timer m)\<lparr>tt_sys := k_sys (m_kernel m)\<rparr>)) (\<lambda>(_, g, t).
       Inr (m\<lparr>m_irq := g, m_timer := t, m_kernel := (m_kernel m)\<lparr>k_sys := tt_sys t\<rparr>\<rparr>))"

definition uart_job :: "(task \<Rightarrow> u64) \<Rightarrow> job" where
  "uart_job entry = \<lparr>job_id = UART_RX_TASK, job_core_id = 0, job_task_name = ''uart_rx'',
     job_entry = entry Uart_Rx\<rparr>"

definition consumer_job :: "(task \<Rightarrow> u64) \<Rightarrow> job" where
  "consumer_job entry = \<lparr>job_id = RING_COSUMER_TASK, job_core_id = 0, job_task_name = ''ring_consumer'',
     job_entry = entry Ring_Consumer\<rparr>"

definition mailbox_job :: "(task \<Rightarrow> u64) \<Rightarrow> job" where
  "mailbox_job entry = \<lparr>job_id = MAILBOX_DISP_TASK, job_core_id = 3, job_task_name = ''mailbox_dis'',
     job_entry = entry Mailbox_Disp\<rparr>"

text \<open>\<open>out\<close> are the uninitialised local variables of test 2; the result is the state of the first task.\<close>

definition main :: "u64 \<Rightarrow> (u64 \<Rightarrow> u64 \<Rightarrow> u64 \<Rightarrow> u64 \<Rightarrow> u64) \<Rightarrow> u64 \<Rightarrow> (task \<Rightarrow> u64) \<Rightarrow> pause \<Rightarrow>
    u32 list \<Rightarrow> u32 list \<Rightarrow> message_out \<Rightarrow> machine \<Rightarrow> machine exec" where
  "main mpidr hvc start entry delay quiet iars out m =
     bind_exec (on_shared (main_boot hvc start delay) m) (\<lambda>m.
     bind_exec (on_shared (locked (con_puts ([newline] @ ''[Core 0] === Starting Interrupt Test ==='' @
       [newline, newline]))) m) (\<lambda>m.
     bind_exec (main_interrupt_tests quiet iars m) (\<lambda>m.
     bind_exec (on_shared (locked (con_puts ([newline] @ ''[Core 0] === Starting Communication Test ==='' @
       [newline, newline]))) m) (\<lambda>m.
     bind_exec (on_shared (run_all_tests mpidr delay out) m) (\<lambda>m.
     bind_exec (on_kernel (sched_add_task mpidr (uart_job entry)) m) (\<lambda>m.
     bind_exec (on_kernel (sched_add_task mpidr (consumer_job entry)) m)
       (on_kernel (sched_run mpidr))))))))"

section \<open>Cores 1 to 3\<close>

text \<open>
  Where a secondary core is in \<^verbatim>\<open>secondary_main\<close>; \<open>Asleep\<close> is an endless \<^verbatim>\<open>wfe\<close> loop, and \<open>Waiting\<close> the
  \<^verbatim>\<open>wfe\<close> of the consumer's loop.
\<close>

datatype secondary = Announce | Producer_Start | Producing u8 | Consumer_Start | Consuming int u8 | Waiting int u8
  | Mailbox_Start | Asleep | Returned

text \<open>
  The event registers of the cores.  \<^verbatim>\<open>sev\<close> sets all of them, that of the core itself too; \<^verbatim>\<open>wfe\<close>
  clears the core's own if it is set, and sleeps until it is set if not.
\<close>

type_synonym events = "nat \<Rightarrow> bool"

definition sev :: "events \<Rightarrow> events" where
  "sev ev = (\<lambda>_. True)"

definition wfe_done :: "nat \<Rightarrow> events \<Rightarrow> events" where
  "wfe_done c ev = ev(c := False)"

text \<open>\<open>sp\<close> and \<open>el\<close> are the stack pointer and the exception-level register of the core.\<close>

definition announce :: "u64 \<Rightarrow> u64 \<Rightarrow> u64 \<Rightarrow> system \<Rightarrow> system exec" where
  "announce cpu sp el = locked (\<lambda>s.
     let s = con_puts ''] Online! SP: '' (con_putc (digit_char (ucast cpu)) (con_puts ''[Core '' s));
         s = con_putc (digit_char (ucast (read_current_el el))) (con_puts '' EL: '' (con_puthex sp s))
     in con_puts [newline] s)"

text \<open>\<^verbatim>\<open>spinlock_release\<close> ends with a \<^verbatim>\<open>sev\<close>, so every locked section does; \<^verbatim>\<open>ring_buffer_put\<close> has none.\<close>

definition secondary_step :: "u64 \<Rightarrow> u64 \<Rightarrow> u64 \<Rightarrow> events \<times> secondary \<times> system \<Rightarrow> (events \<times> secondary \<times> system) exec" where
  "secondary_step mpidr sp el = (\<lambda>(ev, pc, s). let cpu = get_cpu_id mpidr in case pc of
     Announce \<Rightarrow> bind_exec (announce cpu sp el s) (\<lambda>s.
       Inr (sev ev, if cpu = 1 then Producer_Start else if cpu = 2 then Consumer_Start
            else if cpu = 3 then Mailbox_Start else Returned, s))
   | Producer_Start \<Rightarrow>
       bind_exec (locked (con_puts (''[Core 1] Ring buffer test: pushing A-J...'' @ [newline])) s) (\<lambda>s.
         Inr (sev ev, Producing 0x41, s))
   | Producing c \<Rightarrow>
       if c \<le> 0x4A then bind_exec (ring_buffer_put (sys_ring s) c) (\<lambda>(r, rb). Inr (ev, Producing (c + 1), s\<lparr>sys_ring := rb\<rparr>))
       else Inr (ev, Asleep, s)
   | Consumer_Start \<Rightarrow>
       bind_exec (locked (con_puts (''[Core 2] Ring buffer test: waiting for data...'' @ [newline])) s) (\<lambda>s.
         Inr (sev ev, Consuming 0 0, s))
   | Consuming received byte \<Rightarrow>
       if received < 10 then
         bind_exec (ring_buffer_get (sys_ring s) byte) (\<lambda>(r, byte, rb).
           let s = s\<lparr>sys_ring := rb\<rparr> in
           if r = 0 then
             bind_exec (locked (\<lambda>s. con_puts [newline] (con_putc (char_of (unat byte))
               (con_puts ''[Core 2] Got: '' s))) s) (\<lambda>s. Inr (sev ev, Consuming (received + 1) byte, s))
           else Inr (ev, Waiting received byte, s))
       else bind_exec (locked (con_puts (''[Core 2] Ring buffer test COMPLETE'' @ [newline])) s) (\<lambda>s. Inr (sev ev, Asleep, s))
   | Waiting received byte \<Rightarrow>
       if ev (unat cpu) then Inr (wfe_done (unat cpu) ev, Consuming received byte, s) else Inr (ev, pc, s)
   | Asleep \<Rightarrow> Inr (wfe_done (unat cpu) ev, pc, s)
   | _ \<Rightarrow> Inr (ev, pc, s))"

text \<open>Core 3 registers its task and enters it.\<close>

definition core3_main :: "u64 \<Rightarrow> (task \<Rightarrow> u64) \<Rightarrow> kernel \<Rightarrow> kernel exec" where
  "core3_main mpidr entry k =
     bind_exec (sched_add_task mpidr (mailbox_job entry) k) (sched_run mpidr)"

text \<open>
  Cores 1 and 2 interleaved, and the events that cores 0 and 3 send: every \<^verbatim>\<open>spinlock_release\<close>,
  \<^verbatim>\<open>mailbox_send\<close> and \<^verbatim>\<open>uart_rx_task\<close> does.
\<close>

datatype turn = Core_1 | Core_2 | Event

fun ring_test :: "turn list \<Rightarrow> events \<times> secondary \<times> secondary \<times> system \<Rightarrow>
    (events \<times> secondary \<times> secondary \<times> system) exec" where
  "ring_test [] x = Inr x"
| "ring_test (Core_1 # ts) (ev, p, c, s) =
     bind_exec (secondary_step 1 0 0 (ev, p, s)) (\<lambda>(ev, p, s). ring_test ts (ev, p, c, s))"
| "ring_test (Core_2 # ts) (ev, p, c, s) =
     bind_exec (secondary_step 2 0 0 (ev, c, s)) (\<lambda>(ev, c, s). ring_test ts (ev, p, c, s))"
| "ring_test (Event # ts) (ev, p, c, s) = ring_test ts (sev ev, p, c, s)"

section \<open>The ring buffer test\<close>

definition letters :: "u8 list" where
  "letters = [0x41, 0x42, 0x43, 0x44, 0x45, 0x46, 0x47, 0x48, 0x49, 0x4A]"

definition got_line :: "u8 \<Rightarrow> string" where
  "got_line b = puts_text ''[Core 2] Got: '' @ [char_of (unat b)] @ puts_text [newline]"

definition complete_line :: string where
  "complete_line = puts_text (''[Core 2] Ring buffer test COMPLETE'' @ [newline])"

text \<open>
  The abstract test: how many letters core 1 has pushed, how many locked sections core 2 has had
  (the eleventh is the farewell), whether it is in its \<^verbatim>\<open>wfe\<close>, and its event register.
\<close>

fun ring_progress :: "turn list \<Rightarrow> nat \<times> nat \<times> bool \<times> bool \<Rightarrow> nat \<times> nat \<times> bool \<times> bool" where
  "ring_progress [] x = x"
| "ring_progress (Core_1 # ts) (p, q, w, e) = ring_progress ts (min 10 (Suc p), q, w, e)"
| "ring_progress (Core_2 # ts) (p, q, w, e) = ring_progress ts
     (if q = 11 then (p, q, w, False) else if w then (p, q, \<not> e, False)
      else if q < p \<or> q = 10 then (p, Suc q, False, True) else (p, q, True, e))"
| "ring_progress (Event # ts) (p, q, w, e) = ring_progress ts (p, q, w, True)"

fun ring_test_state :: "string \<Rightarrow> nat \<times> nat \<times> bool \<times> bool \<Rightarrow> events \<times> secondary \<times> secondary \<times> system \<Rightarrow> bool" where
  "ring_test_state base (p, q, w, e) (ev, pc1, pc2, s) \<longleftrightarrow> p \<le> 10 \<and> min q 10 \<le> p \<and> q \<le> 11 \<and> (w \<longrightarrow> q < 10) \<and> e = ev 2 \<and>
     (pc1 = Producing (0x41 + of_nat p) \<or> p = 10 \<and> pc1 = Asleep) \<and>
     (if q = 11 then pc2 = Asleep else \<exists>b. pc2 = (if w then Waiting (int q) b else Consuming (int q) b)) \<and>
     rb_ok (sys_ring s) \<and> rb_list (sys_ring s) = drop q (take p letters) \<and> sys_lock s = 0 \<and>
     sys_console s = base @ concat (map got_line (take q letters)) @ (if q = 11 then complete_line else [])"

lemma letters_nth: "p < 10 \<Longrightarrow> letters ! p = 0x41 + of_nat p"
  by (auto simp: letters_def less_Suc_eq eval_nat_numeral)

lemma length_letters [simp]: "length letters = 10"
  by (simp add: letters_def)

lemma last_letter: "p \<le> 10 \<Longrightarrow> (0x41 + of_nat p :: u8) \<le> 0x4A \<longleftrightarrow> p < 10"
  by (auto simp: word_le_nat_alt unat_word_ariths unat_of_nat)

lemma producer_step:
  assumes "ring_test_state base (p, q, w, e) (ev, pc1, pc2, s)"
  shows "\<exists>ev' pc1' s'. secondary_step 1 0 0 (ev, pc1, s) = Inr (ev', pc1', s') \<and>
    ring_test_state base (min 10 (Suc p), q, w, e) (ev', pc1', pc2, s')"
proof (cases "p < 10")
  case True
  have ok: "rb_ok (sys_ring s)" "rb_list (sys_ring s) = drop q (take p letters)"
    and pc: "pc1 = Producing (0x41 + of_nat p)" and q: "min q 10 \<le> p"
    using assms True by auto
  have "length (rb_list (sys_ring s)) < 255" using True by (simp add: ok(2))
  then obtain rb where rb: "ring_buffer_put (sys_ring s) (0x41 + of_nat p) = Inr (0, rb)" "rb_ok rb"
    "rb_list rb = rb_list (sys_ring s) @ [0x41 + of_nat p]"
    using ring.put_room [OF ok(1)] by blast
  have "q \<le> p" using q True by simp
  then have "rb_list rb = drop q (take (Suc p) letters)"
    using True by (simp add: rb(3) ok(2) take_Suc_conv_app_nth letters_nth)
  moreover have "secondary_step 1 0 0 (ev, pc1, s) = Inr (ev, Producing (0x41 + of_nat (Suc p)), s\<lparr>sys_ring := rb\<rparr>)"
    using True rb(1) last_letter [of p] by (simp add: secondary_step_def pc ac_simps)
  ultimately show ?thesis using assms True rb(2) by auto
next
  case False
  then have p: "p = 10" and "pc1 = Producing (0x41 + of_nat 10) \<or> pc1 = Asleep"
    using assms by auto
  then have "\<exists>ev'. secondary_step 1 0 0 (ev, pc1, s) = Inr (ev', Asleep, s) \<and> ev' 2 = ev 2"
    using last_letter [of 10] by (auto simp: secondary_step_def wfe_done_def get_cpu_id_def)
  with assms p show ?thesis by auto
qed

lemma consumer_prints:
  "locked (\<lambda>s. con_puts [newline] (con_putc (char_of (unat b)) (con_puts ''[Core 2] Got: '' s))) =
     locked (log_text (got_line b))"
  "locked (con_puts (''[Core 2] Ring buffer test COMPLETE'' @ [newline])) = locked (log_text complete_line)"
  by (simp_all add: con_log con_puts_log got_line_def complete_line_def)

lemma consumer_step:
  assumes "ring_test_state base (p, q, w, e) (ev, pc1, pc2, s)"
  shows "\<exists>ev' pc2' s'. secondary_step 2 0 0 (ev, pc2, s) = Inr (ev', pc2', s') \<and>
    ring_test_state base (if q = 11 then (p, q, w, False) else if w then (p, q, \<not> e, False)
      else if q < p \<or> q = 10 then (p, Suc q, False, True) else (p, q, True, e)) (ev', pc1, pc2', s')"
proof -
  have ok: "rb_ok (sys_ring s)" "rb_list (sys_ring s) = drop q (take p letters)" "sys_lock s = 0"
    and pq: "p \<le> 10" "min q 10 \<le> p" "q \<le> 11" "w \<longrightarrow> q < 10" "e = ev 2" using assms by auto
  have con: "sys_console s = base @ concat (map got_line (take q letters)) @ (if q = 11 then complete_line else [])"
    using assms by simp
  have cpu: "unat (get_cpu_id 2) = 2" by (simp add: get_cpu_id_def)
  consider "q = 11" | "w" | "\<not> w" "q < 10" "q < p" | "\<not> w" "q < 10" "q = p" | "\<not> w" "q = 10" using pq by linarith
  then show ?thesis
  proof cases
    case 1
    then have pc: "pc2 = Asleep" using assms by simp
    have "secondary_step 2 0 0 (ev, pc2, s) = Inr (wfe_done 2 ev, pc2, s)" by (simp add: secondary_step_def pc cpu)
    with 1 assms show ?thesis by (auto simp: wfe_done_def)
  next
    case 2
    with pq(4) obtain b where pc: "pc2 = Waiting (int q) b" using assms by auto
    have "secondary_step 2 0 0 (ev, pc2, s) = (if e then Inr (wfe_done 2 ev, Consuming (int q) b, s) else Inr (ev, pc2, s))"
      by (simp add: secondary_step_def pc cpu pq(5))
    with 2 pq(4) assms pc show ?thesis by (cases e) (auto simp: wfe_done_def)
  next
    case 3
    obtain b where pc: "pc2 = Consuming (int q) b" using assms 3 by auto
    have list: "rb_list (sys_ring s) = letters ! q # drop (Suc q) (take p letters)"
      using 3 pq(1) by (simp add: ok(2) Cons_nth_drop_Suc [symmetric])
    obtain rb where rb: "ring_buffer_get (sys_ring s) b = Inr (0, letters ! q, rb)" "rb_ok rb"
      "rb_list rb = drop (Suc q) (take p letters)"
      using ring.get_some [OF ok(1) list] by blast
    let ?s = "log_text (got_line (letters ! q)) (s\<lparr>sys_ring := rb\<rparr>)"
    have "locked (log_text (got_line (letters ! q))) (s\<lparr>sys_ring := rb\<rparr>) = Inr ?s"
      using ok(3) by (intro locked_log) simp_all
    then have "secondary_step 2 0 0 (ev, pc2, s) = Inr (sev ev, Consuming (int (Suc q)) (letters ! q), ?s)"
      unfolding secondary_step_def consumer_prints using 3 rb(1) by (simp add: pc add.commute)
    moreover have "take (Suc q) letters = take q letters @ [letters ! q]"
      using 3 by (simp add: take_Suc_conv_app_nth)
    ultimately show ?thesis using 3 assms rb(2,3) con by (auto simp: sev_def)
  next
    case 4
    obtain b where pc: "pc2 = Consuming (int q) b" using assms 4 by auto
    have "ring_buffer_get (sys_ring s) b = Inr (-1, b, sys_ring s)"
      using 4 by (intro ring.get_none [OF ok(1)]) (simp add: ok(2))
    then have "secondary_step 2 0 0 (ev, pc2, s) = Inr (ev, Waiting (int q) b, s)"
      using 4 by (simp add: secondary_step_def pc)
    with 4 assms show ?thesis by simp
  next
    case 5
    obtain b where pc: "pc2 = Consuming 10 b" using assms 5 by auto
    have "locked (log_text complete_line) s = Inr (log_text complete_line s)"
      using ok(3) by (intro locked_log) simp_all
    then have "secondary_step 2 0 0 (ev, pc2, s) = Inr (sev ev, Asleep, log_text complete_line s)"
      unfolding secondary_step_def consumer_prints by (simp add: pc)
    with 5 assms show ?thesis by (auto simp: sev_def)
  qed
qed

lemma ring_test_refines:
  assumes "ring_test_state base y x"
  shows "\<exists>x'. ring_test ts x = Inr x' \<and> ring_test_state base (ring_progress ts y) x'"
  using assms
proof (induction ts arbitrary: y x)
  case Nil
  then show ?case by simp
next
  case (Cons t ts)
  obtain ev pc1 pc2 s p q w e where x: "x = (ev, pc1, pc2, s)" "y = (p, q, w, e)" by (cases x; cases y)
  show ?case
  proof (cases t)
    case Core_1
    obtain ev' pc1' s' where "secondary_step 1 0 0 (ev, pc1, s) = Inr (ev', pc1', s')"
      "ring_test_state base (min 10 (Suc p), q, w, e) (ev', pc1', pc2, s')"
      using producer_step Cons.prems unfolding x by blast
    with Cons.IH Core_1 x show ?thesis by fastforce
  next
    case Core_2
    let ?y = "if q = 11 then (p, q, w, False) else if w then (p, q, \<not> e, False)
      else if q < p \<or> q = 10 then (p, Suc q, False, True) else (p, q, True, e)"
    obtain ev' pc2' s' where step: "secondary_step 2 0 0 (ev, pc2, s) = Inr (ev', pc2', s')"
      "ring_test_state base ?y (ev', pc1, pc2', s')"
      using consumer_step Cons.prems unfolding x by blast
    show ?thesis
      unfolding Core_2 x ring_test.simps ring_progress.simps using step(1) Cons.IH [OF step(2)] by simp
  next
    case Event
    have "ring_test_state base (p, q, w, True) (sev ev, pc1, pc2, s)"
      using Cons.prems unfolding x by (auto simp: sev_def)
    from Cons.IH [OF this] show ?thesis by (simp add: Event x)
  qed
qed

lemma ring_progress_append: "ring_progress (ts @ us) x = ring_progress us (ring_progress ts x)"
  by (induction ts x rule: ring_progress.induct) simp_all

lemma ring_progress_push:
  "p \<le> 10 \<Longrightarrow> fst (ring_progress ts (p, x)) = min 10 (p + count_list ts Core_1)"
proof (induction ts arbitrary: p x)
  case (Cons t ts)
  obtain q w e where "x = (q, w, e)" by (cases x)
  with Cons show ?case by (cases t) auto
qed simp

text \<open>With all letters in the ring, core 2 stops waiting for good at the first event.\<close>

lemma ring_progress_pull:
  "q \<le> 11 \<Longrightarrow> w \<longrightarrow> e \<and> q < 10 \<Longrightarrow>
   fst (snd (ring_progress ts (10, q, w, e))) = min 11 (q + (count_list ts Core_2 - of_bool w))"
proof (induction ts arbitrary: q w e)
  case (Cons t ts)
  then show ?case by (cases t; cases w) auto
qed simp

text \<open>Without an event, a core 2 that sleeps goes on sleeping.\<close>

lemma ring_progress_stuck: "Event \<notin> set ts \<Longrightarrow> snd (ring_progress ts (p, 0, True, False)) = (0, True, False)"
proof (induction ts arbitrary: p)
  case (Cons t ts)
  then show ?case by (cases t) auto
qed simp

section \<open>The boot\<close>

text \<open>Memory at reset: arbitrary values in the right places.\<close>

definition raw_memory :: "system \<Rightarrow> bool" where
  "raw_memory s \<longleftrightarrow> length (sys_mailboxes s) = 4 \<and> (\<forall>mb \<in> set (sys_mailboxes s). length (mb_tag mb) = 32) \<and>
     length (sys_key s) = 32 \<and> length (rb_data (sys_ring s)) = 256"

text \<open>The other cores leave the mailboxes alone while nothing waits for core 3.\<close>

definition calm :: "pause \<Rightarrow> bool" where
  "calm delay \<longleftrightarrow> (\<forall>n slots s. view slots UNIV s \<and> pending (slots ! 3) = [] \<longrightarrow>
     returns (delay n s) (\<lambda>s'. view slots UNIV s' \<and> sys_key s' = sys_key s \<and> sys_ring s' = sys_ring s))"

lemma core3_calm:
  assumes "get_cpu_id m3 = 3"
  shows "calm (core3_delay m3 k)"
  unfolding calm_def
proof (intro allI impI, elim conjE)
  fix n slots s assume "view slots UNIV s" "pending (slots ! 3) = []"
  with core3_idle [OF this assms, of "k n"]
  show "returns (core3_delay m3 k n s) (\<lambda>s'. view slots UNIV s' \<and> sys_key s' = sys_key s \<and> sys_ring s' = sys_ring s)"
    by (simp add: core3_delay_def)
qed

lemma key_copy:
  assumes "length key = 32" and "length mem = 32"
  shows "hmac_key_init key mem = Inr key"
proof -
  have "fold (\<lambda>i m. m[i := key ! i]) [0..<n] mem = take n key @ drop n mem" if "n \<le> 32" for n
    using that
  proof (induction n)
    case (Suc n)
    then show ?case using assms by (simp add: list_update_append take_Suc_conv_app_nth Cons_nth_drop_Suc [symmetric])
  qed simp
  from this [of 32] show ?thesis using assms by (simp add: hmac_key_init_def HMAC_KEY_SIZE_def)
qed

lemma start_cores_calm:
  assumes "view slots UNIV s" "pending (slots ! 3) = []" "calm delay"
  shows "returns (start_cores hvc start delay cpus s)
    (\<lambda>s'. view slots UNIV s' \<and> sys_key s' = sys_key s \<and> sys_ring s' = sys_ring s)"
  using assms(1)
proof (induction cpus arbitrary: s)
  case Nil
  then show ?case by simp
next
  case (Cons cpu cpus)
  define f where "f = (\<lambda>s. con_puts [newline] (con_puthex (psci_cpu_on hvc (of_nat cpu) start) (con_puts '' PSCI: ''
        (con_putc (digit_char (of_nat cpu)) (con_puts ''[Core 0] Core '' s)))))"
  obtain str where f: "f s = log_text str s" for s unfolding f_def con_log by blast
  have lock: "sys_lock s = 0" using Cons.prems by (simp add: view_def)
  have "locked f s = Inr (log_text str s)" by (rule locked_log [OF lock f])
  moreover have "view slots UNIV (log_text str s)"
    using Cons.prems by (auto simp: view_def intro: reach_log)
  moreover from this assms(2,3) obtain s' where "delay 3000000 (log_text str s) = Inr s'" "view slots UNIV s'"
    "sys_key s' = sys_key s" "sys_ring s' = sys_ring s"
    unfolding calm_def returns_def by fastforce
  ultimately show ?case using Cons.IH [of s'] by (simp add: Let_def f_def)
qed

lemma main_boot_run:
  assumes raw: "raw_memory s" and delay: "calm delay"
  shows "returns (main_boot hvc start delay s) (\<lambda>s'. view [Empty, Empty, Empty, Empty] UNIV s' \<and>
    sys_key s' = secret_key \<and> rb_ok (sys_ring s') \<and> rb_list (sys_ring s') = [])"
proof -
  define s1 where "s1 = s\<lparr>sys_lock := 0, sys_ring := ring_buffer_init (sys_ring s), sys_key := secret_key\<rparr>"
  have key: "hmac_key_init secret_key (sys_key s) = Inr secret_key"
    using raw by (intro key_copy) (simp_all add: raw_memory_def secret_key_def)
  have s1: "sys_ok s1" "sys_lock s1 = 0" "sys_key s1 = secret_key" "rb_ok (sys_ring s1)" "rb_list (sys_ring s1) = []"
    using raw rb_init_ok [of "sys_ring s"] by (auto simp: s1_def sys_ok_def raw_memory_def secret_key_def)
  define f where "f = (\<lambda>s. con_puts (''[Core 0] Initializing mailboxes...'' @ [newline])
        (con_puts ([newline] @ ''=== Multi-Core Boot Test ==='' @ [newline]) s))"
  obtain str where f: "f s = log_text str s" for s unfolding f_def con_log by blast
  define s2 where "s2 = log_text str (log_text (puts_text (''[CRYPTO] HMAC key loaded'' @ [newline])) s1)"
  have l1: "locked f (log_text (puts_text (''[CRYPTO] HMAC key loaded'' @ [newline])) s1) = Inr s2"
    unfolding s2_def by (rule locked_log [OF _ f]) (simp add: s1)
  define s3 where "s3 = s2\<lparr>sys_mailboxes := map cleared (sys_mailboxes s2)\<rparr>"
  have len: "sys_ok s2" "length (sys_mailboxes s2) = 4" using s1(1) by (simp_all add: s2_def sys_ok_def)
  have init: "init_mailboxes [0, 1, 2, 3] s2 = Inr s3" unfolding s3_def by (rule init_mailboxes_eq [OF len(2)])
  have reach: "mail_reach (\<lambda>c. 0) s3" by (rule mail_reach.boot [OF len(1) init])
  have "mailbox_slot c s3 = Empty" if "core_ok c" for c
    using that len(2) by (auto simp: mailbox_slot_def Let_def s3_def cleared_def core_ok_def nat_less_iff)
  then have "view [Empty, Empty, Empty, Empty] UNIV s3"
    using reach s1(2) by (auto simp: view_def s3_def s2_def)
  then obtain s4 where s4: "locked (log_text (puts_text (''[Core 0] Starting secondary cores...'' @ [newline, newline]))) s3 = Inr s4"
      "view [Empty, Empty, Empty, Empty] UNIV s4"
    using view_locked view_any unfolding returns_def by blast
  have "s4 = log_text (puts_text (''[Core 0] Starting secondary cores...'' @ [newline, newline])) s3"
    using s4(1) locked_log [of s3 "log_text str" str for str] s1(2) by (simp add: s3_def s2_def)
  then have s4': "sys_key s4 = secret_key" "sys_ring s4 = sys_ring s1"
    using s1 by (simp_all add: s3_def s2_def)
  obtain s5 where s5: "start_cores hvc start delay [1, 2, 3] s4 = Inr s5" "view [Empty, Empty, Empty, Empty] UNIV s5"
    "sys_key s5 = secret_key" "sys_ring s5 = sys_ring s1"
    using start_cores_calm [OF s4(2) _ delay, of hvc start "[1, 2, 3]"] s4' by (auto simp: returns_def)
  obtain s6 where "delay 10000000 s5 = Inr s6" "view [Empty, Empty, Empty, Empty] UNIV s6"
    "sys_key s6 = secret_key" "sys_ring s6 = sys_ring s1"
    using delay s5(2-4) unfolding calm_def returns_def by fastforce
  then show ?thesis
    using key l1 init s4(1) s5(1) s1(4,5)
    by (simp add: main_boot_def Let_def spinlock_init_def con_log con_puts_log f_def flip: s1_def)
qed

section \<open>From the reset to the first task\<close>

text \<open>What \<^verbatim>\<open>sched_add_task\<close> and \<^verbatim>\<open>sched_run\<close> do to the shared state and the entry points of core 0.\<close>

lemma add_task_frame:
  assumes "sched_add_task mpidr job k = Inr k'" "on_core mpidr 0" "sched_ok 0 k"
  shows "\<exists>str. k_sys k' = log_text str (k_sys k)"
    and "map t_entry (task_pool k' ! 0) = (map t_entry (task_pool k ! 0))[unat (task_count k ! 0) := job_entry job]"
  using assms
  by (auto simp: sched_add_task_def on_core_def Let_def on_sys_def update_tcb_def con_log map_update sched_ok_def
      split: if_splits)

lemma sched_run_frame:
  assumes "sched_run mpidr k = Inr k'" "on_core mpidr 0" "sched_ok 0 k"
  shows "\<exists>str. k_sys k' = log_text str (k_sys k)"
    and "map t_entry (task_pool k' ! 0) = map t_entry (task_pool k ! 0)"
proof -
  have "map t_entry (xs[0 := (xs ! 0)\<lparr>t_state := st\<rparr>]) = map t_entry xs" for xs st
    by (cases xs) simp_all
  with assms show "\<exists>str. k_sys k' = log_text str (k_sys k)"
    and "map t_entry (task_pool k' ! 0) = map t_entry (task_pool k ! 0)"
    by (auto simp: sched_run_def on_core_def Let_def on_sys_def update_tcb_def con_log sched_ok_def split: if_splits)
qed

lemma sched_ok_sys [simp]: "sched_ok c (k\<lparr>k_sys := s\<rparr>) = sched_ok c k"
  by (simp add: sched_ok_def)

lemma view_log: "view slots UNIV s \<Longrightarrow> view slots UNIV (log_text str s)"
  by (auto simp: view_def intro: reach_log)

text \<open>The two tasks of core 0, registered and started.\<close>

lemma core0_tasks:
  assumes ok: "sched_ok 0 k" and none: "task_count k ! 0 = 0" and core: "on_core mpidr 0"
    and v: "view slots UNIV (k_sys k)"
  shows "\<exists>k1 k2 k3. sched_add_task mpidr (uart_job entry) k = Inr k1 \<and>
    sched_add_task mpidr (consumer_job entry) k1 = Inr k2 \<and> sched_run mpidr k2 = Inr k3 \<and>
    states 0 k3 = [TASK_RUNNING, TASK_READY] \<and> current 0 k3 = 0 \<and>
    take 2 (map t_entry (task_pool k3 ! 0)) = [entry Uart_Rx, entry Ring_Consumer] \<and>
    view slots UNIV (k_sys k3) \<and> running 0 k3 \<and> sys_ring (k_sys k3) = sys_ring (k_sys k)"
proof -
  have st: "states 0 k = []" by (simp add: states_def none)
  obtain k1 where k1: "sched_add_task mpidr (uart_job entry) k = Inr k1" "sched_ok 0 k1"
    "states 0 k1 = [TASK_READY]" "unat (task_count k1 ! 0) = 1"
    using sched_add_task_eq [OF ok core, of "uart_job entry"] none st by auto
  obtain k2 where k2: "sched_add_task mpidr (consumer_job entry) k1 = Inr k2" "sched_ok 0 k2"
    "states 0 k2 = [TASK_READY, TASK_READY]" "unat (task_count k2 ! 0) = 2"
    using sched_add_task_eq [OF k1(2) core, of "consumer_job entry"] k1(3,4) by auto
  have "task_count k2 ! 0 \<noteq> 0" using k2(4) by auto
  then obtain k3 where k3: "sched_run mpidr k2 = Inr k3" "current 0 k3 = 0" "states 0 k3 = [TASK_RUNNING, TASK_READY]"
    "running 0 k3"
    using sched_run_eq [OF k2(2) core] k2(3) by auto
  note f1 = add_task_frame [OF k1(1) core ok] and f2 = add_task_frame [OF k2(1) core k1(2)]
    and f3 = sched_run_frame [OF k3(1) core k2(2)]
  have "view slots UNIV (k_sys k3)" using f1(1) f2(1) f3(1) v view_log by metis
  moreover have "sys_ring (k_sys k3) = sys_ring (k_sys k)" using f1(1) f2(1) f3(1) by auto
  moreover have "take 2 (map t_entry (task_pool k3 ! 0)) = [entry Uart_Rx, entry Ring_Consumer]"
  proof -
    have "length (task_pool k ! 0) = 8" using ok by (simp add: sched_ok_def)
    then obtain a b xs where "map t_entry (task_pool k ! 0) = a # b # xs"
      by (auto simp: length_Suc_conv eval_nat_numeral)
    then show ?thesis
      using f1(2) f2(2) f3(2) by (simp add: none k1(4) uart_job_def consumer_job_def eval_nat_numeral)
  qed
  ultimately show ?thesis using k1(1) k2(1) k3 by blast
qed

lemma cpu_0:
  assumes "mpidr AND 0xFF = 0"
  shows "on_core mpidr 0" "ucast mpidr AND 0xFF = (0 :: u32)"
proof -
  show "on_core mpidr 0" using assms by (simp add: on_core_def get_core_id_def)
  have "unat mpidr mod 256 = 0"
    using arg_cong [OF assms, of unat] unat_and_mask [of mpidr 8] by (simp add: mask_eq_exp_minus_1)
  then show "ucast mpidr AND 0xFF = (0 :: u32)"
    by (simp add: word_unat_eq_iff unsigned_ucast_eq take_bit_eq_mod unat_mod_distrib mod_mod_cancel)
qed

text \<open>What \<^verbatim>\<open>main\<close> finds at the reset: \<^verbatim>\<open>boot.S\<close> has cleared the scheduler's tables and the handlers.\<close>

definition reset_state :: "machine \<Rightarrow> bool" where
  "reset_state m \<longleftrightarrow> raw_memory (k_sys (m_kernel m)) \<and> sched_ok 0 (m_kernel m) \<and>
     task_count (m_kernel m) ! 0 = 0 \<and> irq_table (m_irq m) = replicate 64 None \<and>
     length (g_delta_timestamps (m_timer m)) = 4"

text \<open>The clock of the board: the right frequency, and a counter that gets two seconds ahead.\<close>

definition clock_runs :: "timer_tests \<Rightarrow> bool" where
  "clock_runs t \<longleftrightarrow> cntfrq t = QEMU_VIRT_FREQ \<and>
     (\<exists>n > cnt_reads t. \<not> cntpct t n - cntpct t (cnt_reads t) < 2 * QEMU_VIRT_FREQ)"

lemma main_run:
  assumes reset: "reset_state m" and clock: "clock_runs (m_timer m)"
    and irqs: "10 \<le> length (filter is_timer iars)" and cpu: "mpidr AND 0xFF = 0" "get_cpu_id m3 = 3"
    and busy: "\<And>n. k n > 0"
  shows "\<exists>m'. main mpidr hvc start entry (core3_delay m3 k) quiet iars out m = Inr m' \<and>
    states 0 (m_kernel m') = [TASK_RUNNING, TASK_READY] \<and> current 0 (m_kernel m') = 0 \<and>
    take 2 (map t_entry (task_pool (m_kernel m') ! 0)) = [entry Uart_Rx, entry Ring_Consumer] \<and>
    view [Empty, ping 1, ping 2, Empty] UNIV (k_sys (m_kernel m')) \<and> irqs_masked (m_irq m') \<and>
    running 0 (m_kernel m') \<and> rb_ok (sys_ring (k_sys (m_kernel m'))) \<and> rb_list (sys_ring (k_sys (m_kernel m'))) = []"
proof -
  let ?d = "core3_delay m3 k" and ?k = "m_kernel m"
  have ok: "sched_ok 0 ?k" "task_count ?k ! 0 = 0" "raw_memory (k_sys ?k)" using reset by (simp_all add: reset_state_def)
  obtain s1 where s1: "main_boot hvc start ?d (k_sys ?k) = Inr s1" "view [Empty, Empty, Empty, Empty] UNIV s1"
    "rb_ok (sys_ring s1)" "rb_list (sys_ring s1) = []"
    using main_boot_run [OF ok(3) core3_calm [OF cpu(2)], of hvc start k] by (auto simp: returns_def)
  have say: "\<exists>s'. locked (con_puts str) s = Inr s' \<and> view sl UNIV s'" if "view sl UNIV s" for str sl s
    using view_locked [OF that] view_any unfolding returns_def con_puts_log by blast
  obtain s2 where s2: "locked (con_puts ([newline] @ ''[Core 0] === Starting Interrupt Test ==='' @ [newline, newline])) s1 = Inr s2"
    "view [Empty, Empty, Empty, Empty] UNIV s2" using say [OF s1(2)] by blast
  let ?t = "(m_timer m)\<lparr>tt_sys := s2\<rparr>"
  have g: "irq_ok (m_irq m)" "only_uart0 (irq_table (m_irq m))" "length (g_delta_timestamps ?t) = 4"
    using reset by (simp_all add: reset_state_def irq_ok_def only_uart0_def)
  have "\<not> (cntfrq ?t \<noteq> QEMU_VIRT_FREQ \<or>
      (\<forall>n > cnt_reads ?t. cntpct ?t n - cntpct ?t (cnt_reads ?t) < 2 * QEMU_VIRT_FREQ) \<or>
      length (filter is_timer iars) < 10)"
    using clock irqs by (auto simp: clock_runs_def)
  with interrupt_tests_run [OF g, of iars quiet] obtain rest str g' t' where
    t': "interrupt_tests_init quiet iars (m_irq m, ?t) = Inr (rest, g', t')" "irqs_masked g'" "tt_sys t' = log_text str s2"
    by (simp only: if_False) auto
  have "view [Empty, Empty, Empty, Empty] UNIV (tt_sys t')" unfolding t'(3) by (rule view_log [OF s2(2)])
  then obtain s3 where s3: "locked (con_puts ([newline] @ ''[Core 0] === Starting Communication Test ==='' @
      [newline, newline])) (tt_sys t') = Inr s3" "view [Empty, Empty, Empty, Empty] UNIV s3"
    using say by blast
  obtain s4 where s4: "run_all_tests mpidr ?d out s3 = Inr s4" "view [Empty, ping 1, ping 2, Empty] UNIV s4"
    using run_all_tests_run [where k = k and out = out, OF s3(2) cpu_0(2) [OF cpu(1)] cpu(2) busy]
    by (auto simp: returns_def)
  let ?k4 = "?k\<lparr>k_sys := s4\<rparr>"
  have k4: "sched_ok 0 ?k4" "task_count ?k4 ! 0 = 0" "view [Empty, ping 1, ping 2, Empty] UNIV (k_sys ?k4)"
    using ok s4(2) by simp_all
  from core0_tasks [OF k4(1,2) cpu_0(1) [OF cpu(1)] k4(3), of entry] obtain k5 k6 k7 where
    k7: "sched_add_task mpidr (uart_job entry) ?k4 = Inr k5" "sched_add_task mpidr (consumer_job entry) k5 = Inr k6"
    "sched_run mpidr k6 = Inr k7" "states 0 k7 = [TASK_RUNNING, TASK_READY]" "current 0 k7 = 0"
    "take 2 (map t_entry (task_pool k7 ! 0)) = [entry Uart_Rx, entry Ring_Consumer]"
    "view [Empty, ping 1, ping 2, Empty] UNIV (k_sys k7)" "running 0 k7" "sys_ring (k_sys k7) = sys_ring s4"
    by auto
  have ring: "sys_ring s4 = sys_ring s1"
    using s2(1) s3(1) t'(3) run_all_tests_ring [OF s4(1) core3_rests] unfolding con_puts_log by (auto dest!: locked_ring)
  let ?m = "m\<lparr>m_irq := g', m_timer := t', m_kernel := k7\<rparr>"
  have "main mpidr hvc start entry ?d quiet iars out m = Inr ?m"
    unfolding main_def using s1(1) s2(1) t'(1) s3(1) s4(1) k7(1-3)
    by (simp add: on_shared_def on_kernel_def main_interrupt_tests_def del: append.simps append_Cons)
  with k7(4-9) t'(2) s1(3,4) ring show ?thesis by auto
qed

section \<open>Properties\<close>

text \<open>
  The boot of the shared state.  From arbitrary memory, whatever the firmware
  answers, \<^verbatim>\<open>main\<close> reaches the interrupt tests with the four mailboxes empty and unlocked, the
  global lock free, the ring buffer empty and the secret key in place, as long as the cores it
  starts leave the mailboxes alone.
\<close>
theorem main_boot_ready:
  assumes "raw_memory s" and "calm delay"
  shows "\<exists>s' n. main_boot hvc start delay s = Inr s' \<and> mail_reach n s' \<and> sys_lock s' = 0 \<and>
    (\<forall>c \<in> {0, 1, 2, 3}. mailbox_slot c s' = Empty \<and> mb_lock (mbox c s') = 0) \<and>
    rb_list (sys_ring s') = [] \<and> sys_key s' = secret_key"
proof -
  obtain s' where s': "main_boot hvc start delay s = Inr s'" "view [Empty, Empty, Empty, Empty] UNIV s'"
    "rb_list (sys_ring s') = []" "sys_key s' = secret_key"
    using main_boot_run [OF assms, of hvc start] by (auto simp: returns_def)
  obtain n where n: "mail_reach n s'" using s'(2) by (auto simp: view_def)
  have lock: "mb_lock (mbox c s') = 0" if "core_ok c" for c
    using reach_valid [OF n that] by (simp add: mailbox_valid_def free_mailbox_def)
  have "\<forall>c \<in> {0, 1, 2, 3}. mb_lock (mbox c s') = 0"
    using lock [OF core_ok_cores(1)] lock [OF core_ok_cores(2)] lock [OF core_ok_cores(3)] lock [OF core_ok_cores(4)]
    by simp
  with n s' show ?thesis by (intro exI [of _ s'] exI [of _ n]) (simp add: view_def)
qed

lemma main_boot_ready_witness:
  "\<exists>s'. main_boot (\<lambda>_ _ _ _. 0xFFFFFFFFFFFFFFFC) 0x40080000 (\<lambda>n s. Inr (con_puts ''[Core 1]'' s)) old_memory = Inr s' \<and>
     sys_key s' = secret_key \<and> mailbox_slot 2 s' = Empty"
proof -
  have "raw_memory old_memory" by (simp add: raw_memory_def old_memory_def old_mailbox_def)
  moreover have "calm (\<lambda>n s. Inr (con_puts ''[Core 1]'' s))"
    unfolding calm_def by (simp add: con_log view_log)
  ultimately show ?thesis
    using main_boot_ready [of old_memory "\<lambda>n s. Inr (con_puts ''[Core 1]'' s)" "\<lambda>_ _ _ _. 0xFFFFFFFFFFFFFFFC" "0x40080000"]
    by blast
qed

text \<open>
  Property C5: \<^verbatim>\<open>main\<close> reaches the scheduler.  With a running clock of the right frequency and ten
  timer interrupts, and core 3 answering, \<^verbatim>\<open>main\<close> gets through the boot, the interrupt tests and
  the communication tests and enters the receiving task, with the echoing task ready behind it;
  every lock is free; interrupts are masked, and the mailboxes of cores 1 and 2 are still full.
\<close>
theorem main_reaches_tasks:
  assumes "reset_state m" and "clock_runs (m_timer m)" and "10 \<le> length (filter is_timer iars)"
    and "mpidr AND 0xFF = 0" and "get_cpu_id m3 = 3" and "\<And>n. k n > 0"
  shows "\<exists>m'. main mpidr hvc start entry (core3_delay m3 k) quiet iars out m = Inr m' \<and>
    states 0 (m_kernel m') = [TASK_RUNNING, TASK_READY] \<and> current 0 (m_kernel m') = 0 \<and>
    take 2 (map t_entry (task_pool (m_kernel m') ! 0)) = [entry Uart_Rx, entry Ring_Consumer] \<and>
    sys_lock (k_sys (m_kernel m')) = 0 \<and> irqs_masked (m_irq m') \<and>
    map (\<lambda>c. mailbox_slot c (k_sys (m_kernel m'))) [0, 1, 2, 3] =
      [Empty, Ready (0, MSG_PING, 0x1001), Ready (0, MSG_PING, 0x1002), Empty]"
proof -
  obtain m' where "main mpidr hvc start entry (core3_delay m3 k) quiet iars out m = Inr m'"
    "states 0 (m_kernel m') = [TASK_RUNNING, TASK_READY]" "current 0 (m_kernel m') = 0"
    "take 2 (map t_entry (task_pool (m_kernel m') ! 0)) = [entry Uart_Rx, entry Ring_Consumer]"
    "view [Empty, ping 1, ping 2, Empty] UNIV (k_sys (m_kernel m'))" "irqs_masked (m_irq m')"
    using main_run [where k = k, OF assms] by blast
  then show ?thesis by (intro exI [of _ m']) (simp add: view_def ping_def)
qed

definition reset_machine :: machine where
  "reset_machine = \<lparr>m_kernel = zero_kernel\<lparr>k_sys := old_memory\<rparr>, m_irq = sample_gic, m_timer = sample_tests 62500000\<rparr>"

lemma reset_machine_ok:
  "reset_state reset_machine" "clock_runs (m_timer reset_machine)" "(0x80000000 :: u64) AND 0xFF = 0"
  "get_cpu_id 0x80000003 = 3"
proof -
  show "reset_state reset_machine"
    using zero_kernel_ok [of 0]
    by (simp add: reset_state_def reset_machine_def raw_memory_def old_memory_def old_mailbox_def sample_gic_def
        sample_tests_def sched_ok_def zero_kernel_def)
  show "clock_runs (m_timer reset_machine)"
    unfolding clock_runs_def
    by (auto simp: reset_machine_def sample_tests_def QEMU_VIRT_FREQ_def intro!: exI [of _ 2])
qed (simp_all add: get_cpu_id_def)

lemma main_reaches_tasks_witness:
  "\<exists>m'. main 0x80000000 (\<lambda>_ _ _ _. 0) 0x40080000 (\<lambda>_. 0x40080100) (core3_delay 0x80000003 (\<lambda>_. 1)) []
       (replicate 10 30) (0, 0, 0) reset_machine = Inr m' \<and> current 0 (m_kernel m') = 0"
proof -
  have irqs: "10 \<le> length (filter is_timer (replicate 10 30))" by simp
  show ?thesis
    using main_reaches_tasks [OF reset_machine_ok(1,2) irqs reset_machine_ok(3,4), where k = "\<lambda>_. 1"] by blast
qed

text \<open>
  Property C23: the ring buffer test of cores 1 and 2.  In every interleaving the run returns, no
  letter is lost or printed out of order: core 2 has printed a prefix of A to J and the ring
  holds the rest of what core 1 has pushed.  Whether core 2 prints them depends on events that core 1 does not
  send: if it has found the ring empty before the first push and sleeps in its \<^verbatim>\<open>wfe\<close> (three of its steps
  are enough, whatever its event register was), it sleeps until another core sends an event, with all ten letters
  in the ring, however long the two cores run.  One event after the tenth push is enough: twelve more steps of core 2
  complete the test.
\<close>
theorem ring_test_wakes:
  assumes "rb_ok (sys_ring s)" "rb_list (sys_ring s) = []" "sys_lock s = 0"
  shows "\<exists>ev' pc1 pc2 s' p q. ring_test ts (ev, Producing 0x41, Consuming 0 b, s) = Inr (ev', pc1, pc2, s') \<and>
    p = min 10 (count_list ts Core_1) \<and> min q 10 \<le> p \<and> sys_lock s' = 0 \<and>
    rb_list (sys_ring s') = drop q (take p letters) \<and>
    sys_console s' = sys_console s @ concat (map got_line (take q letters)) @ (if pc2 = Asleep then complete_line else []) \<and>
    (\<forall>us vs. ts = us @ Event # vs \<and> 10 \<le> count_list us Core_1 \<and> 12 \<le> count_list vs Core_2 \<longrightarrow> pc2 = Asleep \<and> q = 11) \<and>
    (\<forall>vs. ts = [Core_2, Core_2, Core_2] @ vs \<and> Event \<notin> set vs \<longrightarrow> q = 0 \<and> (\<exists>b. pc2 = Waiting 0 b) \<and> \<not> ev' 2)"
proof -
  have start: "ring_test_state (sys_console s) (0, 0, False, ev 2) (ev, Producing 0x41, Consuming 0 b, s)"
    using assms by simp
  obtain ev' pc1 pc2 s' p q w e where
    run: "ring_test ts (ev, Producing 0x41, Consuming 0 b, s) = Inr (ev', pc1, pc2, s')"
      "ring_progress ts (0, 0, False, ev 2) = (p, q, w, e)" "ring_test_state (sys_console s) (p, q, w, e) (ev', pc1, pc2, s')"
    using ring_test_refines [OF start, of ts] by (cases "ring_progress ts (0, 0, False, ev 2)") auto
  have p: "p = min 10 (count_list ts Core_1)" using ring_progress_push [of 0 ts "(0, False, ev 2)"] run(2) by simp
  have asleep: "pc2 = Asleep \<longleftrightarrow> q = 11" using run(3) by (auto split: if_splits)
  have finished: "q = 11" if "ts = us @ Event # vs" "10 \<le> count_list us Core_1" "12 \<le> count_list vs Core_2" for us vs
  proof -
    note pushed = that(2)
    obtain q1 w1 e1 where q1: "ring_progress us (0, 0, False, ev 2) = (10, q1, w1, e1)"
      using ring_progress_push [of 0 us "(0, False, ev 2)"] pushed by (cases "ring_progress us (0, 0, False, ev 2)") simp
    have "q1 \<le> 11" "w1 \<longrightarrow> q1 < 10" using ring_test_refines [OF start, of us] by (auto simp: q1)
    with ring_progress_pull [of q1 w1 True vs] run(2) that q1 show ?thesis by (simp add: ring_progress_append)
  qed
  have "(q, w, e) = (0, True, False)" if "ts = [Core_2, Core_2, Core_2] @ vs" "Event \<notin> set vs" for vs
    using ring_progress_stuck [OF that(2), of 0] run(2) that(1) by (cases "ev 2") simp_all
  then have stuck: "q = 0 \<and> (\<exists>b. pc2 = Waiting 0 b) \<and> \<not> ev' 2" if "ts = [Core_2, Core_2, Core_2] @ vs" "Event \<notin> set vs" for vs
    using that run(3) by auto
  have "ring_test ts (ev, Producing 0x41, Consuming 0 b, s) = Inr (ev', pc1, pc2, s') \<and>
    p = min 10 (count_list ts Core_1) \<and> min q 10 \<le> p \<and> sys_lock s' = 0 \<and>
    rb_list (sys_ring s') = drop q (take p letters) \<and>
    sys_console s' = sys_console s @ concat (map got_line (take q letters)) @ (if pc2 = Asleep then complete_line else [])"
    unfolding asleep using run(1,3) p by simp
  with finished stuck asleep show ?thesis by blast
qed

lemma ring_test_wakes_witness:
  "\<exists>ev1 pc1 s1 b ev2 pc2 s2.
     ring_test (replicate 3 Core_2 @ replicate 12 Core_1 @ replicate 50 Core_2) (\<lambda>_. True, Producing 0x41, Consuming 0 0, booted) =
       Inr (ev1, pc1, Waiting 0 b, s1) \<and> sys_console s1 = [] \<and> rb_list (sys_ring s1) = letters \<and>
     ring_test ((replicate 3 Core_2 @ replicate 12 Core_1) @ Event # replicate 12 Core_2)
       (\<lambda>_. True, Producing 0x41, Consuming 0 0, booted) = Inr (ev2, pc2, Asleep, s2) \<and>
     sys_console s2 = concat (map got_line letters) @ complete_line"
proof -
  let ?us = "replicate 3 Core_2 @ replicate 12 Core_1" and ?vs = "replicate 12 Core_1 @ replicate 50 Core_2"
  have empty: "sys_console booted = []" by (simp add: booted_def old_memory_def)
  have count: "count_list (replicate n x) y = (if x = y then n else 0)" for n and x y :: turn
    by (induction n) auto
  have three: "replicate 3 Core_2 @ xs = [Core_2, Core_2, Core_2] @ xs" for xs by (simp add: numeral_3_eq_3)
  have lost: "Event \<notin> set ?vs" by simp
  obtain ev1 pc1 c1 s1 p q where *: "ring_test (replicate 3 Core_2 @ ?vs) (\<lambda>_. True, Producing 0x41, Consuming 0 0, booted) =
      Inr (ev1, pc1, c1, s1)" "p = min 10 (count_list (replicate 3 Core_2 @ ?vs) Core_1)"
    "rb_list (sys_ring s1) = drop q (take p letters)"
    "sys_console s1 = sys_console booted @ concat (map got_line (take q letters)) @ (if c1 = Asleep then complete_line else [])"
    "\<forall>vs. replicate 3 Core_2 @ ?vs = [Core_2, Core_2, Core_2] @ vs \<and> Event \<notin> set vs \<longrightarrow> q = 0 \<and> (\<exists>b. c1 = Waiting 0 b) \<and> \<not> ev1 2"
    using ring_test_wakes [OF booted_lock(3,2,1), of "replicate 3 Core_2 @ ?vs" "\<lambda>_. True" 0]
    by (elim exE conjE) (rule that, assumption+)
  from *(5) [rule_format, OF conjI [OF three lost]] obtain b where "q = 0" "c1 = Waiting 0 b" by blast
  moreover have "p = 10" using *(2) by (simp add: count)
  ultimately have first: "sys_console s1 = []" "rb_list (sys_ring s1) = letters" using *(3,4) empty by simp_all
  have enough: "10 \<le> count_list ?us Core_1" "12 \<le> count_list (replicate 12 Core_2) Core_2" by (simp_all add: count)
  obtain ev2 pc2 c2 s2 q' where **: "ring_test (?us @ Event # replicate 12 Core_2) (\<lambda>_. True, Producing 0x41, Consuming 0 0, booted) =
      Inr (ev2, pc2, c2, s2)"
    "sys_console s2 = sys_console booted @ concat (map got_line (take q' letters)) @ (if c2 = Asleep then complete_line else [])"
    "\<forall>us vs. ?us @ Event # replicate 12 Core_2 = us @ Event # vs \<and> 10 \<le> count_list us Core_1 \<and> 12 \<le> count_list vs Core_2
       \<longrightarrow> c2 = Asleep \<and> q' = 11"
    using ring_test_wakes [OF booted_lock(3,2,1), of "?us @ Event # replicate 12 Core_2" "\<lambda>_. True" 0]
    by (elim exE conjE) (rule that, assumption+)
  from **(3) [rule_format, OF conjI [OF refl conjI [OF enough]]] have "c2 = Asleep" "q' = 11" by simp_all
  with *(1) **(1,2) first \<open>c1 = Waiting 0 b\<close> empty show ?thesis by (intro exI conjI) (assumption | simp)+
qed

text \<open>
  The start of core 3.  With an empty task table \<^verbatim>\<open>secondary_main\<close> registers the
  mailbox task and enters it; with a full one it writes past the table.
\<close>
theorem core3_starts:
  assumes "sched_ok 3 k" and "on_core mpidr 3"
  shows "(task_count k ! 3 = 0 \<longrightarrow> (\<exists>k'. core3_main mpidr entry k = Inr k' \<and> states 3 k' = [TASK_RUNNING] \<and>
      current 3 k' = 0)) \<and>
    (task_count k ! 3 = 8 \<longrightarrow> core3_main mpidr entry k = Inl OutOfBounds)"
proof (intro conjI impI)
  assume none: "task_count k ! 3 = 0"
  have "states 3 k = []" by (simp add: states_def none)
  then obtain k1 where k1: "sched_add_task mpidr (mailbox_job entry) k = Inr k1" "sched_ok 3 k1"
    "states 3 k1 = [TASK_READY]" "unat (task_count k1 ! 3) = 1"
    using sched_add_task_eq [OF assms, of "mailbox_job entry"] none by auto
  have "task_count k1 ! 3 \<noteq> 0" using k1(4) by auto
  with sched_run_eq [OF k1(2) assms(2)] k1(1,3)
  show "\<exists>k'. core3_main mpidr entry k = Inr k' \<and> states 3 k' = [TASK_RUNNING] \<and> current 3 k' = 0"
    by (auto simp: core3_main_def)
next
  assume "task_count k ! 3 = 8"
  then show "core3_main mpidr entry k = Inl OutOfBounds"
    using sched_add_task_full [OF assms, of "mailbox_job entry"] by (simp add: core3_main_def)
qed

lemma core3_starts_witness:
  "\<exists>k'. core3_main 0x80000003 (\<lambda>_. 0x40080200) zero_kernel = Inr k' \<and> states 3 k' = [TASK_RUNNING]"
proof -
  have "on_core 0x80000003 3" by (simp add: on_core_def get_core_id_def)
  with core3_starts [of zero_kernel "0x80000003" "\<lambda>_. 0x40080200"] zero_kernel_ok [of 3]
  show ?thesis by auto
qed

end
