(* ===== verification/Core_Run.thy ===== *)
theory Core_Run
  imports Boot_Main
begin

text \<open>
  A core that runs its tasks: the scheduler of \<^verbatim>\<open>scheduler.c\<close> and the tasks of \<^verbatim>\<open>dispatcher.c\<close>
  together, from the state in which \<^verbatim>\<open>main\<close> or \<^verbatim>\<open>secondary_main\<close> has left them.  A slice is what
  a task executes from where it resumes to its next \<^verbatim>\<open>task_yield\<close>, and that call; that a task
  resumes where it yielded is proved in \<open>Context_Switch\<close>.
\<close>

section \<open>Slices\<close>

text \<open>The local variables of the three tasks, which live on the stacks of the tasks.\<close>

record core_state =
  c_uart :: uart
  c_byte :: u8
  c_out :: message_out
  c_kernel :: kernel

definition with_sys :: "system \<Rightarrow> core_state \<Rightarrow> core_state" where
  "with_sys s x = x\<lparr>c_kernel := (c_kernel x)\<lparr>k_sys := s\<rparr>\<rparr>"

primrec task_iteration :: "u64 \<Rightarrow> core_state \<Rightarrow> task \<Rightarrow> (task_end \<times> core_state) exec" where
  "task_iteration mpidr x Uart_Rx =
     bind_exec (uart_rx_task (c_uart x, k_sys (c_kernel x))) (\<lambda>(u, s).
       Inr (Yielded, with_sys s (x\<lparr>c_uart := u\<rparr>)))"
| "task_iteration mpidr x Ring_Consumer =
     bind_exec (ring_consumer_task (c_byte x, k_sys (c_kernel x))) (\<lambda>(e, b, s).
       Inr (e, with_sys s (x\<lparr>c_byte := b\<rparr>)))"
| "task_iteration mpidr x Mailbox_Disp =
     bind_exec (mailbox_dispatcher_task mpidr (c_out x, k_sys (c_kernel x))) (\<lambda>(out, s).
       Inr (Yielded, with_sys s (x\<lparr>c_out := out\<rparr>)))"

text \<open>The task whose code the linker has put at an address.\<close>

definition task_at :: "(task \<Rightarrow> u64) \<Rightarrow> u64 \<Rightarrow> task option" where
  "task_at entry a = List.find (\<lambda>t. entry t = a) [Uart_Rx, Ring_Consumer, Mailbox_Disp]"

definition run_slice :: "u64 \<Rightarrow> (task \<Rightarrow> u64) \<Rightarrow> core_state \<Rightarrow> (task_end \<times> core_state) exec" where
  "run_slice mpidr entry x =
     (let k = c_kernel x; core = unat (get_core_id mpidr); cur = task_pool k ! core ! unat (current_task k ! core) in
      case task_at entry (t_entry cur) of
        None \<Rightarrow> Inl OutOfBounds
      | Some t \<Rightarrow> bind_exec (task_iteration mpidr x t) (\<lambda>(e, x).
          if e = Parked then Inr (Parked, x)
          else bind_exec (task_yield mpidr (c_kernel x)) (\<lambda>(_, k). Inr (Yielded, x\<lparr>c_kernel := k\<rparr>))))"

primrec run_slices :: "u64 \<Rightarrow> (task \<Rightarrow> u64) \<Rightarrow> nat \<Rightarrow> core_state \<Rightarrow> (task_end \<times> core_state) exec" where
  "run_slices mpidr entry 0 x = Inr (Yielded, x)"
| "run_slices mpidr entry (Suc n) x = bind_exec (run_slice mpidr entry x) (\<lambda>(e, x).
     if e = Parked then Inr (Parked, x) else run_slices mpidr entry n x)"

lemma task_at_entry: "inj entry \<Longrightarrow> task_at entry (entry t) = Some t"
  by (cases t) (auto simp: task_at_def inj_eq)

lemma with_sys_simps [simp]:
  "k_sys (c_kernel (with_sys s x)) = s" "c_uart (with_sys s x) = c_uart x"
  "task_pool (c_kernel (with_sys s x)) = task_pool (c_kernel x)"
  "current_task (c_kernel (with_sys s x)) = current_task (c_kernel x)"
  "running c (c_kernel (with_sys s x)) = running c (c_kernel x)"
  "states c (c_kernel (with_sys s x)) = states c (c_kernel x)"
  "current c (c_kernel (with_sys s x)) = current c (c_kernel x)"
  by (simp_all add: with_sys_def running_def sched_ok_def states_def current_def)

definition entries :: "nat \<Rightarrow> kernel \<Rightarrow> u64 list" where
  "entries c k = map t_entry (take (unat (task_count k ! c)) (task_pool k ! c))"

lemma entries_with_sys [simp]: "entries c (c_kernel (with_sys s x)) = entries c (c_kernel x)"
  by (simp add: entries_def with_sys_def)

lemma entries_state_change:
  "entries c (update_tcb d i (\<lambda>t. t\<lparr>t_state := st\<rparr>) k) = entries c k" "entries c (k\<lparr>current_task := x\<rparr>) = entries c k"
  "entries c (k\<lparr>k_sys := s\<rparr>) = entries c k"
proof -
  have upd: "map t_entry (take n (xs[i := (xs ! i)\<lparr>t_state := st\<rparr>])) = map t_entry (take n xs)" for xs n
    by (cases "i < length xs") (auto simp: list_eq_iff_nth_eq nth_list_update)
  show "entries c (update_tcb d i (\<lambda>t. t\<lparr>t_state := st\<rparr>) k) = entries c k"
    by (cases "d < length (task_pool k)"; cases "d = c") (auto simp: entries_def update_tcb_def upd not_less list_update_beyond)
qed (simp_all add: entries_def)

lemma yield_entries: "task_yield mpidr k = Inr (sw, k') \<Longrightarrow> entries c k' = entries c k"
  by (auto simp: task_yield_def Let_def bind_exec_Inr_iff entries_state_change split: if_splits)

lemma run_entries: "sched_run mpidr k = Inr k' \<Longrightarrow> entries c k' = entries c k"
  by (auto simp: sched_run_def Let_def on_sys_def entries_state_change split: if_splits)

text \<open>One slice of a core whose tasks are all ready.\<close>

lemma slice_at:
  assumes core: "on_core mpidr c" and inj: "inj entry" and ent: "entries c (c_kernel x) = map entry ts"
    and i: "current c (c_kernel x) = i" "i < length ts"
  shows "run_slice mpidr entry x = bind_exec (task_iteration mpidr x (ts ! i)) (\<lambda>(e, x).
          if e = Parked then Inr (Parked, x)
          else bind_exec (task_yield mpidr (c_kernel x)) (\<lambda>(_, k). Inr (Yielded, x\<lparr>c_kernel := k\<rparr>)))"
proof -
  let ?row = "take (unat (task_count (c_kernel x) ! c)) (task_pool (c_kernel x) ! c)"
  have row: "length ?row = length ts" using arg_cong [OF ent, of length] by (simp add: entries_def)
  have "t_entry (?row ! i) = entry (ts ! i)"
    using arg_cong [OF ent, of "\<lambda>es. es ! i"] i(2) row by (simp add: entries_def)
  moreover have "?row ! i = task_pool (c_kernel x) ! c ! i" using i(2) row by (intro nth_take) simp
  ultimately show ?thesis
    using core i(1) by (simp add: run_slice_def Let_def on_core_def current_def task_at_entry [OF inj])
qed

text \<open>The yield at the end of a slice passes the turn to the next task.\<close>

lemma yield_turn:
  assumes "running c (c_kernel x)" and "on_core mpidr c" and "rotation n (states c (c_kernel x), i)" "current c (c_kernel x) = i"
  shows "\<exists>sw k. task_yield mpidr (c_kernel x) = Inr (sw, k) \<and> k_sys k = k_sys (c_kernel x) \<and> running c k \<and>
    rotation n (states c k, Suc i mod n) \<and> current c k = Suc i mod n \<and> entries c k = entries c (c_kernel x)"
proof -
  have "abs_sched c (c_kernel x) = (states c (c_kernel x), i)" using assms(4) by (simp add: abs_sched_def)
  then obtain sw k where k: "task_yield mpidr (c_kernel x) = Inr (sw, k)" "running c k"
    "(sw, abs_sched c k) = abs_yield (states c (c_kernel x), i)" "k_sys k = k_sys (c_kernel x)"
    using task_yield_abs [OF assms(1,2)] by auto
  have "snd (abs_yield (states c (c_kernel x), i)) = (states c k, current c k)"
    using k(3) by (metis abs_sched_def snd_conv)
  then have "rotation n (states c k, current c k)" "current c k = Suc i mod n"
    using rotation_yield [OF assms(3)] by (metis snd_conv)+
  with k yield_entries [OF k(1)] show ?thesis by auto
qed

lemma slice_step:
  assumes run: "running c (c_kernel x)" and core: "on_core mpidr c" and inj: "inj entry"
    and rot: "rotation n (states c (c_kernel x), i)" "current c (c_kernel x) = i"
    and ent: "entries c (c_kernel x) = map entry ts" "i < length ts"
    and it: "task_iteration mpidr x (ts ! i) = Inr (e, with_sys s y)" "c_kernel y = c_kernel x"
  shows "\<exists>x'. run_slice mpidr entry x = Inr (e, x') \<and> k_sys (c_kernel x') = s \<and> c_uart x' = c_uart y \<and> c_out x' = c_out y \<and>
    (e = Yielded \<longrightarrow> running c (c_kernel x') \<and> rotation n (states c (c_kernel x'), Suc i mod n) \<and>
      current c (c_kernel x') = Suc i mod n \<and> entries c (c_kernel x') = map entry ts)"
proof -
  note at = slice_at [OF core inj ent(1) rot(2) ent(2)]
  have "running c (c_kernel (with_sys s y))" "rotation n (states c (c_kernel (with_sys s y)), i)"
    "current c (c_kernel (with_sys s y)) = i" using run rot it(2) by simp_all
  from yield_turn [OF this(1) core this(2,3)] show ?thesis
    using at it ent(1) by (cases e) (auto simp: with_sys_def entries_state_change)
qed

section \<open>Core 0: the keyboard\<close>

text \<open>Both tasks ready, the receiving one about to run, nothing in the ring.\<close>

definition keyboard_ready :: "(task \<Rightarrow> u64) \<Rightarrow> core_state \<Rightarrow> bool" where
  [inv_defs]: "keyboard_ready entry x \<longleftrightarrow> running 0 (c_kernel x) \<and> states 0 (c_kernel x) = [TASK_RUNNING, TASK_READY] \<and>
     current 0 (c_kernel x) = 0 \<and> entries 0 (c_kernel x) = map entry [Uart_Rx, Ring_Consumer] \<and>
     sys_ok (k_sys (c_kernel x)) \<and> sys_lock (k_sys (c_kernel x)) = 0 \<and>
     rb_list (sys_ring (k_sys (c_kernel x))) = [] \<and> rx_fair (c_uart x)"

lemma rotation_2: "rotation 2 (sts, 0) \<longleftrightarrow> sts = [TASK_RUNNING, TASK_READY]"
  by (cases sts; cases "tl sts") (auto simp: rotation_def numeral_2_eq_2 less_Suc_eq all_conj_distrib)

text \<open>On an empty ring, the receiving task leaves there what it has read, and the other task echoes it.\<close>

lemma rx_into_empty:
  assumes "rx_fair u" "sys_ok s" and empty: "rb_list (sys_ring s) = []"
  obtains u' s' where "uart_rx_task (u, s) = Inr (u', s')" "same_device u u'" "length (keys_read u u') \<le> 1"
    "keys_read u u' = [] \<longrightarrow> \<not> has_data (fr_env u (fr_reads u))" "rb_list (sys_ring s') = keys_read u u'"
    "sys_ok s'" "sys_lock s' = sys_lock s" "sys_console s' = sys_console s"
    "sys_mailboxes s' = sys_mailboxes s" "sys_key s' = sys_key s"
proof -
  have ring: "rb_ok (sys_ring s)" using assms(2) by (simp add: sys_ok_def)
  from rx_cases [OF assms(1) ring, where thesis = thesis] show thesis
    using that assms(2) empty by (auto simp: sys_ok_def)
qed

lemma echo_and_empty:
  assumes "sys_ok s" "sys_lock s = 0" and keys: "rb_list (sys_ring s) = keys" "length keys \<le> 1"
  obtains e b s' where "ring_consumer_task (byte, s) = Inr (e, b, s')" "rb_list (sys_ring s') = []" "sys_ok s'"
    "sys_console s' = sys_console s @ concat (map echo_text keys)"
    "if 3 \<in> set keys then e = Parked \<and> sys_lock s' = 1 else e = Yielded \<and> sys_lock s' = 0"
    "sys_mailboxes s' = sys_mailboxes s" "sys_key s' = sys_key s"
proof -
  have ring: "rb_ok (sys_ring s)" using assms(1) by (simp add: sys_ok_def)
  show thesis
  proof (cases keys)
    case Nil
    with consumer_none [OF ring, of byte] that assms show thesis by simp
  next
    case (Cons k ks)
    with keys have k: "keys = [k]" by simp
    with keys(1) consumer_some [OF ring _ assms(2), of k "[]" byte] obtain rb where "rb_ok rb" "rb_list rb = []"
      "ring_consumer_task (byte, s) =
        Inr (if k = 3 then (Parked, k, log_text (echo_text k) (s\<lparr>sys_ring := rb, sys_lock := 1\<rparr>))
             else (Yielded, k, log_text (echo_text k) (s\<lparr>sys_ring := rb\<rparr>)))" by auto
    with k assms(1,2) show thesis
      by (cases "k = 3") (rule that, simp, simp_all add: sys_ok_def)+
  qed
qed

text \<open>A slice of each task.\<close>

lemma keyboard_round:
  assumes ready: "keyboard_ready entry x" and core: "on_core mpidr 0" and inj: "inj entry"
  shows "\<exists>e x' keys. run_slices mpidr entry 2 x = Inr (e, x') \<and> same_device (c_uart x) (c_uart x') \<and>
    keys = keys_read (c_uart x) (c_uart x') \<and> length keys \<le> 1 \<and>
    (keys = [] \<longrightarrow> \<not> has_data (fr_env (c_uart x) (fr_reads (c_uart x)))) \<and>
    rb_list (sys_ring (k_sys (c_kernel x'))) = [] \<and>
    sys_console (k_sys (c_kernel x')) = sys_console (k_sys (c_kernel x)) @ concat (map echo_text keys) \<and>
    (if 3 \<in> set keys then e = Parked \<and> sys_lock (k_sys (c_kernel x')) = 1 else e = Yielded \<and> keyboard_ready entry x')"
proof -
  let ?s = "k_sys (c_kernel x)"
  let ?ts = "[Uart_Rx, Ring_Consumer]"
  have r: "running 0 (c_kernel x)" "rotation 2 (states 0 (c_kernel x), 0)" "current 0 (c_kernel x) = 0"
    "entries 0 (c_kernel x) = map entry ?ts" and s: "rb_list (sys_ring ?s) = []" "sys_lock ?s = 0" "sys_ok ?s" "rx_fair (c_uart x)"
    using ready by (auto simp: keyboard_ready_def rotation_2)
  obtain u sa where rx: "uart_rx_task (c_uart x, ?s) = Inr (u, sa)" "same_device (c_uart x) u"
    "length (keys_read (c_uart x) u) \<le> 1"
    "keys_read (c_uart x) u = [] \<longrightarrow> \<not> has_data (fr_env (c_uart x) (fr_reads (c_uart x)))"
    "rb_list (sys_ring sa) = keys_read (c_uart x) u" "sys_ok sa" "sys_lock sa = 0" "sys_console sa = sys_console ?s"
    using rx_into_empty [OF s(4,3,1)] s(2) by metis
  have "task_iteration mpidr x (?ts ! 0) = Inr (Yielded, with_sys sa (x\<lparr>c_uart := u\<rparr>))"
    by (simp add: rx(1))
  from slice_step [OF r(1) core inj r(2,3,4) _ this] obtain x1 where
    x1: "run_slice mpidr entry x = Inr (Yielded, x1)" "k_sys (c_kernel x1) = sa" "c_uart x1 = u" "running 0 (c_kernel x1)"
    "rotation 2 (states 0 (c_kernel x1), 1)" "current 0 (c_kernel x1) = 1" "entries 0 (c_kernel x1) = map entry ?ts"
    by auto
  obtain e b sb where con: "ring_consumer_task (c_byte x1, sa) = Inr (e, b, sb)" "rb_list (sys_ring sb) = []"
    "sys_ok sb" "sys_console sb = sys_console ?s @ concat (map echo_text (keys_read (c_uart x) u))"
    "if 3 \<in> set (keys_read (c_uart x) u) then e = Parked \<and> sys_lock sb = 1 else e = Yielded \<and> sys_lock sb = 0"
    using echo_and_empty [OF rx(6,7,5,3), of "c_byte x1"] rx(8) by metis
  have "task_iteration mpidr x1 (?ts ! 1) = Inr (e, with_sys sb (x1\<lparr>c_byte := b\<rparr>))"
    using con(1) by (simp add: x1(2))
  from x1(3) slice_step [OF x1(4) core inj x1(5,6,7) _ this] obtain x2 where
    x2: "run_slice mpidr entry x1 = Inr (e, x2)" "k_sys (c_kernel x2) = sb" "c_uart x2 = u"
    "e = Yielded \<longrightarrow> running 0 (c_kernel x2) \<and> rotation 2 (states 0 (c_kernel x2), 0) \<and>
       current 0 (c_kernel x2) = 0 \<and> entries 0 (c_kernel x2) = map entry ?ts"
    by auto
  have "run_slices mpidr entry 2 x = Inr (e, x2)"
    using x1(1) x2(1) by (cases e) (simp_all add: numeral_2_eq_2)
  moreover have "keyboard_ready entry x2" if "3 \<notin> set (keys_read (c_uart x) u)"
    using that x2(2-4) con(2,3,5) same_device_fair [OF rx(2) s(4)] by (simp add: keyboard_ready_def rotation_2)
  ultimately show ?thesis
    using rx(2-4) con(2,4,5) x2(2,3) by auto
qed

lemma run_slices_add:
  "run_slices mpidr entry (m + n) x = bind_exec (run_slices mpidr entry m x) (\<lambda>(e, x).
     if e = Parked then Inr (Parked, x) else run_slices mpidr entry n x)"
  by (induction m arbitrary: x) (auto simp: bind_exec_assoc split: prod.split intro!: arg_cong [where f = "bind_exec _"])

lemma keyboard_rounds:
  assumes "keyboard_ready entry x" and core: "on_core mpidr 0" and inj: "inj entry"
  shows "\<exists>e x' keys. run_slices mpidr entry (2 * n) x = Inr (e, x') \<and> same_device (c_uart x) (c_uart x') \<and>
    keys = keys_read (c_uart x) (c_uart x') \<and> length keys \<le> n \<and>
    ((\<forall>i. has_data (fr_env (c_uart x) i)) \<and> 3 \<notin> set keys \<longrightarrow> length keys = n) \<and>
    rb_list (sys_ring (k_sys (c_kernel x'))) = [] \<and>
    sys_console (k_sys (c_kernel x')) = sys_console (k_sys (c_kernel x)) @ concat (map echo_text keys) \<and>
    (if 3 \<in> set keys then e = Parked \<and> sys_lock (k_sys (c_kernel x')) = 1 \<and> (\<exists>ks. keys = ks @ [3] \<and> 3 \<notin> set ks)
     else e = Yielded \<and> keyboard_ready entry x')"
  using assms(1)
proof (induction n arbitrary: x)
  case 0
  then show ?case by (simp add: keyboard_ready_def)
next
  case (Suc n)
  obtain e1 x1 k1 where x1: "run_slices mpidr entry 2 x = Inr (e1, x1)" "same_device (c_uart x) (c_uart x1)"
    "k1 = keys_read (c_uart x) (c_uart x1)" "length k1 \<le> 1"
    "k1 = [] \<longrightarrow> \<not> has_data (fr_env (c_uart x) (fr_reads (c_uart x)))"
    "rb_list (sys_ring (k_sys (c_kernel x1))) = []"
    "sys_console (k_sys (c_kernel x1)) = sys_console (k_sys (c_kernel x)) @ concat (map echo_text k1)"
    "if 3 \<in> set k1 then e1 = Parked \<and> sys_lock (k_sys (c_kernel x1)) = 1 else e1 = Yielded \<and> keyboard_ready entry x1"
    using keyboard_round [OF Suc.prems core inj] by blast
  have split: "run_slices mpidr entry (2 * Suc n) x =
      (if e1 = Parked then Inr (Parked, x1) else run_slices mpidr entry (2 * n) x1)"
    using run_slices_add [of mpidr entry 2 "2 * n" x] x1(1) by simp
  show ?case
  proof (cases "3 \<in> set k1")
    case True
    then have "k1 = [3]" using x1(4) by (cases k1) auto
    with True split x1 show ?thesis by (intro exI [of _ Parked] exI [of _ x1] exI [of _ k1]) simp
  next
    case False
    with x1(8) have "keyboard_ready entry x1" "e1 = Yielded" by simp_all
    from Suc.IH [OF this(1)] obtain e x' keys where x': "run_slices mpidr entry (2 * n) x1 = Inr (e, x')"
      "same_device (c_uart x1) (c_uart x')" "keys = keys_read (c_uart x1) (c_uart x')" "length keys \<le> n"
      "(\<forall>i. has_data (fr_env (c_uart x1) i)) \<and> 3 \<notin> set keys \<longrightarrow> length keys = n"
      "rb_list (sys_ring (k_sys (c_kernel x'))) = []"
      "sys_console (k_sys (c_kernel x')) = sys_console (k_sys (c_kernel x1)) @ concat (map echo_text keys)"
      "if 3 \<in> set keys then e = Parked \<and> sys_lock (k_sys (c_kernel x')) = 1 \<and> (\<exists>ks. keys = ks @ [3] \<and> 3 \<notin> set ks)
       else e = Yielded \<and> keyboard_ready entry x'"
      by blast
    have env: "fr_env (c_uart x1) = fr_env (c_uart x)" using x1(2) by (simp add: same_device_def)
    have one: "length k1 = 1" if "\<forall>i. has_data (fr_env (c_uart x) i)"
      using that x1(4,5) by (cases k1) auto
    have last: "\<exists>ks. k1 @ keys = ks @ [3] \<and> 3 \<notin> set ks" if "\<exists>ks. keys = ks @ [3] \<and> 3 \<notin> set ks"
      using that False by (metis append.assoc set_append Un_iff)
    have "run_slices mpidr entry (2 * Suc n) x = Inr (e, x')" using split x'(1) \<open>e1 = Yielded\<close> by simp
    moreover have "k1 @ keys = keys_read (c_uart x) (c_uart x')"
      using keys_read_append [OF x1(2) x'(2)] x1(3) x'(3) by simp
    moreover have "length (k1 @ keys) \<le> Suc n" using x1(4) x'(4) by simp
    moreover have "same_device (c_uart x) (c_uart x')" using same_device_trans [OF x1(2) x'(2)] .
    moreover have "(\<forall>i. has_data (fr_env (c_uart x) i)) \<and> 3 \<notin> set (k1 @ keys) \<longrightarrow> length (k1 @ keys) = Suc n"
      using x'(5) one by (auto simp: env)
    moreover have "sys_console (k_sys (c_kernel x')) =
        sys_console (k_sys (c_kernel x)) @ concat (map echo_text (k1 @ keys))"
      by (simp add: x'(7) x1(7))
    moreover have "if 3 \<in> set (k1 @ keys) then e = Parked \<and> sys_lock (k_sys (c_kernel x')) = 1 \<and>
        (\<exists>ks. k1 @ keys = ks @ [3] \<and> 3 \<notin> set ks) else e = Yielded \<and> keyboard_ready entry x'"
      using x'(8) False last by (auto split: if_splits)
    ultimately show ?thesis using x'(6) by blast
  qed
qed

text \<open>What \<^verbatim>\<open>main\<close> leaves is such a state.\<close>

definition core_after :: "uart \<Rightarrow> u8 \<Rightarrow> message_out \<Rightarrow> kernel \<Rightarrow> core_state" where
  "core_after u b out k = \<lparr>c_uart = u, c_byte = b, c_out = out, c_kernel = k\<rparr>"

lemma keyboard_ready_after:
  assumes "states 0 k = [TASK_RUNNING, TASK_READY]" "current 0 k = 0" "running 0 k"
    "take 2 (map t_entry (task_pool k ! 0)) = [entry Uart_Rx, entry Ring_Consumer]"
    "view slots UNIV (k_sys k)" "rb_list (sys_ring (k_sys k)) = []" "rx_fair u"
  shows "keyboard_ready entry (core_after u b out k)"
proof -
  have "unat (task_count k ! 0) = 2"
    using assms(1,3) length_states [of 0 k] by (simp add: running_def)
  then have "entries 0 k = map entry [Uart_Rx, Ring_Consumer]"
    using assms(4) by (simp add: entries_def take_map)
  moreover have "sys_ok (k_sys k)"
    using assms(5) mail_reach_inv by (auto simp: view_def mail_inv_def)
  ultimately show ?thesis
    using assms by (simp add: keyboard_ready_def core_after_def view_def)
qed

section \<open>Core 3: the mailbox task\<close>

lemma receive_out:
  "mailbox_receive c out s = bind_exec (mailbox_receive c out' s) (\<lambda>(r, m, s). Inr (r, if r = 1 then m else out, s))"
  unfolding mailbox_receive_def bind_exec_assoc
  by (rule arg_cong [where f = "bind_exec _"], rule ext)
    (auto simp: Let_def bind_exec_assoc split: prod.split intro!: arg_cong [where f = "bind_exec _"])

text \<open>The task's local variables do not matter to what it does to the shared state.\<close>

lemma mailbox_task_out:
  "bind_exec (mailbox_dispatcher_task mpidr (out, s)) (\<lambda>(_, s). Inr s) =
   bind_exec (mailbox_dispatcher_task mpidr (out', s)) (\<lambda>(_, s). Inr s)"
  unfolding mailbox_dispatcher_task_def Let_def prod.case
  by (subst receive_out [where out' = out'])
    (auto simp: bind_exec_assoc split: prod.split intro!: arg_cong [where f = "bind_exec _"])

text \<open>Running its only task is what \<open>core3_iterations\<close> says.\<close>

definition mailbox_ready :: "(task \<Rightarrow> u64) \<Rightarrow> core_state \<Rightarrow> bool" where
  [inv_defs]: "mailbox_ready entry x \<longleftrightarrow> running 3 (c_kernel x) \<and> states 3 (c_kernel x) = [TASK_RUNNING] \<and>
     current 3 (c_kernel x) = 0 \<and> entries 3 (c_kernel x) = [entry Mailbox_Disp]"

abbreviation run_system :: "(task_end \<times> core_state) exec \<Rightarrow> system exec" where
  "run_system r \<equiv> bind_exec r (\<lambda>(_, x). Inr (k_sys (c_kernel x)))"

lemma core3_slices:
  assumes "mailbox_ready entry x" and core: "on_core mpidr 3" and inj: "inj entry"
  shows "run_system (run_slices mpidr entry n x) = core3_iterations mpidr n (k_sys (c_kernel x))"
  using assms(1)
proof (induction n arbitrary: x)
  case 0
  then show ?case by simp
next
  case (Suc n)
  have r: "running 3 (c_kernel x)" "rotation 1 (states 3 (c_kernel x), 0)" "current 3 (c_kernel x) = 0"
    "entries 3 (c_kernel x) = map entry [Mailbox_Disp]"
    using Suc.prems by (simp_all add: mailbox_ready_def rotation_def)
  note any = mailbox_task_out [of mpidr "c_out x" "k_sys (c_kernel x)" "(0, 0, 0)"]
  show ?case
  proof (cases "mailbox_dispatcher_task mpidr (c_out x, k_sys (c_kernel x))")
    case (Inl stuck)
    moreover from this any have "mailbox_dispatcher_task mpidr ((0, 0, 0), k_sys (c_kernel x)) = Inl stuck"
      by (cases "mailbox_dispatcher_task mpidr ((0, 0, 0), k_sys (c_kernel x))") auto
    moreover note slice_at [OF core inj r(4,3)]
    ultimately show ?thesis by simp
  next
    case (Inr r1)
    then obtain out s where it: "mailbox_dispatcher_task mpidr (c_out x, k_sys (c_kernel x)) = Inr (out, s)"
      by (cases r1) auto
    then have "task_iteration mpidr x ([Mailbox_Disp] ! 0) = Inr (Yielded, with_sys s (x\<lparr>c_out := out\<rparr>))" by simp
    from slice_step [OF r(1) core inj r(2,3,4) _ this] obtain x1 where
      x1: "run_slice mpidr entry x = Inr (Yielded, x1)" "k_sys (c_kernel x1) = s" "running 3 (c_kernel x1)"
      "rotation 1 (states 3 (c_kernel x1), 0)" "current 3 (c_kernel x1) = 0" "entries 3 (c_kernel x1) = [entry Mailbox_Disp]"
      by auto
    have "states 3 (c_kernel x1) = [TASK_RUNNING]"
      using x1(4) by (cases "states 3 (c_kernel x1)") (auto simp: rotation_def)
    with x1(3,5,6) have "mailbox_ready entry x1" by (simp add: mailbox_ready_def)
    from Suc.IH [OF this] x1(1,2) it any show ?thesis
      by (cases "mailbox_dispatcher_task mpidr ((0, 0, 0), k_sys (c_kernel x))") auto
  qed
qed

text \<open>The state in which \<^verbatim>\<open>secondary_main\<close> leaves core 3.\<close>

lemma mailbox_ready_after:
  assumes ok: "sched_ok 3 k" and core: "on_core mpidr 3" and none: "task_count k ! 3 = 0"
  shows "\<exists>k'. core3_main mpidr entry k = Inr k' \<and> mailbox_ready entry (core_after u b out k')"
proof -
  have st: "states 3 k = []" by (simp add: states_def none)
  obtain k1 where k1: "sched_add_task mpidr (mailbox_job entry) k = Inr k1" "sched_ok 3 k1" "states 3 k1 = [TASK_READY]"
    "unat (task_count k1 ! 3) = 1" "t_entry (task_pool k1 ! 3 ! 0) = entry Mailbox_Disp"
    using sched_add_task_eq [OF ok core, of "mailbox_job entry"] none st by (auto simp: mailbox_job_def Let_def)
  have "task_count k1 ! 3 \<noteq> 0" using k1(4) by auto
  then obtain k2 where k2: "sched_run mpidr k1 = Inr k2" "running 3 k2" "current 3 k2 = 0" "states 3 k2 = [TASK_RUNNING]"
    using sched_run_eq [OF k1(2) core] k1(3) by auto
  have "length (task_pool k1 ! 3) = 8" using k1(2) by (simp add: sched_ok_def)
  then have "entries 3 k1 = [entry Mailbox_Disp]"
    using k1(4,5) by (cases "task_pool k1 ! 3") (auto simp: entries_def)
  with k2 k1(1) run_entries [OF k2(1)] show ?thesis
    by (auto simp: core3_main_def mailbox_ready_def core_after_def)
qed

section \<open>Properties\<close>

text \<open>
  Property C11: from the reset to the echo.  \<^verbatim>\<open>main\<close> reaches its two tasks, and from there, however
  long core 0 runs, the scheduler alternates them so that every key read from the device is on the
  console before the next is read: none is dropped, none waits in the ring.  If data is always
  there, \<open>n\<close> rounds echo \<open>n\<close> keys.  The core goes on until a Ctrl-C has been echoed; then it parks,
  holding the lock.
\<close>
theorem core0_echoes_keys:
  assumes "reset_state m" and "clock_runs (m_timer m)" and "10 \<le> length (filter is_timer iars)"
    and "mpidr AND 0xFF = 0" and "get_cpu_id m3 = 3" and "\<And>n. k n > 0"
    and "inj entry" and "rx_fair u"
  shows "\<exists>m' e x keys. main mpidr hvc start entry (core3_delay m3 k) quiet iars out m = Inr m' \<and>
    run_slices mpidr entry (2 * n) (core_after u b out' (m_kernel m')) = Inr (e, x) \<and>
    keys = keys_read u (c_uart x) \<and>
    sys_console (k_sys (c_kernel x)) = sys_console (k_sys (m_kernel m')) @ concat (map echo_text keys) \<and>
    rb_list (sys_ring (k_sys (c_kernel x))) = [] \<and> length keys \<le> n \<and>
    ((\<forall>i. has_data (fr_env u i)) \<and> 3 \<notin> set keys \<longrightarrow> length keys = n) \<and>
    (if 3 \<in> set keys then e = Parked \<and> sys_lock (k_sys (c_kernel x)) = 1 \<and> (\<exists>ks. keys = ks @ [3] \<and> 3 \<notin> set ks)
     else e = Yielded \<and> sys_lock (k_sys (c_kernel x)) = 0 \<and> states 0 (c_kernel x) = [TASK_RUNNING, TASK_READY])"
proof -
  obtain m' where m': "main mpidr hvc start entry (core3_delay m3 k) quiet iars out m = Inr m'"
    "states 0 (m_kernel m') = [TASK_RUNNING, TASK_READY]" "current 0 (m_kernel m') = 0" "running 0 (m_kernel m')"
    "take 2 (map t_entry (task_pool (m_kernel m') ! 0)) = [entry Uart_Rx, entry Ring_Consumer]"
    "view [Empty, ping 1, ping 2, Empty] UNIV (k_sys (m_kernel m'))" "rb_list (sys_ring (k_sys (m_kernel m'))) = []"
    using main_run [where k = k, OF assms(1-6)] by blast
  note ready = keyboard_ready_after [OF m'(2-7) assms(8), of b out']
  from keyboard_rounds [OF ready cpu_0(1) [OF assms(4)] assms(7), of n] m'(1) show ?thesis
    by (fastforce simp: core_after_def keyboard_ready_def)
qed

definition code_at :: "task \<Rightarrow> u64" where
  "code_at t = (case t of Uart_Rx \<Rightarrow> 0x40081000 | Ring_Consumer \<Rightarrow> 0x40081100 | Mailbox_Disp \<Rightarrow> 0x40081200)"

lemma code_at_inj: "inj code_at"
  by (auto simp: inj_def code_at_def split: task.splits)

text \<open>A, B and Ctrl-C are typed.\<close>

lemma core0_echoes_keys_witness:
  "\<exists>m' x. main 0x80000000 (\<lambda>_ _ _ _. 0) 0x40080000 code_at (core3_delay 0x80000003 (\<lambda>_. 1)) []
       (replicate 10 30) (0, 0, 0) reset_machine = Inr m' \<and>
     run_slices 0x80000000 code_at 10 (core_after (typing 2) 0 (0, 0, 0) (m_kernel m')) = Inr (Parked, x) \<and>
     sys_console (k_sys (c_kernel x)) = sys_console (k_sys (m_kernel m')) @ ''AB'' @ puts_text ctrl_c_text"
proof -
  have irqs: "10 \<le> length (filter is_timer (replicate 10 30))" by simp
  have busy: "(1 :: nat) > 0" by simp
  obtain m' e x keys where
    run: "main 0x80000000 (\<lambda>_ _ _ _. 0) 0x40080000 code_at (core3_delay 0x80000003 (\<lambda>_. 1)) []
       (replicate 10 30) (0, 0, 0) reset_machine = Inr m'"
      "run_slices 0x80000000 code_at (2 * 5) (core_after (typing 2) 0 (0, 0, 0) (m_kernel m')) = Inr (e, x)"
    and keys: "keys = keys_read (typing 2) (c_uart x)" "length keys \<le> 5"
      "(\<forall>i. has_data (fr_env (typing 2) i)) \<and> 3 \<notin> set keys \<longrightarrow> length keys = 5"
    and con: "sys_console (k_sys (c_kernel x)) = sys_console (k_sys (m_kernel m')) @ concat (map echo_text keys)"
    and stop: "if 3 \<in> set keys then e = Parked \<and> sys_lock (k_sys (c_kernel x)) = 1 \<and> (\<exists>ks. keys = ks @ [3] \<and> 3 \<notin> set ks)
       else e = Yielded \<and> sys_lock (k_sys (c_kernel x)) = 0 \<and> states 0 (c_kernel x) = [TASK_RUNNING, TASK_READY]"
    using core0_echoes_keys [OF reset_machine_ok(1,2) irqs reset_machine_ok(3,4) busy code_at_inj typing_fair [of 2],
        where n = 5 and hvc = "\<lambda>_ _ _ _. 0" and start = "0x40080000" and quiet = "[]" and out = "(0, 0, 0)"
        and b = 0 and out' = "(0, 0, 0)"] by blast
  have ks: "keys = map (\<lambda>i. ucast (if i = 2 then 3 else 0x41 + of_nat i :: u32)) [0..<dr_reads (c_uart x)]"
    unfolding keys(1) by (simp add: keys_read_def typing_def)
  have "\<forall>i. has_data (fr_env (typing 2) i)" by (simp add: typing_def has_data_def)
  with keys(2,3) have len: "3 \<in> set keys \<or> dr_reads (c_uart x) = 5" "dr_reads (c_uart x) \<le> 5"
    by (auto simp: ks simp del: upt_Suc)
  have upts: "[0..<0] = []" "[0..<1] = [0]" "[0..<2] = [0, 1]" "[0..<4] = [0, 1, 2, 3]" "[0..<5] = [0, 1, 2, 3, 4 :: nat]"
    by (simp_all add: upt_rec)
  have "3 \<in> set keys" using len(1)
  proof
    assume "dr_reads (c_uart x) = 5"
    then show "3 \<in> set keys" by (simp only: ks upts) simp
  qed
  with stop obtain pre where pre: "keys = pre @ [3]" "3 \<notin> set pre" "e = Parked" by auto
  have "dr_reads (c_uart x) = 3"
  proof -
    consider "dr_reads (c_uart x) = 0" | "dr_reads (c_uart x) = 1" | "dr_reads (c_uart x) = 2" |
      "dr_reads (c_uart x) = 3" | "dr_reads (c_uart x) = 4" | "dr_reads (c_uart x) = 5" using len(2) by linarith
    moreover have "keys \<noteq> []" "last keys = 3" using pre(1) by simp_all
    ultimately show ?thesis by cases (simp_all only: ks upts, simp_all)
  qed
  moreover have "[0..<3] = [0, 1, 2 :: nat]" by (simp add: upt_rec)
  ultimately have "keys = [0x41, 0x42, 3]" by (simp add: ks)
  then have "concat (map echo_text keys) = ''AB'' @ puts_text ctrl_c_text"
    by (simp add: echo_text_def uart_key_event_def char_of_eq_iff)
  with run con pre(3) show ?thesis by auto
qed

text \<open>
  Property C39: core 3 answers as long as it runs.  \<^verbatim>\<open>secondary_main\<close> registers the mailbox task and
  enters it, and from there \<open>n\<close> slices of scheduler and task have the effect of \<open>n\<close> iterations
  of the task on the shared state, and spin exactly when they do: what the models of \<^verbatim>\<open>main\<close> and of
  the tests assume of core 3 during a delay.
\<close>
theorem core3_runs:
  assumes "sched_ok 3 k" and "on_core mpidr 3" and "task_count k ! 3 = 0" and "inj entry"
  shows "\<exists>k'. core3_main mpidr entry k = Inr k' \<and> (\<forall>s n.
    run_system (run_slices mpidr entry n (with_sys s (core_after u b out k'))) = core3_iterations mpidr n s)"
proof -
  obtain k' where k': "core3_main mpidr entry k = Inr k'" "mailbox_ready entry (core_after u b out k')"
    using mailbox_ready_after [OF assms(1-3)] by blast
  have "mailbox_ready entry (with_sys s (core_after u b out k'))" for s
    using k'(2) by (simp add: mailbox_ready_def)
  from core3_slices [OF this assms(2,4)] k'(1) show ?thesis by auto
qed

lemma core3_runs_witness:
  "\<exists>k'. core3_main 0x80000003 code_at zero_kernel = Inr k' \<and>
     run_system (run_slices 0x80000003 code_at 7 (with_sys booted (core_after (typing 0) 0 (0, 0, 0) k'))) = Inr booted"
proof -
  have "sched_ok 3 zero_kernel" "on_core 0x80000003 3" "task_count zero_kernel ! 3 = 0"
    using zero_kernel_ok [of 3] by (simp_all add: on_core_def get_core_id_def zero_kernel_def)
  from core3_runs [OF this code_at_inj] obtain k' where
    k': "core3_main 0x80000003 code_at zero_kernel = Inr k'"
    "run_system (run_slices 0x80000003 code_at 7 (with_sys booted (core_after (typing 0) 0 (0, 0, 0) k'))) =
       core3_iterations 0x80000003 7 booted"
    by blast
  have "core3_iterations 0x80000003 7 booted = Inr booted"
    by (rule core3_idle [OF booted_view]) (simp_all add: get_cpu_id_def)
  with k' show ?thesis by auto
qed

end
