(* ===== verification/Cores_Run.thy ===== *)
theory Cores_Run
  imports Core_Run
begin

text \<open>
  Cores 0 and 3 running at the same time, after the boot: slices of core 0's keyboard tasks, the
  four parts of an iteration of core 3's mailbox task, and messages sent to any mailbox, in any
  order.  What is one step here takes no lock or one lock once: a call of \<^verbatim>\<open>mailbox_receive\<close>,
  \<^verbatim>\<open>mailbox_send\<close> or \<^verbatim>\<open>mailbox_clear\<close> (atomic by \<open>Mailbox_Steps\<close>), the section that prints under the global
  lock, a slice of core 0.  Only the text \<^verbatim>\<open>mailbox_receive\<close> prints is not under the global lock: the
  characters of the two cores can mix there, the steps here do not show that.
\<close>

section \<open>The parts of an iteration of the mailbox task\<close>

text \<open>Where core 3 is in the loop of \<^verbatim>\<open>mailbox_dispatcher_task\<close>: about to call or do this.\<close>

datatype phase = At_Receive | At_Print | At_Send | At_Clear

definition mail_core :: "u64 \<Rightarrow> int" where
  "mail_core mpidr = sint (ucast (get_cpu_id mpidr) :: u32)"

fun mail_step :: "u64 \<Rightarrow> phase \<times> message_out \<times> system \<Rightarrow> (phase \<times> message_out \<times> system) exec" where
  "mail_step mpidr (At_Receive, out, s) =
     bind_exec (mailbox_receive (mail_core mpidr) out s) (\<lambda>(r, out, s).
       Inr (if r = 1 then At_Print else At_Receive, out, s))"
| "mail_step mpidr (At_Print, out, s) = bind_exec (locked (rx_line out) s) (\<lambda>s. Inr (At_Send, out, s))"
| "mail_step mpidr (At_Send, (sender, msg_type, msg_data), s) =
     (let ack_data = ucast (ucast msg_data + push_bit 16 (get_cpu_id mpidr) :: u64) in
      bind_exec (mailbox_send mpidr (sint sender) (uint MSG_ACK) ack_data s) (\<lambda>(_, s).
        Inr (At_Clear, (sender, msg_type, msg_data), s)))"
| "mail_step mpidr (At_Clear, out, s) =
     bind_exec (mailbox_clear (mail_core mpidr) s) (\<lambda>s. Inr (At_Receive, out, s))"

text \<open>The parts, run one after the other, are the iteration.\<close>

lemma mailbox_task_parts:
  "mailbox_dispatcher_task mpidr (out, s) =
     bind_exec (mail_step mpidr (At_Receive, out, s)) (\<lambda>(p, out, s).
       if p = At_Receive then Inr (out, s)
       else bind_exec (mail_step mpidr (p, out, s)) (\<lambda>r. bind_exec (mail_step mpidr r) (\<lambda>r.
         bind_exec (mail_step mpidr r) (\<lambda>(p, out, s). Inr (out, s)))))"
  by (auto simp: mailbox_dispatcher_task_def Let_def mail_core_def bind_exec_assoc fun_eq_iff split: prod.split
      intro!: arg_cong [where f = "bind_exec _"])

text \<open>A part of an iteration on a core whose current task is the mailbox task; the last part ends with the yield.\<close>

definition run_part :: "u64 \<Rightarrow> (task \<Rightarrow> u64) \<Rightarrow> phase \<times> core_state \<Rightarrow> (phase \<times> core_state) exec" where
  "run_part mpidr entry = (\<lambda>(p, x).
     let k = c_kernel x; core = unat (get_core_id mpidr); cur = task_pool k ! core ! unat (current_task k ! core) in
     if task_at entry (t_entry cur) = Some Mailbox_Disp then
       bind_exec (mail_step mpidr (p, c_out x, k_sys k)) (\<lambda>(p, out, s).
       let x = with_sys s (x\<lparr>c_out := out\<rparr>) in
       if p = At_Receive then bind_exec (task_yield mpidr (c_kernel x)) (\<lambda>(_, k). Inr (p, x\<lparr>c_kernel := k\<rparr>))
       else Inr (p, x))
     else Inl OutOfBounds)"

section \<open>Runs\<close>

datatype happening =
    Slice u64                  \<comment> \<open>the core with this \<open>mpidr_el1\<close> runs a slice\<close>
  | Part u64                   \<comment> \<open>this core runs a part of the mailbox task's iteration\<close>
  | Message u64 int int u32    \<comment> \<open>a core sends: its \<open>mpidr_el1\<close>, the mailbox, type and data\<close>

text \<open>
  A run ends early if a core parks; it collects the messages accepted for core 3, each with the
  phase core 3 was in then.
\<close>

fun cores_run :: "(task \<Rightarrow> u64) \<Rightarrow> happening list \<Rightarrow> phase \<times> core_state \<Rightarrow>
    (task_end \<times> (phase \<times> message_out) list \<times> phase \<times> core_state) exec" where
  "cores_run entry [] (p, x) = Inr (Yielded, [], p, x)"
| "cores_run entry (Slice mpidr # hs) (p, x) = bind_exec (run_slice mpidr entry x) (\<lambda>(e, x).
     if e = Parked then Inr (Parked, [], p, x) else cores_run entry hs (p, x))"
| "cores_run entry (Part mpidr # hs) (p, x) = bind_exec (run_part mpidr entry (p, x)) (cores_run entry hs)"
| "cores_run entry (Message mpidr c ty d # hs) (p, x) =
     bind_exec (mailbox_send mpidr c ty d (k_sys (c_kernel x))) (\<lambda>(r, s).
     bind_exec (cores_run entry hs (p, with_sys s x)) (\<lambda>(e, ms, y).
       Inr (e, (if r = 0 \<and> c = 3 then (p, delivered (mpidr, ty, d)) # ms else ms), y)))"

text \<open>
  The messages core 3 will not erase.  One that is accepted later than its \<^verbatim>\<open>mailbox_receive\<close> and before its
  \<^verbatim>\<open>mailbox_clear\<close> is erased by the clear (\<open>mailbox_clear_loses_message\<close>).
\<close>

definition kept :: "(phase \<times> message_out) list \<Rightarrow> message_out list" where
  "kept ms = map snd (filter (\<lambda>(p, m). p = At_Receive) ms)"

text \<open>What the two cores print: core 0 the echo of a key, core 3 the tag of a message it receives, and the message.\<close>

datatype printed_part = Echo u8 | Tag "u8 list" | Reply message_out

primrec part_text :: "printed_part \<Rightarrow> string" where
  "part_text (Echo b) = echo_text b"
| "part_text (Tag tag) = receive_log tag"
| "part_text (Reply m) = rx_text m"

fun echoes :: "printed_part list \<Rightarrow> u8 list" where
  "echoes [] = []"
| "echoes (Echo b # os) = b # echoes os"
| "echoes (_ # os) = echoes os"

fun replies :: "printed_part list \<Rightarrow> message_out list" where
  "replies [] = []"
| "replies (Reply m # os) = m # replies os"
| "replies (_ # os) = replies os"

text \<open>Tags and messages take turns; the two booleans say whether the message of a tag is outstanding.\<close>

fun in_turn :: "bool \<Rightarrow> printed_part list \<Rightarrow> bool \<Rightarrow> bool" where
  "in_turn b [] c \<longleftrightarrow> b = c"
| "in_turn b (Echo k # os) c \<longleftrightarrow> in_turn b os c"
| "in_turn b (Tag tag # os) c \<longleftrightarrow> \<not> b \<and> in_turn True os c"
| "in_turn b (Reply m # os) c \<longleftrightarrow> b \<and> in_turn False os c"

text \<open>What core 3 has still to print, and how many of its steps that takes.\<close>

definition waiting :: "phase \<Rightarrow> message_out \<Rightarrow> system \<Rightarrow> message_out list" where
  "waiting p out s = (case p of At_Receive \<Rightarrow> pending (mailbox_slot 3 s) | At_Print \<Rightarrow> [out] | _ \<Rightarrow> [])"

definition due :: "phase \<Rightarrow> system \<Rightarrow> nat" where
  "due p s = (case p of At_Receive \<Rightarrow> 2 * length (pending (mailbox_slot 3 s)) | At_Print \<Rightarrow> 1 | _ \<Rightarrow> 0)"

text \<open>The parts of core 3 since the last message to it (since the beginning and \<open>n\<close> more, if there is none).\<close>

fun since :: "nat \<Rightarrow> happening list \<Rightarrow> nat" where
  "since n [] = n"
| "since n (Slice _ # hs) = since n hs"
| "since n (Part _ # hs) = since (Suc n) hs"
| "since n (Message _ c _ _ # hs) = since (if c = 3 then 0 else n) hs"

section \<open>A core leaves the scheduler rows of the others alone\<close>

definition same_row :: "nat \<Rightarrow> kernel \<Rightarrow> kernel \<Rightarrow> bool" where
  "same_row c k k' \<longleftrightarrow> task_pool k' ! c = task_pool k ! c \<and> task_count k' ! c = task_count k ! c \<and>
     current_task k' ! c = current_task k ! c \<and> length (task_pool k') = length (task_pool k) \<and>
     length (task_count k') = length (task_count k) \<and> length (current_task k') = length (current_task k) \<and>
     length (tick_count k') = length (tick_count k)"

lemma same_row_refl [simp]: "same_row c k k"
  by (simp add: same_row_def)

lemma same_row_trans: "same_row c k k' \<Longrightarrow> same_row c k' k'' \<Longrightarrow> same_row c k k''"
  by (simp add: same_row_def)

lemma same_row_keeps:
  assumes "same_row c k k'"
  shows "sched_ok c k' = sched_ok c k" "states c k' = states c k" "current c k' = current c k" "entries c k' = entries c k"
    "running c k' = running c k"
  using assms by (simp_all add: same_row_def sched_ok_def states_def current_def entries_def running_def)

lemma same_row_sys [simp]: "same_row c k (k\<lparr>k_sys := s\<rparr>)" "same_row c (c_kernel x) (c_kernel (with_sys s x))"
  by (simp_all add: same_row_def with_sys_def)

lemma yield_row:
  assumes "task_yield mpidr k = Inr (sw, k')" and "on_core mpidr d" and "c \<noteq> d"
  shows "same_row c k k'"
  using assms by (auto simp: task_yield_def on_core_def Let_def bind_exec_Inr_iff update_tcb_def same_row_def split: if_splits)

lemma add_task_row:
  assumes "sched_add_task mpidr job k = Inr k'" and "on_core mpidr d" and "c \<noteq> d"
  shows "same_row c k k'"
  using assms by (auto simp: sched_add_task_def on_core_def Let_def update_tcb_def on_sys_def same_row_def split: if_splits)

lemma sched_run_row:
  assumes "sched_run mpidr k = Inr k'" and "on_core mpidr d" and "c \<noteq> d"
  shows "same_row c k k'"
  using assms by (auto simp: sched_run_def on_core_def Let_def update_tcb_def on_sys_def same_row_def split: if_splits)

lemma slice_row:
  assumes "run_slice mpidr entry x = Inr (e, x')" and "on_core mpidr d" and "c \<noteq> d"
  shows "same_row c (c_kernel x) (c_kernel x')"
proof -
  have it: "same_row c (c_kernel x) (c_kernel y)" if "task_iteration mpidr x t = Inr (e', y)" for t e' y
    using that by (cases t) (auto simp: bind_exec_Inr_iff with_sys_def)
  obtain t e1 y where y: "task_iteration mpidr x t = Inr (e1, y)"
    "(if e1 = Parked then Inr (Parked, y)
      else bind_exec (task_yield mpidr (c_kernel y)) (\<lambda>(_, k). Inr (Yielded, y\<lparr>c_kernel := k\<rparr>))) = Inr (e, x')"
    using assms(1) by (auto simp: run_slice_def Let_def bind_exec_Inr_iff split: option.splits)
  show ?thesis
    using y it [OF y(1)] yield_row [OF _ assms(2,3)]
    by (auto simp: bind_exec_Inr_iff split: if_splits intro: same_row_trans)
qed

section \<open>One happening\<close>

lemma core_3_slot: "core_ok 3"
  by (simp add: core_ok_def)

lemma in_turn_append: "in_turn a ps b \<Longrightarrow> in_turn b qs c \<Longrightarrow> in_turn a (ps @ qs) c"
  by (induction a ps b rule: in_turn.induct) auto

lemma echoes_append [simp]: "echoes (ps @ qs) = echoes ps @ echoes qs"
  by (induction ps rule: echoes.induct) simp_all

lemma replies_append [simp]: "replies (ps @ qs) = replies ps @ replies qs"
  by (induction ps rule: replies.induct) simp_all

lemma kept_append [simp]: "kept (ms @ ms') = kept ms @ kept ms'"
  by (simp add: kept_def)

lemma kept_nil [simp]: "kept [] = []"
  by (simp add: kept_def)

lemma same_waiting:
  assumes "mailbox_slot 3 s' = mailbox_slot 3 s"
  shows "waiting p out s' = waiting p out s" "due p s' = due p s"
  by (simp_all add: waiting_def due_def assms split: phase.split)

text \<open>What every part of the iteration needs: the sender of a message that is handled is a core.\<close>

definition senders_ok :: "phase \<Rightarrow> message_out \<Rightarrow> system \<Rightarrow> bool" where
  "senders_ok p out s \<longleftrightarrow> (p \<noteq> At_Receive \<longrightarrow> fst out < 4) \<and> (\<forall>m. mailbox_slot 3 s = Ready m \<longrightarrow> fst m < 4)"

definition part_done :: "phase \<Rightarrow> message_out \<Rightarrow> system \<Rightarrow> printed_part list \<Rightarrow> phase \<Rightarrow> message_out \<Rightarrow> system \<Rightarrow> bool" where
  "part_done p out s ps p' out' s' \<longleftrightarrow> (\<exists>n. mail_reach n s') \<and> sys_lock s' = 0 \<and> sys_ring s' = sys_ring s \<and>
     sys_console s' = sys_console s @ concat (map part_text ps) \<and> echoes ps = [] \<and> in_turn (p = At_Print) ps (p' = At_Print) \<and>
     waiting p out s = replies ps @ waiting p' out' s' \<and> senders_ok p' out' s' \<and> due p' s' \<le> due p s - 1"

lemma mail_part:
  assumes reach: "mail_reach n s" and lock: "sys_lock s = 0" and cpu: "get_cpu_id mpidr = 3" and ok: "senders_ok p out s"
  shows "\<exists>p' out' s' ps. mail_step mpidr (p, out, s) = Inr (p', out', s') \<and> part_done p out s ps p' out' s'"
proof (cases p)
  case At_Receive
  show ?thesis
  proof (cases "pending (mailbox_slot 3 s)")
    case Nil
    then have "mailbox_receive 3 out s = Inr (0, out, s)"
      using mbx.recv_none [of 3 s out] reach_valid [OF reach core_3_slot] by blast
    moreover have "part_done p out s [] At_Receive out s"
      using At_Receive Nil reach lock ok by (auto simp: part_done_def waiting_def due_def)
    ultimately show ?thesis using At_Receive by (auto simp: mail_core_def cpu_3 [OF cpu])
  next
    case (Cons m ms)
    then have m: "mailbox_slot 3 s = Ready m" by (cases "mailbox_slot 3 s") auto
    then obtain s' where s': "mailbox_receive 3 out s = Inr (1, m, s')" "mail_reach n s'" "sys_lock s' = sys_lock s"
      "\<And>d. core_ok d \<Longrightarrow> mailbox_slot d s' = (if d = 3 then Taken else mailbox_slot d s)"
      "sys_console s' = sys_console s @ receive_log (mb_tag (mbox 3 s))"
      using receive_slots [OF reach core_3_slot m, of out] by blast
    have "mailbox_slot 3 s' = Taken" using s'(4) [OF core_3_slot] by simp
    then have "part_done p out s [Tag (mb_tag (mbox 3 s))] At_Print m s'"
      using At_Receive m s'(2,3,5) receive_ring [of 3 out s 1 m s'] s'(1) lock ok
      by (auto simp: part_done_def waiting_def due_def senders_ok_def)
    with s'(1) At_Receive show ?thesis by (auto simp: mail_core_def cpu_3 [OF cpu])
  qed
next
  case At_Print
  let ?s = "log_text (rx_text out) s"
  have "locked (rx_line out) s = Inr ?s" using lock by (intro locked_log) (simp_all add: rx_line_log)
  moreover have "part_done p out s [Reply out] At_Send out ?s"
    using At_Print reach_log [OF reach, of "rx_text out"] lock ok by (auto simp: part_done_def waiting_def due_def senders_ok_def)
  ultimately show ?thesis using At_Print by auto
next
  case At_Send
  obtain sender ty d where out: "out = (sender, ty, d)" by (cases out)
  then have small: "sender < 4" using ok At_Send by (simp add: senders_ok_def)
  obtain r s' where s': "mailbox_send mpidr (sint sender) (uint MSG_ACK) (d + 0x30000) s = Inr (r, s')" "\<exists>n'. mail_reach n' s'"
    "sys_lock s' = sys_lock s" "sys_console s' = sys_console s"
    "\<And>e. core_ok e \<Longrightarrow> mailbox_slot e s' = (if e = sint sender \<and> pending (mailbox_slot (sint sender) s) = []
       then Ready (ucast mpidr AND 0xFF, of_int (uint MSG_ACK), d + 0x30000) else mailbox_slot e s)"
    by (rule send_slots [OF reach small_sender(1) [OF small]]) (rule that)
  have "part_done p out s [] At_Clear out s'"
    using At_Send s'(2-4) s'(5) [OF core_3_slot] send_ring [OF s'(1)] lock ok
    by (auto simp: part_done_def waiting_def due_def senders_ok_def cpu_3 [OF cpu] split: if_splits)
  with s'(1) At_Send show ?thesis by (auto simp: out Let_def cpu_3 [OF cpu])
next
  case At_Clear
  obtain s' where s': "mailbox_clear 3 s = Inr s'" "mail_reach n s'" "sys_lock s' = sys_lock s" "sys_console s' = sys_console s"
    "\<And>e. core_ok e \<Longrightarrow> mailbox_slot e s' = (if e = 3 then Empty else mailbox_slot e s)"
    using clear_slots [OF reach core_3_slot] by blast
  have "part_done p out s [] At_Receive out s'"
    using At_Clear s'(2-4) s'(5) [OF core_3_slot] clear_ring [OF s'(1)] lock
    by (auto simp: part_done_def waiting_def due_def senders_ok_def)
  with s'(1) At_Clear show ?thesis by (auto simp: mail_core_def cpu_3 [OF cpu])
qed

text \<open>
  The two cores between two steps, core 0 about to run its task \<open>i\<close> and core 3 in phase \<open>p\<close>.  The
  ring holds at most the key that the second task has still to echo.
\<close>

definition cores_ready :: "(task \<Rightarrow> u64) \<Rightarrow> nat \<Rightarrow> phase \<Rightarrow> core_state \<Rightarrow> bool" where
  [inv_defs]: "cores_ready entry i p x \<longleftrightarrow>
     running 0 (c_kernel x) \<and> rotation 2 (states 0 (c_kernel x), i) \<and> current 0 (c_kernel x) = i \<and>
     entries 0 (c_kernel x) = map entry [Uart_Rx, Ring_Consumer] \<and> mailbox_ready entry x \<and> rx_fair (c_uart x) \<and>
     (\<exists>n. mail_reach n (k_sys (c_kernel x))) \<and> sys_lock (k_sys (c_kernel x)) = 0 \<and>
     length (rb_list (sys_ring (k_sys (c_kernel x)))) \<le> i \<and> senders_ok p (c_out x) (k_sys (c_kernel x))"

text \<open>What has happened between two states: what was accepted for core 3 and what was printed.\<close>

definition went :: "phase \<Rightarrow> core_state \<Rightarrow> (phase \<times> message_out) list \<Rightarrow> printed_part list \<Rightarrow> phase \<Rightarrow> core_state \<Rightarrow> bool" where
  "went p x acc ps p' x' \<longleftrightarrow> same_device (c_uart x) (c_uart x') \<and>
     sys_console (k_sys (c_kernel x')) = sys_console (k_sys (c_kernel x)) @ concat (map part_text ps) \<and>
     rb_list (sys_ring (k_sys (c_kernel x))) @ keys_read (c_uart x) (c_uart x') =
       echoes ps @ rb_list (sys_ring (k_sys (c_kernel x'))) \<and>
     in_turn (p = At_Print) ps (p' = At_Print) \<and>
     waiting p (c_out x) (k_sys (c_kernel x)) @ kept acc = replies ps @ waiting p' (c_out x') (k_sys (c_kernel x'))"

abbreviation due_in :: "phase \<Rightarrow> core_state \<Rightarrow> nat" where
  "due_in p x \<equiv> due p (k_sys (c_kernel x))"

lemma went_refl: "went p x [] [] p x"
  by (simp add: went_def)

lemma went_trans:
  assumes "went p x acc ps q y" and "went q y acc' qs r z"
  shows "went p x (acc @ acc') (ps @ qs) r z"
proof -
  have dev: "same_device (c_uart x) (c_uart y)" "same_device (c_uart y) (c_uart z)" using assms by (simp_all add: went_def)
  have "rb_list (sys_ring (k_sys (c_kernel x))) @ keys_read (c_uart x) (c_uart z) =
      echoes (ps @ qs) @ rb_list (sys_ring (k_sys (c_kernel z)))"
    using assms unfolding went_def keys_read_append [OF dev] echoes_append by (metis append.assoc)
  moreover have "waiting p (c_out x) (k_sys (c_kernel x)) @ kept (acc @ acc') =
      replies (ps @ qs) @ waiting r (c_out z) (k_sys (c_kernel z))"
    using assms unfolding went_def replies_append kept_append by (metis append.assoc)
  moreover have "sys_console (k_sys (c_kernel z)) = sys_console (k_sys (c_kernel x)) @ concat (map part_text (ps @ qs))"
    using assms by (simp add: went_def)
  moreover have "in_turn (p = At_Print) (ps @ qs) (r = At_Print)" using assms in_turn_append by (auto simp: went_def)
  ultimately show ?thesis using same_device_trans [OF dev] unfolding went_def by blast
qed

lemma rx_slice:
  assumes ready: "cores_ready entry 0 p x" and core: "on_core mpidr 0" and inj: "inj entry"
  obtains x' where "run_slice mpidr entry x = Inr (Yielded, x')" "cores_ready entry 1 p x'" "went p x [] [] p x'"
    "due_in p x' = due_in p x"
proof -
  let ?s = "k_sys (c_kernel x)"
  obtain n where n: "mail_reach n ?s" using ready by (auto simp: cores_ready_def)
  have ok: "sys_ok ?s" using mail_reach_inv [OF n] by (simp add: mail_inv_def)
  have r: "running 0 (c_kernel x)" "rotation 2 (states 0 (c_kernel x), 0)" "current 0 (c_kernel x) = 0"
    "entries 0 (c_kernel x) = map entry [Uart_Rx, Ring_Consumer]" and fair: "rx_fair (c_uart x)"
    and empty: "rb_list (sys_ring ?s) = []" and lock: "sys_lock ?s = 0" and mail: "mailbox_ready entry x"
    using ready by (simp_all add: cores_ready_def del: length_rb_list)
  obtain u s where rx: "uart_rx_task (c_uart x, ?s) = Inr (u, s)" "same_device (c_uart x) u"
    "length (keys_read (c_uart x) u) \<le> 1" "rb_list (sys_ring s) = keys_read (c_uart x) u" "sys_ok s" "sys_lock s = 0"
    "sys_console s = sys_console ?s" "sys_mailboxes s = sys_mailboxes ?s" "sys_key s = sys_key ?s"
    using rx_into_empty [OF fair ok empty] lock by metis
  have slot: "mailbox_slot c s = mailbox_slot c ?s" for c by (simp add: mailbox_slot_def rx(8))
  have "task_iteration mpidr x ([Uart_Rx, Ring_Consumer] ! 0) = Inr (Yielded, with_sys s (x\<lparr>c_uart := u\<rparr>))"
    by (simp add: rx(1))
  from slice_step [OF r(1) core inj r(2,3,4) _ this] obtain x' where
    x': "run_slice mpidr entry x = Inr (Yielded, x')" "k_sys (c_kernel x') = s" "c_uart x' = u" "c_out x' = c_out x" "running 0 (c_kernel x')"
    "rotation 2 (states 0 (c_kernel x'), 1)" "current 0 (c_kernel x') = 1" "entries 0 (c_kernel x') = entries 0 (c_kernel x)"
    using r(4) by auto
  have "mailbox_ready entry x'"
    using mail same_row_keeps [OF slice_row [OF x'(1) core, of 3]] by (simp add: mailbox_ready_def)
  moreover have "mail_reach n s" using n rx(5,8,9) by (rule mail_reach.other)
  ultimately have "cores_ready entry 1 p x'"
    using x' r(4) rx(3,4,6) same_device_fair [OF rx(2) fair] ready by (auto simp: cores_ready_def senders_ok_def slot)
  moreover have "went p x [] [] p x'" "due_in p x' = due_in p x"
    using rx x' empty by (simp_all add: went_def same_waiting [OF slot])
  ultimately show thesis using that x'(1) by blast
qed

lemma echo_slice:
  assumes ready: "cores_ready entry 1 p x" and core: "on_core mpidr 0" and inj: "inj entry"
  obtains (yielded) x' keys where "run_slice mpidr entry x = Inr (Yielded, x')" "cores_ready entry 0 p x'"
      "went p x [] (map Echo keys) p x'" "3 \<notin> set keys" "due_in p x' = due_in p x"
    | (parked) x' where "run_slice mpidr entry x = Inr (Parked, x')" "went p x [] [Echo 3] p x'" "sys_lock (k_sys (c_kernel x')) = 1"
proof -
  let ?s = "k_sys (c_kernel x)"
  define keys where "keys = rb_list (sys_ring ?s)"
  obtain n where n: "mail_reach n ?s" using ready by (auto simp: cores_ready_def)
  have ok: "sys_ok ?s" using mail_reach_inv [OF n] by (simp add: mail_inv_def)
  have r: "running 0 (c_kernel x)" "rotation 2 (states 0 (c_kernel x), 1)" "current 0 (c_kernel x) = 1"
    "entries 0 (c_kernel x) = map entry [Uart_Rx, Ring_Consumer]" and fair: "rx_fair (c_uart x)"
    and len: "length keys \<le> 1" and lock: "sys_lock ?s = 0" and mail: "mailbox_ready entry x"
    using ready by (simp_all add: cores_ready_def keys_def del: length_rb_list)
  obtain e b s where con: "ring_consumer_task (c_byte x, ?s) = Inr (e, b, s)" "rb_list (sys_ring s) = []" "sys_ok s"
    "sys_console s = sys_console ?s @ concat (map echo_text keys)"
    "if 3 \<in> set keys then e = Parked \<and> sys_lock s = 1 else e = Yielded \<and> sys_lock s = 0"
    "sys_mailboxes s = sys_mailboxes ?s" "sys_key s = sys_key ?s"
    using echo_and_empty [OF ok lock keys_def [symmetric] len, of "c_byte x"] by metis
  have slot: "mailbox_slot c s = mailbox_slot c ?s" for c by (simp add: mailbox_slot_def con(6))
  have "task_iteration mpidr x ([Uart_Rx, Ring_Consumer] ! 1) = Inr (e, with_sys s (x\<lparr>c_byte := b\<rparr>))"
    by (simp add: con(1))
  from slice_step [OF r(1) core inj r(2,3,4) _ this] obtain x' where
    x': "run_slice mpidr entry x = Inr (e, x')" "k_sys (c_kernel x') = s" "c_uart x' = c_uart x" "c_out x' = c_out x"
    "e = Yielded \<longrightarrow> running 0 (c_kernel x') \<and> rotation 2 (states 0 (c_kernel x'), 0) \<and>
       current 0 (c_kernel x') = 0 \<and> entries 0 (c_kernel x') = entries 0 (c_kernel x)"
    using r(4) by auto
  have said: "in_turn b (map Echo ks) b" "echoes (map Echo ks) = ks" "replies (map Echo ks) = []" "concat (map part_text (map Echo ks)) = concat (map echo_text ks)" for b ks
    by (induction ks) simp_all
  have went: "went p x [] (map Echo keys) p x'" and due: "due_in p x' = due_in p x"
    using x' con(2,4) unfolding went_def said by (simp_all add: same_waiting [OF slot] said(1) flip: keys_def)
  show thesis
  proof (cases "3 \<in> set keys")
    case True
    with len have "keys = [3]" by (cases keys) auto
    with went con(5) x'(1,2) show thesis by (intro parked [of x']) auto
  next
    case False
    have "mailbox_ready entry x'"
      using mail same_row_keeps [OF slice_row [OF x'(1) core, of 3]] by (simp add: mailbox_ready_def)
    moreover have "mail_reach n s" using n con(3,6,7) by (rule mail_reach.other)
    ultimately have "cores_ready entry 0 p x'"
      using x' r(4) con(2,5) False fair ready by (auto simp: cores_ready_def senders_ok_def slot)
    with False went due con(5) x'(1) show thesis by (intro yielded [of x' keys]) simp_all
  qed
qed

lemma with_sys_more [simp]: "c_out (with_sys s x) = c_out x" "task_count (c_kernel (with_sys s x)) = task_count (c_kernel x)"
  "mailbox_ready entry (with_sys s x) = mailbox_ready entry x" "mailbox_ready entry (x\<lparr>c_out := out\<rparr>) = mailbox_ready entry x"
  "with_sys s (with_sys t x) = with_sys s x" "(with_sys s x)\<lparr>c_out := out\<rparr> = with_sys s (x\<lparr>c_out := out\<rparr>)"
  "c_kernel (with_sys s (x\<lparr>c_out := out\<rparr>)) = c_kernel (with_sys s x)"
  by (simp_all add: with_sys_def mailbox_ready_def entries_def running_def sched_ok_def states_def current_def)

lemma run_part_at:
  assumes ready: "mailbox_ready entry x" and core: "on_core mpidr 3" and inj: "inj entry"
  shows "run_part mpidr entry (p, x) = bind_exec (mail_step mpidr (p, c_out x, k_sys (c_kernel x))) (\<lambda>(p, out, s).
       let x = with_sys s (x\<lparr>c_out := out\<rparr>) in
       if p = At_Receive then bind_exec (task_yield mpidr (c_kernel x)) (\<lambda>(_, k). Inr (p, x\<lparr>c_kernel := k\<rparr>))
       else Inr (p, x))"
proof -
  let ?row = "take (unat (task_count (c_kernel x) ! 3)) (task_pool (c_kernel x) ! 3)"
  have row: "map t_entry ?row = [entry Mailbox_Disp]" using ready by (simp add: mailbox_ready_def entries_def)
  then have "?row ! 0 = task_pool (c_kernel x) ! 3 ! 0" by (intro nth_take) (cases "unat (task_count (c_kernel x) ! 3)"; simp)
  moreover have "t_entry (?row ! 0) = entry Mailbox_Disp" using row by (cases ?row) auto
  ultimately show ?thesis
    using ready core by (simp add: run_part_def Let_def on_core_def mailbox_ready_def current_def task_at_entry [OF inj])
qed

text \<open>A slice of core 3 is an iteration, part by part.\<close>

lemma phase_after:
  "mail_step mpidr (At_Receive, out, s) = Inr (q, out', s') \<Longrightarrow> q = At_Receive \<or> q = At_Print"
  "mail_step mpidr (At_Print, out, s) = Inr (q, out', s') \<Longrightarrow> q = At_Send"
  "mail_step mpidr (At_Send, out, s) = Inr (q, out', s') \<Longrightarrow> q = At_Clear"
  "mail_step mpidr (At_Clear, out, s) = Inr (q, out', s') \<Longrightarrow> q = At_Receive"
  by (cases out; auto simp: bind_exec_Inr_iff Let_def split: if_splits)+

lemma slice_parts:
  assumes ready: "mailbox_ready entry x" and core: "on_core mpidr 3" and inj: "inj entry"
  shows "run_slice mpidr entry x = bind_exec (run_part mpidr entry (At_Receive, x)) (\<lambda>(p, x).
     if p = At_Receive then Inr (Yielded, x)
     else bind_exec (run_part mpidr entry (p, x)) (\<lambda>y. bind_exec (run_part mpidr entry y) (\<lambda>y.
       bind_exec (run_part mpidr entry y) (\<lambda>(p, x). Inr (Yielded, x)))))"
proof -
  have r: "entries 3 (c_kernel x) = map entry [Mailbox_Disp]" "current 3 (c_kernel x) = 0"
    using ready by (simp_all add: mailbox_ready_def)
  have part: "run_part mpidr entry (p, with_sys s (x\<lparr>c_out := out\<rparr>)) =
      bind_exec (mail_step mpidr (p, out, s)) (\<lambda>(p, out, s).
       if p = At_Receive then bind_exec (task_yield mpidr (c_kernel (with_sys s (x\<lparr>c_out := out\<rparr>))))
         (\<lambda>(_, k). Inr (p, (with_sys s (x\<lparr>c_out := out\<rparr>))\<lparr>c_kernel := k\<rparr>))
       else Inr (p, with_sys s (x\<lparr>c_out := out\<rparr>)))" for p s out
    using run_part_at [of entry "with_sys s (x\<lparr>c_out := out\<rparr>)" mpidr p] ready core inj by (simp add: Let_def)
  have slice: "run_slice mpidr entry x = bind_exec (mailbox_dispatcher_task mpidr (c_out x, k_sys (c_kernel x))) (\<lambda>(out, s).
      bind_exec (task_yield mpidr (c_kernel (with_sys s (x\<lparr>c_out := out\<rparr>))))
        (\<lambda>(_, k). Inr (Yielded, (with_sys s (x\<lparr>c_out := out\<rparr>))\<lparr>c_kernel := k\<rparr>)))"
    using slice_at [OF core inj r] by (simp add: bind_exec_assoc case_prod_unfold)
  let ?step = "\<lambda>p out s. mail_step mpidr (p, out, s)"
  have last: "fst v = At_Receive" if "?step At_Clear out s = Inr v" for out s v
    using that phase_after(4) by (cases v) simp
  show ?thesis
  proof (cases "?step At_Receive (c_out x) (k_sys (c_kernel x))")
    case (Inr y)
    obtain p out s where y: "y = (p, out, s)" by (cases y)
    show ?thesis
    proof (cases "p = At_Receive")
      case False
      with Inr y phase_after(1) have p: "p = At_Print" by blast
      show ?thesis
      proof (cases "?step At_Print out s")
        case (Inr z)
        obtain q out' s' where z: "z = (q, out', s')" by (cases z)
        with Inr phase_after(2) have q: "q = At_Send" by blast
        show ?thesis
        proof (cases "?step At_Send out' s'")
          case (Inr w)
          obtain q' out'' s'' where w: "w = (q', out'', s'')" by (cases w)
          with Inr phase_after(3) have "q' = At_Clear" by blast
          with Inr w z q p y \<open>?step At_Print out s = Inr z\<close> \<open>?step At_Receive (c_out x) (k_sys (c_kernel x)) = Inr y\<close> show ?thesis
            using last by (cases "?step At_Clear out'' s''")
              (auto simp: slice mailbox_task_parts run_part_at [OF assms] part bind_exec_assoc Let_def case_prod_unfold
                simp del: mail_step.simps)
        qed (use p q y z Inr \<open>?step At_Receive (c_out x) (k_sys (c_kernel x)) = Inr y\<close> in
            \<open>simp add: slice mailbox_task_parts run_part_at [OF assms] part Let_def del: mail_step.simps\<close>)
      qed (use p y Inr in \<open>simp add: slice mailbox_task_parts run_part_at [OF assms] part Let_def del: mail_step.simps\<close>)
    qed (use y Inr in \<open>simp add: slice mailbox_task_parts run_part_at [OF assms] bind_exec_assoc case_prod_unfold Let_def del: mail_step.simps\<close>)
  qed (simp add: slice mailbox_task_parts run_part_at [OF assms] del: mail_step.simps)
qed

lemma part_step:
  assumes ready: "cores_ready entry i p x" and cpu: "get_cpu_id mpidr = 3" and core: "on_core mpidr 3" and inj: "inj entry"
  obtains q y ps where "run_part mpidr entry (p, x) = Inr (q, y)" "cores_ready entry i q y" "went p x [] ps q y"
    "echoes ps = []" "due_in q y \<le> due_in p x - 1"
proof -
  let ?s = "k_sys (c_kernel x)"
  obtain n where n: "mail_reach n ?s" using ready by (auto simp: cores_ready_def)
  have lock: "sys_lock ?s = 0" and mail: "mailbox_ready entry x" and ok: "senders_ok p (c_out x) ?s"
    using ready by (simp_all add: cores_ready_def)
  obtain q out s ps where step: "mail_step mpidr (p, c_out x, ?s) = Inr (q, out, s)" and fin: "part_done p (c_out x) ?s ps q out s"
    using mail_part [OF n lock cpu ok] by blast
  let ?y = "with_sys s (x\<lparr>c_out := out\<rparr>)"
  have "running 3 (c_kernel ?y)" "rotation 1 (states 3 (c_kernel ?y), 0)" "current 3 (c_kernel ?y) = 0"
    using mail by (simp_all add: mailbox_ready_def rotation_def)
  from yield_turn [OF this(1) core this(2,3)] obtain sw k where
    k: "task_yield mpidr (c_kernel ?y) = Inr (sw, k)" "k_sys k = s" "running 3 k" "rotation 1 (states 3 k, 0)" "current 3 k = 0"
      "entries 3 k = entries 3 (c_kernel x)" by auto
  have "states 3 k = [TASK_RUNNING]" using k(4) by (cases "states 3 k") (auto simp: rotation_def)
  with k mail have yielded: "mailbox_ready entry (?y\<lparr>c_kernel := k\<rparr>)" by (simp add: mailbox_ready_def)
  have row: "same_row 0 (c_kernel x) k"
    using yield_row [OF k(1) core, of 0] same_row_sys(2) [of 0 x s] by (auto simp: same_row_def with_sys_def)
  define y where "y = (if q = At_Receive then ?y\<lparr>c_kernel := k\<rparr> else ?y)"
  have y: "k_sys (c_kernel y) = s" "c_out y = out" "c_uart y = c_uart x" "mailbox_ready entry y" "same_row 0 (c_kernel x) (c_kernel y)"
    using yielded mail k(2) row by (simp_all add: y_def same_row_trans)
  have run: "run_part mpidr entry (p, x) = Inr (q, y)"
    using run_part_at [OF mail core inj, of p] step k(1) by (simp add: Let_def y_def)
  have "cores_ready entry i q y"
    using ready fin y same_row_keeps [OF y(5)] by (auto simp: cores_ready_def part_done_def)
  moreover have "went p x [] ps q y" using fin y by (auto simp: went_def part_done_def)
  moreover have "echoes ps = []" "due_in q y \<le> due_in p x - 1" using fin y(1) by (simp_all add: part_done_def)
  ultimately show thesis using that run by blast
qed

lemma message_step:
  assumes ready: "cores_ready entry i p x" and c: "core_ok c" and sender: "(ucast mpidr AND 0xFF :: u32) < 4"
  obtains r s where "mailbox_send mpidr c ty d (k_sys (c_kernel x)) = Inr (r, s)" "cores_ready entry i p (with_sys s x)"
    "went p x (if r = 0 \<and> c = 3 then [(p, delivered (mpidr, ty, d))] else []) [] p (with_sys s x)"
    "due_in p (with_sys s x) \<le> (if c = 3 then 2 else due_in p x)"
proof -
  let ?s = "k_sys (c_kernel x)"
  obtain n where n: "mail_reach n ?s" using ready by (auto simp: cores_ready_def)
  obtain r s where s: "mailbox_send mpidr c ty d ?s = Inr (r, s)" "\<exists>n'. mail_reach n' s"
    "r = (if pending (mailbox_slot c ?s) = [] then 0 else -1)" "sys_lock s = sys_lock ?s" "sys_console s = sys_console ?s"
    "\<And>e. core_ok e \<Longrightarrow> mailbox_slot e s = (if e = c \<and> pending (mailbox_slot c ?s) = []
       then Ready (ucast mpidr AND 0xFF, of_int ty, d) else mailbox_slot e ?s)"
    by (rule send_slots [OF n c]) (rule that)
  have ring: "sys_ring s = sys_ring ?s" by (rule send_ring [OF s(1)])
  note slot = s(6) [OF core_3_slot]
  have "cores_ready entry i p (with_sys s x)"
    using ready s(2,4) ring slot sender by (auto simp: cores_ready_def senders_ok_def split: if_splits)
  moreover have "went p x (if r = 0 \<and> c = 3 then [(p, delivered (mpidr, ty, d))] else []) [] p (with_sys s x)"
    using s(3,5) ring slot by (cases p) (auto simp: went_def waiting_def delivered_def kept_def)
  moreover have "due_in p (with_sys s x) \<le> 2"
    by (cases p; cases "mailbox_slot 3 s") (simp_all add: due_def)
  then have "due_in p (with_sys s x) \<le> (if c = 3 then 2 else due_in p x)"
    using slot same_waiting(2) [of s ?s p] by auto
  ultimately show thesis using that s(1) by blast
qed

section \<open>Any number of them\<close>

text \<open>The happenings after the boot: core 0 runs slices, core 3 parts, messages go from and to the four cores.\<close>

primrec happens :: "u64 \<Rightarrow> u64 \<Rightarrow> happening \<Rightarrow> bool" where
  "happens m0 m3 (Slice mpidr) \<longleftrightarrow> mpidr = m0"
| "happens m0 m3 (Part mpidr) \<longleftrightarrow> mpidr = m3"
| "happens m0 m3 (Message mpidr c ty d) \<longleftrightarrow> core_ok c \<and> (ucast mpidr AND 0xFF :: u32) < 4"

text \<open>How a run ends: in the middle of nothing, or with core 0 parked.\<close>

definition run_end :: "(task \<Rightarrow> u64) \<Rightarrow> task_end \<Rightarrow> printed_part list \<Rightarrow> phase \<Rightarrow> core_state \<Rightarrow> bool" where
  "run_end entry e ps p x \<longleftrightarrow>
     (if e = Parked then sys_lock (k_sys (c_kernel x)) = 1 \<and> (\<exists>ks. echoes ps = ks @ [3] \<and> 3 \<notin> set ks)
      else 3 \<notin> set (echoes ps) \<and> (\<exists>i. cores_ready entry i p x))"

lemma run_end_append: "run_end entry e qs p x \<Longrightarrow> 3 \<notin> set (echoes ps) \<Longrightarrow> run_end entry e (ps @ qs) p x"
  by (auto simp: run_end_def split: if_splits)

lemma cores_run_Cons:
  "cores_run entry (h # hs) y = bind_exec (cores_run entry [h] y) (\<lambda>(e, ms, y).
     if e = Parked then Inr (Parked, ms, y)
     else bind_exec (cores_run entry hs y) (\<lambda>(e, ms', z). Inr (e, ms @ ms', z)))"
proof -
  obtain p x where y: "y = (p, x)" by (cases y)
  have same: "bind_exec r (\<lambda>(e, ms', z). Inr (e, ms', z)) = r" for r :: "(task_end \<times> (phase \<times> message_out) list \<times> phase \<times> core_state) exec"
    by (cases r) auto
  show ?thesis
  proof (cases h)
    case (Slice mpidr)
    show ?thesis by (cases "run_slice mpidr entry x") (auto simp: Slice y same)
  next
    case (Part mpidr)
    show ?thesis by (cases "run_part mpidr entry (p, x)") (auto simp: Part y same)
  next
    case (Message mpidr c ty d)
    show ?thesis
      by (cases "mailbox_send mpidr c ty d (k_sys (c_kernel x))")
        (auto simp: Message y split: prod.split intro!: arg_cong [where f = "bind_exec _"])
  qed
qed

lemma echo_parts [simp]: "echoes (map Echo ks) = ks"
  by (induction ks) simp_all

lemma one_happening:
  assumes ready: "cores_ready entry i p x" and inj: "inj entry" and core: "on_core m0 0" "on_core m3 3" "get_cpu_id m3 = 3"
    and h: "happens m0 m3 h" and due: "due_in p x \<le> 2 - n"
  shows "\<exists>e acc q y ps. cores_run entry [h] (p, x) = Inr (e, acc, q, y) \<and> went p x acc ps q y \<and> run_end entry e ps q y \<and>
    (e = Yielded \<longrightarrow> due_in q y \<le> 2 - since n [h])"
proof (cases h)
  case (Message mpidr c ty d)
  with h have c: "core_ok c" "(ucast mpidr AND 0xFF :: u32) < 4" by simp_all
  obtain r s where "mailbox_send mpidr c ty d (k_sys (c_kernel x)) = Inr (r, s)" "cores_ready entry i p (with_sys s x)"
    "went p x (if r = 0 \<and> c = 3 then [(p, delivered (mpidr, ty, d))] else []) [] p (with_sys s x)"
    "due_in p (with_sys s x) \<le> (if c = 3 then 2 else due_in p x)"
    by (rule message_step [OF ready c])
  with due show ?thesis by (fastforce simp: Message run_end_def)
next
  case (Part mpidr)
  with h have "mpidr = m3" by simp
  obtain q y ps where "run_part m3 entry (p, x) = Inr (q, y)" "cores_ready entry i q y" "went p x [] ps q y"
    "echoes ps = []" "due_in q y \<le> due_in p x - 1"
    by (rule part_step [OF ready core(3,2) inj])
  with due \<open>mpidr = m3\<close> show ?thesis by (auto simp: Part run_end_def)
next
  case (Slice mpidr)
  with h have m: "mpidr = m0" by simp
  have "i = 0 \<or> i = 1" using ready by (auto simp: cores_ready_def rotation_def)
  then show ?thesis
  proof
    assume "i = 0"
    then obtain y where "run_slice m0 entry x = Inr (Yielded, y)" "cores_ready entry 1 p y" "went p x [] [] p y"
      "due_in p y = due_in p x"
      using rx_slice [of entry p x m0] ready core(1) inj by blast
    with m due show ?thesis by (fastforce simp: Slice run_end_def)
  next
    assume "i = 1"
    with ready have "cores_ready entry 1 p x" by simp
    from this core(1) inj show ?thesis
    proof (cases rule: echo_slice)
      case (yielded y keys)
      with m due show ?thesis by (fastforce simp: Slice run_end_def)
    next
      case (parked y)
      with m show ?thesis by (auto simp: Slice run_end_def intro!: exI [of _ "[Echo 3]"])
    qed
  qed
qed

lemma since_Cons: "since n (h # hs) = since (since n [h]) hs"
  by (cases h) simp_all

lemma cores_run_went:
  assumes "cores_ready entry i p x" and inj: "inj entry" and core: "on_core m0 0" "on_core m3 3" "get_cpu_id m3 = 3"
    and "list_all (happens m0 m3) hs" and "due_in p x \<le> 2 - n"
  shows "\<exists>e acc q x' ps. cores_run entry hs (p, x) = Inr (e, acc, q, x') \<and> went p x acc ps q x' \<and> run_end entry e ps q x' \<and>
    (e = Yielded \<longrightarrow> due_in q x' \<le> 2 - since n hs)"
  using assms(1,6,7)
proof (induction hs arbitrary: i p x n)
  case Nil
  then show ?case by (auto simp: run_end_def intro!: exI [of _ "[]"] went_refl)
next
  case (Cons h hs)
  from Cons.prems(2) have h: "happens m0 m3 h" by simp
  obtain e acc q y ps where y: "cores_run entry [h] (p, x) = Inr (e, acc, q, y)" "went p x acc ps q y" "run_end entry e ps q y"
    "e = Yielded \<longrightarrow> due_in q y \<le> 2 - since n [h]"
    using one_happening [OF Cons.prems(1) inj core h Cons.prems(3)] by blast
  show ?case
  proof (cases e)
    case Parked
    with y(1-3) show ?thesis
      by (subst cores_run_Cons) (auto intro!: exI [of _ ps])
  next
    case Yielded
    then obtain j where j: "cores_ready entry j q y" "3 \<notin> set (echoes ps)" using y(3) by (auto simp: run_end_def)
    obtain e' acc' r z qs where z: "cores_run entry hs (q, y) = Inr (e', acc', r, z)" "went q y acc' qs r z" "run_end entry e' qs r z"
      "e' = Yielded \<longrightarrow> due_in r z \<le> 2 - since (since n [h]) hs"
      using Cons.IH [OF j(1) _ y(4) [rule_format, OF Yielded]] Cons.prems(2) by auto
    have "cores_run entry (h # hs) (p, x) = Inr (e', acc @ acc', r, z)"
      using y(1) z(1) Yielded by (subst cores_run_Cons) simp
    moreover have "e' = Yielded \<longrightarrow> due_in r z \<le> 2 - since n (h # hs)" using z(4) since_Cons [of n h hs] by simp
    ultimately show ?thesis using went_trans [OF y(2) z(2)] run_end_append [OF z(3) j(2)] by blast
  qed
qed

text \<open>When nothing is due, everything kept has been printed.\<close>

lemma nothing_waits: "due p s = 0 \<Longrightarrow> waiting p out s = []"
  by (simp add: due_def waiting_def split: phase.splits)

section \<open>From the reset\<close>

definition keeps_row :: "nat \<Rightarrow> (machine \<Rightarrow> machine exec) \<Rightarrow> bool" where
  "keeps_row c f \<longleftrightarrow> (\<forall>m m'. f m = Inr m' \<longrightarrow> same_row c (m_kernel m) (m_kernel m'))"

lemma keeps_row_bind: "keeps_row c f \<Longrightarrow> keeps_row c g \<Longrightarrow> keeps_row c (\<lambda>m. bind_exec (f m) g)"
  unfolding keeps_row_def bind_exec_Inr_iff by (blast intro: same_row_trans)

lemma keeps_row_parts: "keeps_row c (on_shared f)" "keeps_row c (main_interrupt_tests quiet iars)"
  "on_core mpidr d \<Longrightarrow> c \<noteq> d \<Longrightarrow> keeps_row c (on_kernel (sched_add_task mpidr job))"
  "on_core mpidr d \<Longrightarrow> c \<noteq> d \<Longrightarrow> keeps_row c (on_kernel (sched_run mpidr))"
  by (auto simp: keeps_row_def on_shared_def on_kernel_def main_interrupt_tests_def bind_exec_Inr_iff
      intro: add_task_row sched_run_row)

lemma main_row:
  assumes "main mpidr hvc start entry delay quiet iars out m = Inr m'" and "on_core mpidr 0" and "c \<noteq> 0"
  shows "same_row c (m_kernel m) (m_kernel m')"
proof -
  have "keeps_row c (main mpidr hvc start entry delay quiet iars out)"
    unfolding main_def by (intro keeps_row_bind keeps_row_parts(1,2) keeps_row_parts(3,4) [OF assms(2,3)])
  with assms(1) show ?thesis by (simp add: keeps_row_def)
qed

lemma core3_main_frame:
  assumes "core3_main mpidr entry k = Inr k'" and "on_core mpidr 3"
  shows "same_row 0 k k'" "\<exists>str. k_sys k' = log_text str (k_sys k)"
proof -
  obtain k1 where k1: "sched_add_task mpidr (mailbox_job entry) k = Inr k1" "sched_run mpidr k1 = Inr k'"
    using assms(1) by (auto simp: core3_main_def bind_exec_Inr_iff)
  show "same_row 0 k k'"
    using add_task_row [OF k1(1) assms(2), of 0] sched_run_row [OF k1(2) assms(2), of 0] by (auto intro: same_row_trans)
  have "\<exists>str. k_sys k1 = log_text str (k_sys k)" "\<exists>str. k_sys k' = log_text str (k_sys k1)"
    using k1 by (auto simp: sched_add_task_def sched_run_def Let_def on_sys_def update_tcb_def con_log split: if_splits)
  then show "\<exists>str. k_sys k' = log_text str (k_sys k)" by (auto simp: con_log)
qed

lemma cpu_3_core: "get_cpu_id mpidr = 3 \<Longrightarrow> on_core mpidr 3"
  by (simp add: on_core_def get_core_id_def get_cpu_id_def)

lemma cores_ready_after:
  assumes key: "keyboard_ready entry (core_after u b out k)" and reach: "mail_reach n (k_sys k)"
    and empty: "pending (mailbox_slot 3 (k_sys k)) = []"
    and c3: "core3_main m3 entry k = Inr k'" "on_core m3 3" "mailbox_ready entry (core_after u b out k')"
  shows "cores_ready entry 0 At_Receive (core_after u b out k')"
proof -
  obtain str where str: "k_sys k' = log_text str (k_sys k)" using core3_main_frame(2) [OF c3(1,2)] ..
  have "mailbox_slot 3 (k_sys k') \<noteq> Ready m" for m
    using empty by (auto simp: str mailbox_slot_def)
  then show ?thesis
    using key c3(3) reach_log [OF reach, of str] same_row_keeps [OF core3_main_frame(1) [OF c3(1,2)]]
    by (auto simp: cores_ready_def senders_ok_def keyboard_ready_def core_after_def str rotation_2)
qed

text \<open>
  Property C12: the running system.  From the reset \<^verbatim>\<open>main\<close> reaches its tasks and core 3 its own (it
  registers its task in its own row of the pool, here after \<^verbatim>\<open>main\<close>).  From then on, in whatever order
  core 0 runs its slices, core 3 the parts of its iterations, and whoever sends what to whom in
  between, no step fails.  What is printed is the echoes, and in turn a tag and a message, in some order; the echoes
  are the keys read, in order, but for at most one key in the ring, so none is dropped.  A message accepted for
  core 3 while it is about to receive is kept: the messages printed are the kept ones, in order, but for the one that waits
  or is being printed, and once core 3 has run two parts since the last message to it all of them are printed.  A message accepted
  while core 3 handles another is never printed: the clear erases it.  Only a Ctrl-C ends the run, with the lock held.
\<close>
theorem cores_run_together:
  assumes "reset_state m" and "clock_runs (m_timer m)" and "10 \<le> length (filter is_timer iars)"
    and "mpidr AND 0xFF = 0" and "get_cpu_id m3 = 3" and "\<And>n. k n > 0" and "inj entry" and "rx_fair u"
    and "sched_ok 3 (m_kernel m)" and "task_count (m_kernel m) ! 3 = 0"
    and "list_all (happens mpidr m3) hs"
  shows "\<exists>m' k' e acc p x ps. main mpidr hvc start entry (core3_delay m3 k) quiet iars out m = Inr m' \<and>
    core3_main m3 entry (m_kernel m') = Inr k' \<and>
    cores_run entry hs (At_Receive, core_after u b out' k') = Inr (e, acc, p, x) \<and>
    sys_console (k_sys (c_kernel x)) = sys_console (k_sys k') @ concat (map part_text ps) \<and>
    keys_read u (c_uart x) = echoes ps @ rb_list (sys_ring (k_sys (c_kernel x))) \<and>
    kept acc = replies ps @ waiting p (c_out x) (k_sys (c_kernel x)) \<and> in_turn False ps (p = At_Print) \<and>
    (if e = Parked then sys_lock (k_sys (c_kernel x)) = 1 \<and> (\<exists>ks. echoes ps = ks @ [3] \<and> 3 \<notin> set ks)
     else sys_lock (k_sys (c_kernel x)) = 0 \<and> 3 \<notin> set (echoes ps) \<and> length (rb_list (sys_ring (k_sys (c_kernel x)))) \<le> 1 \<and>
       (2 \<le> since 0 hs \<longrightarrow> kept acc = replies ps))"
proof -
  have core: "on_core mpidr 0" "on_core m3 3" using cpu_0(1) [OF assms(4)] cpu_3_core [OF assms(5)] by simp_all
  obtain m' where m': "main mpidr hvc start entry (core3_delay m3 k) quiet iars out m = Inr m'"
    "states 0 (m_kernel m') = [TASK_RUNNING, TASK_READY]" "current 0 (m_kernel m') = 0" "running 0 (m_kernel m')"
    "take 2 (map t_entry (task_pool (m_kernel m') ! 0)) = [entry Uart_Rx, entry Ring_Consumer]"
    and view: "view [Empty, ping 1, ping 2, Empty] UNIV (k_sys (m_kernel m'))" and ring: "rb_list (sys_ring (k_sys (m_kernel m'))) = []"
    using main_run [where k = k, OF assms(1-6)] by blast
  note key = keyboard_ready_after [OF m'(2-5) view ring assms(8), of b out']
  obtain n where n: "mail_reach n (k_sys (m_kernel m'))" "mailbox_slot 3 (k_sys (m_kernel m')) = Empty"
    using view by (auto simp: view_def)
  have row: "same_row 3 (m_kernel m) (m_kernel m')" by (rule main_row [OF m'(1) core(1)]) simp
  then have "sched_ok 3 (m_kernel m')" "task_count (m_kernel m') ! 3 = 0"
    using assms(9,10) same_row_keeps(1) [OF row] by (simp_all add: same_row_def)
  then obtain k' where k': "core3_main m3 entry (m_kernel m') = Inr k'" "mailbox_ready entry (core_after u b out' k')"
    using mailbox_ready_after [OF _ core(2)] by blast
  let ?x = "core_after u b out' k'"
  have "pending (mailbox_slot 3 (k_sys (m_kernel m'))) = []" using n(2) by simp
  from cores_ready_after [OF key n(1) this k'(1) core(2) k'(2)] have ready: "cores_ready entry 0 At_Receive ?x" .
  obtain str where str: "k_sys k' = log_text str (k_sys (m_kernel m'))" using core3_main_frame(2) [OF k'(1) core(2)] ..
  have start: "rb_list (sys_ring (k_sys k')) = []" "pending (mailbox_slot 3 (k_sys k')) = []"
    using ring n(2) by (simp_all add: str mailbox_slot_def split: if_splits)
  have "due_in At_Receive ?x \<le> 2 - 0" by (cases "mailbox_slot 3 (k_sys k')") (simp_all add: due_def core_after_def)
  from cores_run_went [OF ready assms(7) core assms(5,11) this] obtain e acc p x ps where
    x: "cores_run entry hs (At_Receive, ?x) = Inr (e, acc, p, x)" "went At_Receive ?x acc ps p x" "run_end entry e ps p x"
    "e = Yielded \<longrightarrow> due_in p x \<le> 2 - since 0 hs" by blast
  have went: "sys_console (k_sys (c_kernel x)) = sys_console (k_sys k') @ concat (map part_text ps)"
    "keys_read u (c_uart x) = echoes ps @ rb_list (sys_ring (k_sys (c_kernel x)))"
    "kept acc = replies ps @ waiting p (c_out x) (k_sys (c_kernel x))" "in_turn False ps (p = At_Print)"
    using x(2) start by (simp_all add: went_def core_after_def waiting_def)
  have "sys_lock (k_sys (c_kernel x)) = 0 \<and> length (rb_list (sys_ring (k_sys (c_kernel x)))) \<le> 1" if "e \<noteq> Parked"
    using x(3) that by (auto simp: run_end_def cores_ready_def rotation_def)
  moreover have "kept acc = replies ps" if "e \<noteq> Parked" "2 \<le> since 0 hs"
    using x(4) that went(3) nothing_waits [of p "k_sys (c_kernel x)" "c_out x"] by (cases e) auto
  ultimately show ?thesis
    using m'(1) k'(1) x(1,3) went by (cases e) (auto simp: run_end_def intro!: exI [of _ m'] exI [of _ k'])
qed

text \<open>
  Core 1 sends to core 3, which receives the message; core 2 sends while core 3 handles it; a key is
  read and echoed in between.
\<close>

definition busy_moment :: "happening list" where
  "busy_moment = [Message 0x80000001 3 2 0xBEEF, Slice 0x80000000, Part 0x80000003, Message 0x80000002 3 2 7,
     Part 0x80000003, Slice 0x80000000, Part 0x80000003, Part 0x80000003]"

lemma cores_run_together_witness:
  "\<exists>m' k' e acc p x ps. main 0x80000000 (\<lambda>_ _ _ _. 0) 0x40080000 code_at (core3_delay 0x80000003 (\<lambda>_. 1)) []
       (replicate 10 30) (0, 0, 0) reset_machine = Inr m' \<and>
     core3_main 0x80000003 code_at (m_kernel m') = Inr k' \<and>
     cores_run code_at busy_moment (At_Receive, core_after one_key 0 (0, 0, 0) k') = Inr (e, acc, p, x) \<and>
     sys_console (k_sys (c_kernel x)) = sys_console (k_sys k') @ concat (map part_text ps) \<and>
     keys_read one_key (c_uart x) = echoes ps @ rb_list (sys_ring (k_sys (c_kernel x))) \<and>
     (e \<noteq> Parked \<longrightarrow> kept acc = replies ps)"
proof -
  have irqs: "10 \<le> length (filter is_timer (replicate 10 30))" by simp
  have busy: "(1 :: nat) > 0" by simp
  have rows: "sched_ok 3 (m_kernel reset_machine)" "task_count (m_kernel reset_machine) ! 3 = 0"
    using zero_kernel_ok [of 3] by (simp_all add: reset_machine_def)
  have "list_all (happens 0x80000000 0x80000003) busy_moment" by (simp add: busy_moment_def core_ok_def)
  note run = cores_run_together [OF reset_machine_ok(1,2) irqs reset_machine_ok(3,4) busy code_at_inj one_key_fair rows this,
    where hvc = "\<lambda>_ _ _ _. 0" and start = "0x40080000" and quiet = "[]" and out = "(0, 0, 0)" and b = 0 and out' = "(0, 0, 0)"]
  have "2 \<le> since 0 busy_moment" by (simp add: busy_moment_def)
  with run show ?thesis by (auto split: if_splits)
qed

end
