(* ===== verification/Mmu.thy ===== *)
theory Mmu
  imports Spinlock Memory Ipc_Data Irq Uart
begin

text \<open>
  \<^verbatim>\<open>src/mmu.S\<close>: how the cores switch their MMU on.  The first core that gets the lock builds the
  translation table in memory; every core then programs its own registers.  The code is a step
  relation for any number of cores.  A step is at most one access to memory that other cores see,
  with the instructions around it that touch the core's own registers only; \<open>instructions\<close> counts
  them.  The table is read back by the level-1 lookup of the architecture.
\<close>

section \<open>Translation\<close>

definition TTB_BASE :: u64 where "TTB_BASE = 0x40080000"
definition MAIR_VAL :: u64 where "MAIR_VAL = 0x00FF"
definition TCR_VAL :: u64 where "TCR_VAL = 0x803520"
definition SCTLR_VAL :: u64 where "SCTLR_VAL = 0x30C51835"
definition DEVICE_BLOCK :: u64 where "DEVICE_BLOCK = 0x00000000000705"
definition NORMAL_BLOCK :: u64 where "NORMAL_BLOCK = 0x00000000000701"

record mmu_regs =
  ttbr0_el1 :: u64
  mair_el1 :: u64
  tcr_el1 :: u64
  sctlr_el1 :: u64

text \<open>
  A block has an output address, the MAIR attribute of its memory type and a flag that says
  whether the kernel may execute from it.
\<close>

datatype walk = Fault | Next_Table u64 | Block u64 u8 bool

definition mmu_enabled :: "mmu_regs \<Rightarrow> bool" where
  "mmu_enabled r = bit (sctlr_el1 r) 0"

definition T0SZ :: "u64 \<Rightarrow> nat" where
  "T0SZ tcr = unat (take_bit 6 tcr)"

definition attr_of :: "u64 \<Rightarrow> u64 \<Rightarrow> u8" where
  "attr_of mair descr = ucast (drop_bit (8 * unat (take_bit 3 (drop_bit 2 descr))) mair)"

text \<open>
  The lookup of an address of a core that has its MMU on: with 4 KB granules and T0SZ between 25
  and 33 it starts at level 1, whose entries cover 1 GB each.  Bit 0 of an entry is its valid
  bit, bit 1 distinguishes a table from a block, bit 10 is the access flag, bit 53 PXN.
\<close>

definition translate :: "mmu_regs \<Rightarrow> memory \<Rightarrow> u64 \<Rightarrow> walk" where
  "translate r m va =
     (if drop_bit (64 - T0SZ (tcr_el1 r)) va \<noteq> 0 then Fault
      else let descr = dword (ttbr0_el1 r) (unat (drop_bit 30 va)) m in
        if \<not> bit descr 0 then Fault
        else if bit descr 1 then Next_Table (descr AND 0xFFFFFFFFF000)
        else if \<not> bit descr 10 then Fault
        else Block ((descr AND 0xFFFFC0000000) OR take_bit 30 va) (attr_of (mair_el1 r) descr) (\<not> bit descr 53))"

text \<open>The table the code builds, and the registers it loads.\<close>

definition table_built :: "memory \<Rightarrow> bool" where
  "table_built m \<longleftrightarrow> dword TTB_BASE 0 m = DEVICE_BLOCK \<and>
     dword TTB_BASE 1 m = NORMAL_BLOCK OR 0x40000000 \<and>
     (\<forall>i < 512. 2 \<le> i \<longrightarrow> dword TTB_BASE i m = 0)"

definition regs_loaded :: "mmu_regs \<Rightarrow> bool" where
  "regs_loaded r \<longleftrightarrow> ttbr0_el1 r = TTB_BASE \<and> mair_el1 r = MAIR_VAL \<and> tcr_el1 r = TCR_VAL"

lemma block_address:
  fixes va :: u64
  assumes "drop_bit 30 va = k"
  shows "push_bit 30 k OR take_bit 30 va = va"
  by (rule bit_word_eqI) (auto simp: bit_simps simp flip: assms)

lemma gigabyte: "unat (drop_bit 30 (va :: u64)) = unat va div 2 ^ 30"
  by (subst unat_drop_bit_eq) (rule drop_bit_eq_div)

lemma translate_identity:
  assumes table: "table_built m" and regs: "regs_loaded r"
  shows "translate r m va =
    (if va < 0x40000000 then Block va 0x00 True
     else if va < 0x80000000 then Block va 0xFF True else Fault)"
proof -
  let ?i = "unat (drop_bit 30 va)"
  have "T0SZ TCR_VAL = 32" by (simp add: T0SZ_def TCR_VAL_def take_bit_eq_mod)
  moreover have "drop_bit 32 va \<noteq> 0 \<longleftrightarrow> 2 ^ 32 \<le> unat va"
  proof -
    have "drop_bit 32 va \<noteq> 0 \<longleftrightarrow> unat (drop_bit 32 va) \<noteq> 0" by (simp add: word_unat_eq_iff)
    also have "\<dots> \<longleftrightarrow> unat va div 2 ^ 32 \<noteq> 0" by (subst unat_drop_bit_eq, subst drop_bit_eq_div) (rule refl)
    finally show ?thesis by (simp add: Suc_le_eq div_greater_zero_iff)
  qed
  ultimately have size: "drop_bit (64 - T0SZ (tcr_el1 r)) va \<noteq> 0 \<longleftrightarrow> 2 ^ 32 \<le> unat va"
    using regs by (simp add: regs_loaded_def)
  consider "unat va < 2 ^ 30" | "2 ^ 30 \<le> unat va" "unat va < 2 ^ 31"
    | "2 ^ 31 \<le> unat va" "unat va < 2 ^ 32" | "2 ^ 32 \<le> unat va" by linarith
  then show ?thesis
  proof cases
    case 1
    then have "drop_bit 30 va = 0" by (simp add: word_unat_eq_iff gigabyte)
    with block_address [OF this] size 1 table regs show ?thesis
      by (simp add: translate_def table_built_def regs_loaded_def DEVICE_BLOCK_def MAIR_VAL_def
          attr_of_def word_less_nat_alt)
  next
    case 2
    then have "drop_bit 30 va = 1" by (simp add: word_unat_eq_iff gigabyte)
    with block_address [OF this] size 2 table regs show ?thesis
      by (simp add: translate_def table_built_def regs_loaded_def NORMAL_BLOCK_def MAIR_VAL_def
          attr_of_def word_less_nat_alt)
  next
    case 3
    then have "2 \<le> ?i" "?i < 512" by (simp_all add: gigabyte)
    with size 3 table regs show ?thesis
      by (simp add: translate_def table_built_def regs_loaded_def word_less_nat_alt)
  next
    case 4
    with size show ?thesis by (simp add: translate_def word_less_nat_alt)
  qed
qed

section \<open>Switching the MMU on\<close>

text \<open>
  Where a core is in \<^verbatim>\<open>mmu_on\<close>.  \<open>Take_Lock\<close> is the loop over LDAXR and STXR; its instructions are
  those of \<open>Spinlock\<close>; the acquire semantics stand for the barrier.  \<^verbatim>\<open>wfe\<close> is a hint, which lets the
  core go on at any time; \<^verbatim>\<open>sevl\<close> makes the first one return at once, and the store that frees the lock
  clears the exclusive monitors of the cores that wait, which wakes them.
  \<open>Zero_Table i\<close> is about to clear entry \<open>i\<close>.
\<close>

datatype mmu_pc = Take_Lock | Check_Init | Zero_Table nat | Device_Entry | Normal_Entry | Set_Init
  | Load_Regs | Check_Tcr | Enable_Mmu | Unlock | Mmu_Done | Mmu_Hang

record mmu_state =
  mmu_lock :: spin
  mmu_init :: u32
  ram :: memory
  mmu_at :: "nat \<Rightarrow> mmu_pc"
  mmu_regs_of :: "nat \<Rightarrow> mmu_regs"

definition mmu_goto :: "nat \<Rightarrow> mmu_pc \<Rightarrow> mmu_state \<Rightarrow> mmu_state" where
  "mmu_goto c l s = s\<lparr>mmu_at := (mmu_at s)(c := l)\<rparr>"

definition set_regs :: "nat \<Rightarrow> mmu_regs \<Rightarrow> mmu_state \<Rightarrow> mmu_state" where
  "set_regs c r s = s\<lparr>mmu_regs_of := (mmu_regs_of s)(c := r)\<rparr>"

definition write_entry :: "nat \<Rightarrow> u64 \<Rightarrow> mmu_state \<Rightarrow> mmu_state" where
  "write_entry i v s = s\<lparr>ram := store64 (TTB_BASE + of_nat (8 * i)) v (ram s)\<rparr>"

text \<open>
  One step of core \<open>c\<close>; \<open>keeps\<close> is what the core's translation control register keeps of a value
  written to it.  The release is a single store, the last instruction of \<open>Spinlock\<close>'s sequence
  that matters.
\<close>

definition mmu_exec :: "(u64 \<Rightarrow> u64) \<Rightarrow> nat \<Rightarrow> bool \<Rightarrow> mmu_state \<Rightarrow> mmu_state" where
  "mmu_exec keeps c spurious s = (let r = mmu_regs_of s c in case mmu_at s c of
     Take_Lock \<Rightarrow>
       let l = spin_exec c spurious (mmu_lock s)
       in mmu_goto c (if pc l c = Held then Check_Init else Take_Lock) (s\<lparr>mmu_lock := l\<rparr>)
   | Check_Init \<Rightarrow> mmu_goto c (if mmu_init s \<noteq> 0 then Load_Regs else Zero_Table 0) s
   | Zero_Table i \<Rightarrow> mmu_goto c (if Suc i < 512 then Zero_Table (Suc i) else Device_Entry) (write_entry i 0 s)
   | Device_Entry \<Rightarrow> mmu_goto c Normal_Entry (write_entry 0 DEVICE_BLOCK s)
   | Normal_Entry \<Rightarrow> mmu_goto c Set_Init (write_entry 1 (NORMAL_BLOCK OR 0x40000000) s)
   | Set_Init \<Rightarrow> mmu_goto c Load_Regs (s\<lparr>mmu_init := 1\<rparr>)
   | Load_Regs \<Rightarrow> mmu_goto c Check_Tcr (set_regs c
       (r\<lparr>ttbr0_el1 := TTB_BASE, mair_el1 := MAIR_VAL, tcr_el1 := keeps TCR_VAL\<rparr>) s)
   | Check_Tcr \<Rightarrow> mmu_goto c (if tcr_el1 r \<noteq> TCR_VAL then Mmu_Hang else Enable_Mmu) s
   | Enable_Mmu \<Rightarrow> mmu_goto c Unlock (set_regs c (r\<lparr>sctlr_el1 := SCTLR_VAL\<rparr>) s)
   | Unlock \<Rightarrow> mmu_goto c Mmu_Done (s\<lparr>mmu_lock := alone c 3 (mmu_lock s)\<rparr>)
   | Mmu_Done \<Rightarrow> s
   | Mmu_Hang \<Rightarrow> s)"

text \<open>
  How many instructions of \<^verbatim>\<open>mmu.S\<close> the next step of core \<open>c\<close> stands for: \<^verbatim>\<open>adrp\<close>, \<^verbatim>\<open>add\<close> and \<^verbatim>\<open>mov\<close>, \<^verbatim>\<open>sevl\<close>
  before the loop, \<^verbatim>\<open>wfe\<close> and \<^verbatim>\<open>ldaxr\<close> in it; the loads of the addresses and constants before each
  access; the three instructions of the zero loop; the barriers and TLB maintenance.
\<close>

definition instructions :: "mmu_state \<Rightarrow> nat \<Rightarrow> nat" where
  "instructions s c = (case mmu_at s c of
     Take_Lock \<Rightarrow> (case pc (mmu_lock s) c of Idle \<Rightarrow> 2 | A_Mov \<Rightarrow> 2 | A_Ldxr \<Rightarrow> 2 | A_Dmb \<Rightarrow> 0 | _ \<Rightarrow> 1)
   | Check_Init \<Rightarrow> if mmu_init s \<noteq> 0 then 4 else 7
   | Zero_Table i \<Rightarrow> 3
   | Device_Entry \<Rightarrow> 3
   | Normal_Entry \<Rightarrow> 4
   | Set_Init \<Rightarrow> 2
   | Load_Regs \<Rightarrow> 7
   | Check_Tcr \<Rightarrow> 4
   | Enable_Mmu \<Rightarrow> 6
   | Unlock \<Rightarrow> 4
   | Mmu_Done \<Rightarrow> 0
   | Mmu_Hang \<Rightarrow> 2)"

text \<open>
  At reset the MMUs are off and the two variables of \<^verbatim>\<open>.data.mmu\<close> are 0; memory is arbitrary.  Cores that
  are started later may find the flag set and the table built.
\<close>

definition mmu_start :: "mmu_state \<Rightarrow> bool" where
  "mmu_start s \<longleftrightarrow> spin_start (mmu_lock s) \<and> (mmu_init s = 0 \<or> table_built (ram s)) \<and>
     (\<forall>c. mmu_at s c = Take_Lock \<and> \<not> mmu_enabled (mmu_regs_of s c))"

inductive mmu_reach :: "(u64 \<Rightarrow> u64) \<Rightarrow> mmu_state \<Rightarrow> bool" for keeps where
  reset: "mmu_start s \<Longrightarrow> mmu_reach keeps s"
| step: "mmu_reach keeps s \<Longrightarrow> mmu_reach keeps (mmu_exec keeps c spurious s)"

section \<open>The invariant\<close>

lemma mmu_simps [simp]:
  "mmu_lock (mmu_goto c l s) = mmu_lock s" "mmu_init (mmu_goto c l s) = mmu_init s"
  "ram (mmu_goto c l s) = ram s" "mmu_at (mmu_goto c l s) = (mmu_at s)(c := l)"
  "mmu_regs_of (mmu_goto c l s) = mmu_regs_of s"
  "mmu_lock (set_regs c r s) = mmu_lock s" "mmu_init (set_regs c r s) = mmu_init s"
  "ram (set_regs c r s) = ram s" "mmu_at (set_regs c r s) = mmu_at s"
  "mmu_regs_of (set_regs c r s) = (mmu_regs_of s)(c := r)"
  "mmu_lock (write_entry i v s) = mmu_lock s" "mmu_init (write_entry i v s) = mmu_init s"
  "mmu_at (write_entry i v s) = mmu_at s" "mmu_regs_of (write_entry i v s) = mmu_regs_of s"
  by (simp_all add: mmu_goto_def set_regs_def write_entry_def)

lemma write_entry_dword [simp]:
  assumes "i < 512" "j < 512"
  shows "dword TTB_BASE i (ram (write_entry j v s)) = (if i = j then v else dword TTB_BASE i (ram s))"
  using dword_store [of i j TTB_BASE v "ram s"] assms by (simp add: write_entry_def)

text \<open>The cores between the lock and its release, and among them those that build the table.\<close>

definition inside :: "mmu_pc \<Rightarrow> bool" where
  "inside l \<longleftrightarrow> l \<noteq> Take_Lock \<and> l \<noteq> Mmu_Done"

text \<open>How far the table and the registers of a core are at each point.\<close>

primrec table_at :: "mmu_pc \<Rightarrow> memory \<Rightarrow> u32 \<Rightarrow> bool" where
  "table_at Take_Lock m ready \<longleftrightarrow> True"
| "table_at Check_Init m ready \<longleftrightarrow> True"
| "table_at (Zero_Table i) m ready \<longleftrightarrow> ready = 0 \<and> i < 512 \<and> (\<forall>j < i. dword TTB_BASE j m = 0)"
| "table_at Device_Entry m ready \<longleftrightarrow> ready = 0 \<and> (\<forall>j < 512. dword TTB_BASE j m = 0)"
| "table_at Normal_Entry m ready \<longleftrightarrow> ready = 0 \<and> dword TTB_BASE 0 m = DEVICE_BLOCK \<and>
     (\<forall>j < 512. 1 \<le> j \<longrightarrow> dword TTB_BASE j m = 0)"
| "table_at Set_Init m ready \<longleftrightarrow> ready = 0 \<and> table_built m"
| "table_at Load_Regs m ready \<longleftrightarrow> ready \<noteq> 0"
| "table_at Check_Tcr m ready \<longleftrightarrow> ready \<noteq> 0"
| "table_at Enable_Mmu m ready \<longleftrightarrow> ready \<noteq> 0"
| "table_at Unlock m ready \<longleftrightarrow> ready \<noteq> 0"
| "table_at Mmu_Done m ready \<longleftrightarrow> ready \<noteq> 0"
| "table_at Mmu_Hang m ready \<longleftrightarrow> ready \<noteq> 0"

definition regs_at :: "(u64 \<Rightarrow> u64) \<Rightarrow> mmu_pc \<Rightarrow> mmu_regs \<Rightarrow> bool" where
  "regs_at keeps l r \<longleftrightarrow>
     (if l \<in> {Unlock, Mmu_Done} then sctlr_el1 r = SCTLR_VAL else \<not> mmu_enabled r) \<and>
     (l \<in> {Enable_Mmu, Unlock, Mmu_Done} \<longrightarrow> regs_loaded r \<and> keeps TCR_VAL = TCR_VAL) \<and>
     (l = Check_Tcr \<longrightarrow> ttbr0_el1 r = TTB_BASE \<and> mair_el1 r = MAIR_VAL \<and> tcr_el1 r = keeps TCR_VAL) \<and>
     (l = Mmu_Hang \<longrightarrow> keeps TCR_VAL \<noteq> TCR_VAL)"

definition lock_at :: "mmu_pc \<Rightarrow> spin_pc \<Rightarrow> bool" where
  "lock_at l p \<longleftrightarrow>
     (if inside l then p = Held
      else if l = Take_Lock then p \<in> {Idle, A_Mov, A_Ldxr, A_Cbnz_Locked, A_Stxr, A_Cbnz_Failed, A_Dmb}
      else p = R_Dsb)"

definition mmu_inv :: "(u64 \<Rightarrow> u64) \<Rightarrow> mmu_state \<Rightarrow> bool" where
  [inv_defs]: "mmu_inv keeps s \<longleftrightarrow> spin_reach (mmu_lock s) \<and>
     (mmu_init s \<noteq> 0 \<longrightarrow> table_built (ram s)) \<and>
     (\<forall>c. lock_at (mmu_at s c) (pc (mmu_lock s) c) \<and> table_at (mmu_at s c) (ram s) (mmu_init s) \<and>
        regs_at keeps (mmu_at s c) (mmu_regs_of s c))"

lemma mmu_inv_start: "mmu_start s \<Longrightarrow> mmu_inv keeps s"
  using spin_reach.start [of "mmu_lock s"]
  by (auto simp: mmu_start_def mmu_inv_def lock_at_def inside_def regs_at_def spin_start_def)

text \<open>Other cores keep their place, their registers and their part of the lock code.\<close>

lemma mmu_exec_other:
  assumes "d \<noteq> c"
  shows "mmu_at (mmu_exec keeps c sp s) d = mmu_at s d"
    "mmu_regs_of (mmu_exec keeps c sp s) d = mmu_regs_of s d"
    "pc (mmu_lock (mmu_exec keeps c sp s)) d = pc (mmu_lock s) d"
proof -
  have other: "pc (spin_exec c b l) d = pc l d" for b l
    using assms by (cases "pc l c") (simp_all add: spin_exec_def)
  then have "pc (alone c n l) d = pc l d" for n l by (induction n) simp_all
  with other assms show "mmu_at (mmu_exec keeps c sp s) d = mmu_at s d"
    "mmu_regs_of (mmu_exec keeps c sp s) d = mmu_regs_of s d"
    "pc (mmu_lock (mmu_exec keeps c sp s)) d = pc (mmu_lock s) d"
    by (auto simp: mmu_exec_def Let_def split: mmu_pc.splits)
qed

lemma one_inside:
  assumes "mmu_inv keeps s" "inside (mmu_at s c)" "inside (mmu_at s d)"
  shows "c = d"
  using assms spin_owner_unique [of "mmu_lock s" c d] by (auto simp: mmu_inv_def lock_at_def owns_def split: if_splits)

lemma mmu_exec_lock:
  assumes "mmu_inv keeps s"
  shows "spin_reach (mmu_lock (mmu_exec keeps c sp s))"
    "lock_at (mmu_at (mmu_exec keeps c sp s) c) (pc (mmu_lock (mmu_exec keeps c sp s)) c)"
proof -
  have reach: "spin_reach (mmu_lock s)" and at: "lock_at (mmu_at s c) (pc (mmu_lock s) c)"
    using assms by (simp_all add: mmu_inv_def)
  show "spin_reach (mmu_lock (mmu_exec keeps c sp s))"
    using reach spin_reach_alone [OF reach, of 3 c] spin_reach.step [OF reach, of c sp]
    by (simp add: mmu_exec_def Let_def split: mmu_pc.split)
  show "lock_at (mmu_at (mmu_exec keeps c sp s) c) (pc (mmu_lock (mmu_exec keeps c sp s)) c)"
  proof (cases "mmu_at s c = Take_Lock")
    case True
    with at have "pc (mmu_lock s) c \<in> {Idle, A_Mov, A_Ldxr, A_Cbnz_Locked, A_Stxr, A_Cbnz_Failed, A_Dmb}"
      by (simp add: lock_at_def inside_def)
    with True show ?thesis by (auto simp: mmu_exec_def Let_def lock_at_def inside_def spin_exec_def)
  next
    case False
    with at show ?thesis
      by (cases "mmu_at s c") (auto simp: mmu_exec_def Let_def lock_at_def inside_def spin_exec_def eval_nat_numeral)
  qed
qed

lemma mmu_exec_table:
  assumes "mmu_inv keeps s"
  shows "table_at (mmu_at (mmu_exec keeps c sp s) c) (ram (mmu_exec keeps c sp s)) (mmu_init (mmu_exec keeps c sp s))"
    (is ?table)
    and "regs_at keeps (mmu_at (mmu_exec keeps c sp s) c) (mmu_regs_of (mmu_exec keeps c sp s) c)" (is ?regs)
    and "mmu_init (mmu_exec keeps c sp s) \<noteq> 0 \<Longrightarrow> table_built (ram (mmu_exec keeps c sp s))" (is "_ \<Longrightarrow> ?built")
proof -
  have t: "table_at (mmu_at s c) (ram s) (mmu_init s)" and r: "regs_at keeps (mmu_at s c) (mmu_regs_of s c)"
    and b: "mmu_init s \<noteq> 0 \<longrightarrow> table_built (ram s)"
    using assms by (simp_all add: mmu_inv_def)
  show ?table using t
    by (cases "mmu_at s c") (auto simp: mmu_exec_def Let_def table_built_def less_Suc_eq)
  show ?regs using r
    by (cases "mmu_at s c") (auto simp: mmu_exec_def Let_def regs_at_def regs_loaded_def mmu_enabled_def)
  show ?built if "mmu_init (mmu_exec keeps c sp s) \<noteq> 0"
    using b t that by (cases "mmu_at s c") (auto simp: mmu_exec_def Let_def)
qed

text \<open>Only a core that builds the table changes memory or the flag; every other core is past
  \<open>Check_Init\<close> only when the flag is set.\<close>

lemma mmu_exec_shared:
  assumes "mmu_init s \<noteq> 0" "mmu_inv keeps s"
  shows "ram (mmu_exec keeps c sp s) = ram s" "mmu_init (mmu_exec keeps c sp s) = mmu_init s"
proof -
  have "table_at (mmu_at s c) (ram s) (mmu_init s)" using assms(2) by (simp add: mmu_inv_def)
  with assms(1) show "ram (mmu_exec keeps c sp s) = ram s" "mmu_init (mmu_exec keeps c sp s) = mmu_init s"
    by (auto simp: mmu_exec_def Let_def split: mmu_pc.splits)
qed

lemma mmu_exec_outside:
  "\<not> inside (mmu_at s c) \<Longrightarrow> ram (mmu_exec keeps c sp s) = ram s \<and> mmu_init (mmu_exec keeps c sp s) = mmu_init s"
  by (auto simp: mmu_exec_def Let_def inside_def)

lemma mmu_inv_exec:
  assumes inv: "mmu_inv keeps s"
  shows "mmu_inv keeps (mmu_exec keeps c sp s)" (is "mmu_inv keeps ?s")
proof -
  have "table_at (mmu_at s d) (ram ?s) (mmu_init ?s)" if "d \<noteq> c" for d
  proof -
    have old: "table_at (mmu_at s d) (ram s) (mmu_init s)" using inv by (simp add: mmu_inv_def)
    have "\<not> inside (mmu_at s c) \<or> \<not> inside (mmu_at s d)" using one_inside [OF inv, of c d] that by auto
    then consider "\<not> inside (mmu_at s c)" | "\<not> inside (mmu_at s d)" by blast
    then show ?thesis
    proof cases
      case 1
      with old show ?thesis by (simp add: mmu_exec_outside)
    next
      case 2
      then have "mmu_at s d = Take_Lock \<or> mmu_at s d = Mmu_Done" by (simp add: inside_def)
      with old mmu_exec_shared(2) [OF _ inv, of c sp] show ?thesis by auto
    qed
  qed
  then have "lock_at (mmu_at ?s d) (pc (mmu_lock ?s) d) \<and> table_at (mmu_at ?s d) (ram ?s) (mmu_init ?s) \<and>
      regs_at keeps (mmu_at ?s d) (mmu_regs_of ?s d)" for d
    using inv mmu_exec_lock(2) [OF inv] mmu_exec_table(1,2) [OF inv]
    by (cases "d = c") (simp_all add: mmu_exec_other mmu_inv_def)
  then show ?thesis
    using mmu_exec_lock(1) [OF inv] mmu_exec_table(3) [OF inv] unfolding mmu_inv_def by blast
qed

lemma mmu_reach_inv: "mmu_reach keeps s \<Longrightarrow> mmu_inv keeps s"
  by (induction rule: mmu_reach.induct) (auto intro: mmu_inv_start mmu_inv_exec)

section \<open>Progress\<close>

abbreviation mmu_alone :: "(u64 \<Rightarrow> u64) \<Rightarrow> nat \<Rightarrow> nat \<Rightarrow> mmu_state \<Rightarrow> mmu_state" where
  "mmu_alone keeps c n s \<equiv> (mmu_exec keeps c False ^^ n) s"

lemma mmu_reach_alone: "mmu_reach keeps s \<Longrightarrow> mmu_reach keeps (mmu_alone keeps c n s)"
  by (induction n) (simp_all add: mmu_reach.step)

text \<open>The instructions of \<open>n\<close> steps that core \<open>c\<close> makes alone.\<close>

primrec run_cost :: "(u64 \<Rightarrow> u64) \<Rightarrow> nat \<Rightarrow> nat \<Rightarrow> mmu_state \<Rightarrow> nat" where
  "run_cost keeps c 0 s = 0"
| "run_cost keeps c (Suc n) s = instructions s c + run_cost keeps c n (mmu_exec keeps c False s)"

lemma run_cost_add: "run_cost keeps c (m + n) s = run_cost keeps c m s + run_cost keeps c n (mmu_alone keeps c m s)"
  by (induction m arbitrary: s) (simp_all flip: funpow_Suc_right add: funpow_swap1)

lemma run_cost_wait:
  assumes "\<And>k. k < n \<Longrightarrow> mmu_at (mmu_alone keeps c k s) c = Take_Lock"
  shows "run_cost keeps c n s \<le> 2 * n"
proof -
  have one: "mmu_at s c = Take_Lock \<Longrightarrow> instructions s c \<le> 2" for s by (simp add: instructions_def split: spin_pc.split)
  show ?thesis using assms
  proof (induction n)
    case (Suc n)
    then have "run_cost keeps c n s \<le> 2 * n" "instructions (mmu_alone keeps c n s) c \<le> 2" using one by simp_all
    then show ?case using run_cost_add [of keeps c n 1 s] by simp
  qed simp
qed

text \<open>How many steps, and how many instructions, a core inside is away from its return.\<close>

primrec to_go :: "mmu_pc \<Rightarrow> nat" where
  "to_go Take_Lock = 0"
| "to_go Check_Init = 520"
| "to_go (Zero_Table i) = 519 - i"
| "to_go Device_Entry = 7"
| "to_go Normal_Entry = 6"
| "to_go Set_Init = 5"
| "to_go Load_Regs = 4"
| "to_go Check_Tcr = 3"
| "to_go Enable_Mmu = 2"
| "to_go Unlock = 1"
| "to_go Mmu_Done = 0"
| "to_go Mmu_Hang = 0"

primrec to_execute :: "mmu_pc \<Rightarrow> nat" where
  "to_execute Take_Lock = 0"
| "to_execute Check_Init = 1573"
| "to_execute (Zero_Table i) = 30 + 3 * (512 - i)"
| "to_execute Device_Entry = 30"
| "to_execute Normal_Entry = 27"
| "to_execute Set_Init = 23"
| "to_execute Load_Regs = 21"
| "to_execute Check_Tcr = 14"
| "to_execute Enable_Mmu = 10"
| "to_execute Unlock = 4"
| "to_execute Mmu_Done = 0"
| "to_execute Mmu_Hang = 0"

lemma inside_step:
  assumes "mmu_inv keeps s" "inside (mmu_at s c)" "mmu_at s c \<noteq> Unlock" "keeps TCR_VAL = TCR_VAL"
  shows "inside (mmu_at (mmu_exec keeps c sp s) c) \<and> to_go (mmu_at (mmu_exec keeps c sp s) c) < to_go (mmu_at s c) \<and>
    instructions s c + to_execute (mmu_at (mmu_exec keeps c sp s) c) \<le> to_execute (mmu_at s c)"
proof -
  have "table_at (mmu_at s c) (ram s) (mmu_init s)" "regs_at keeps (mmu_at s c) (mmu_regs_of s c)"
    using assms(1) by (simp_all add: mmu_inv_def)
  with assms(2-) show ?thesis
    by (cases "mmu_at s c") (auto simp: mmu_exec_def Let_def inside_def regs_at_def instructions_def)
qed

lemma inside_returns:
  assumes "mmu_inv keeps s" "inside (mmu_at s c)" "keeps TCR_VAL = TCR_VAL"
  shows "\<exists>n \<le> to_go (mmu_at s c). mmu_at (mmu_alone keeps c n s) c = Mmu_Done \<and>
    lock_word (mmu_lock (mmu_alone keeps c n s)) = 0 \<and> run_cost keeps c n s \<le> to_execute (mmu_at s c)"
  using assms
proof (induction "to_go (mmu_at s c)" arbitrary: s rule: less_induct)
  case less
  show ?case
  proof (cases "mmu_at s c = Unlock")
    case True
    moreover have "pc (mmu_lock s) c = Held" using less.prems(1,2) by (auto simp: mmu_inv_def lock_at_def)
    ultimately show ?thesis
      by (intro exI [of _ 1]) (simp add: mmu_exec_def spin_exec_def eval_nat_numeral instructions_def)
  next
    case False
    let ?s = "mmu_exec keeps c False s"
    have step: "inside (mmu_at ?s c)" "to_go (mmu_at ?s c) < to_go (mmu_at s c)"
      "instructions s c + to_execute (mmu_at ?s c) \<le> to_execute (mmu_at s c)"
      using inside_step [OF less.prems(1,2) False less.prems(3)] by blast+
    from less.hyps [OF step(2) mmu_inv_exec [OF less.prems(1)] step(1) less.prems(3)] obtain n where
      n: "n \<le> to_go (mmu_at ?s c)" "mmu_at (mmu_alone keeps c n ?s) c = Mmu_Done"
      "lock_word (mmu_lock (mmu_alone keeps c n ?s)) = 0" "run_cost keeps c n ?s \<le> to_execute (mmu_at ?s c)" by blast
    have "mmu_alone keeps c (Suc n) s = mmu_alone keeps c n ?s" by (simp add: funpow_swap1)
    with n step show ?thesis by (intro exI [of _ "Suc n"]) simp
  qed
qed

lemma exec_take_lock:
  "mmu_at s c = Take_Lock \<Longrightarrow> mmu_exec keeps c sp s =
     mmu_goto c (if pc (spin_exec c sp (mmu_lock s)) c = Held then Check_Init else Take_Lock)
       (s\<lparr>mmu_lock := spin_exec c sp (mmu_lock s)\<rparr>)"
  by (simp add: mmu_exec_def Let_def)

lemma take_lock_alone:
  assumes "mmu_at s c = Take_Lock" and "\<And>k. k \<le> n \<Longrightarrow> pc (alone c k (mmu_lock s)) c \<noteq> Held"
  shows "mmu_at (mmu_alone keeps c n s) c = Take_Lock \<and> mmu_lock (mmu_alone keeps c n s) = alone c n (mmu_lock s)"
  using assms(2)
proof (induction n)
  case 0
  then show ?case using assms(1) by simp
next
  case (Suc n)
  from Suc.IH Suc.prems have "mmu_at (mmu_alone keeps c n s) c = Take_Lock"
    "mmu_lock (mmu_alone keeps c n s) = alone c n (mmu_lock s)" by simp_all
  with Suc.prems [of "Suc n"] show ?case by (simp add: exec_take_lock)
qed

lemma take_lock_enters:
  assumes "mmu_at s c = Take_Lock" "pc (mmu_lock s) c \<noteq> Held" "pc (alone c n (mmu_lock s)) c = Held"
  shows "\<exists>k \<le> n. mmu_at (mmu_alone keeps c k s) c = Check_Init \<and> run_cost keeps c k s \<le> 2 * k"
proof -
  define k where "k = (LEAST k. pc (alone c k (mmu_lock s)) c = Held)"
  have k: "pc (alone c k (mmu_lock s)) c = Held" "k \<le> n"
    using assms(3) unfolding k_def by (rule LeastI, rule Least_le)
  have "k \<noteq> 0"
  proof
    assume "k = 0"
    with k(1) assms(2) show False by simp
  qed
  then obtain j where j: "k = Suc j" by (cases k) auto
  have "pc (alone c i (mmu_lock s)) c \<noteq> Held" if "i \<le> j" for i
    using that not_less_Least [of i "\<lambda>k. pc (alone c k (mmu_lock s)) c = Held"] j by (auto simp: k_def)
  then have wait: "mmu_at (mmu_alone keeps c i s) c = Take_Lock \<and> mmu_lock (mmu_alone keeps c i s) = alone c i (mmu_lock s)"
    if "i \<le> j" for i using take_lock_alone [OF assms(1), of i keeps] that by auto
  then have "mmu_at (mmu_alone keeps c k s) c = Check_Init"
    using k(1) j wait [of j] by (simp add: exec_take_lock)
  moreover have "run_cost keeps c k s \<le> 2 * k" using wait j by (intro run_cost_wait) simp
  ultimately show ?thesis using k(2) by blast
qed

text \<open>A core that wants the free lock returns, and so does the owner of a taken one.\<close>

lemma enter_returns:
  assumes inv: "mmu_inv keeps s" and keeps: "keeps TCR_VAL = TCR_VAL"
    and enters: "mmu_at (mmu_alone keeps c k s) c = Check_Init" "mmu_reach keeps s"
  shows "\<exists>n \<le> k + 520. mmu_at (mmu_alone keeps c n s) c = Mmu_Done \<and> lock_word (mmu_lock (mmu_alone keeps c n s)) = 0 \<and>
    run_cost keeps c n s \<le> run_cost keeps c k s + 1573"
proof -
  let ?s = "mmu_alone keeps c k s"
  have "mmu_inv keeps ?s" by (rule mmu_reach_inv [OF mmu_reach_alone [OF enters(2)]])
  from inside_returns [OF this _ keeps, of c] enters(1)
  obtain n where "n \<le> 520" "mmu_at (mmu_alone keeps c n ?s) c = Mmu_Done"
    "lock_word (mmu_lock (mmu_alone keeps c n ?s)) = 0" "run_cost keeps c n ?s \<le> 1573" by (auto simp: inside_def)
  moreover have "mmu_alone keeps c (k + n) s = mmu_alone keeps c n ?s" by (subst add.commute) (simp add: funpow_add)
  ultimately show ?thesis by (intro exI [of _ "k + n"]) (simp add: run_cost_add)
qed

lemma waiting_returns:
  assumes reach: "mmu_reach keeps s" and keeps: "keeps TCR_VAL = TCR_VAL"
    and wait: "mmu_at s c = Take_Lock" and go: "lock_word (mmu_lock s) = 0 \<or> owns (mmu_lock s) c"
  shows "\<exists>n \<le> 529. mmu_at (mmu_alone keeps c n s) c = Mmu_Done \<and> lock_word (mmu_lock (mmu_alone keeps c n s)) = 0 \<and>
    run_cost keeps c n s \<le> 1591"
proof -
  have inv: "mmu_inv keeps s" by (rule mmu_reach_inv [OF reach])
  then have lock: "spin_reach (mmu_lock s)" and out: "pc (mmu_lock s) c \<noteq> Held"
    using wait by (auto simp: mmu_inv_def lock_at_def inside_def dest: spec [of _ c])
  have at: "lock_at Take_Lock (pc (mmu_lock s) c)" using inv wait by (auto simp: mmu_inv_def dest: spec [of _ c])
  have "\<exists>n \<le> 9. pc (alone c n (mmu_lock s)) c = Held"
  proof (cases "lock_word (mmu_lock s) = 0")
    case True
    then show ?thesis by (rule alone_progress [OF lock])
  next
    case False
    with go consider "pc (mmu_lock s) c = A_Dmb" | "pc (mmu_lock s) c = A_Cbnz_Failed" "w_tmp (mmu_lock s) c = 0"
      using at by (auto simp: owns_def lock_at_def inside_def)
    then show ?thesis
    proof cases
      case 1
      then show ?thesis by (intro exI [of _ 1]) (simp add: spin_exec_def)
    next
      case 2
      then show ?thesis by (intro exI [of _ 2]) (simp add: spin_exec_def eval_nat_numeral)
    qed
  qed
  then obtain n where n: "n \<le> 9" "pc (alone c n (mmu_lock s)) c = Held" by blast
  from take_lock_enters [OF wait out n(2)] obtain k where "k \<le> n" "mmu_at (mmu_alone keeps c k s) c = Check_Init"
    "run_cost keeps c k s \<le> 2 * k" by blast
  moreover from enter_returns [OF inv keeps this(2) reach] obtain m where "m \<le> k + 520"
    "mmu_at (mmu_alone keeps c m s) c = Mmu_Done" "lock_word (mmu_lock (mmu_alone keeps c m s)) = 0"
    "run_cost keeps c m s \<le> run_cost keeps c k s + 1573" by blast
  ultimately show ?thesis using n(1) by (intro exI [of _ m]) simp
qed

lemma mmu_reach_at:
  assumes "mmu_reach keeps s"
  shows "lock_at (mmu_at s c) (pc (mmu_lock s) c)" "table_at (mmu_at s c) (ram s) (mmu_init s)"
    "regs_at keeps (mmu_at s c) (mmu_regs_of s c)" "mmu_init s \<noteq> 0 \<Longrightarrow> table_built (ram s)"
  using mmu_reach_inv [OF assms] by (simp_all add: mmu_inv_def)

lemma mmu_enabled_at:
  assumes "mmu_reach keeps s"
  shows "mmu_enabled (mmu_regs_of s c) \<longleftrightarrow> mmu_at s c \<in> {Unlock, Mmu_Done}"
  using mmu_reach_at(3) [OF assms, of c] by (auto simp: regs_at_def mmu_enabled_def SCTLR_VAL_def split: if_splits)

lemma enabled_translation:
  assumes "mmu_reach keeps s" and "mmu_enabled (mmu_regs_of s c)"
  shows "translate (mmu_regs_of s c) (ram s) va =
    (if va < 0x40000000 then Block va 0x00 True
     else if va < 0x80000000 then Block va 0xFF True else Fault)"
proof -
  have at: "mmu_at s c = Unlock \<or> mmu_at s c = Mmu_Done" using assms mmu_enabled_at by blast
  with mmu_reach_at(2) [OF assms(1), of c] have "mmu_init s \<noteq> 0" by auto
  then have "table_built (ram s)" by (rule mmu_reach_at(4) [OF assms(1)])
  moreover have "regs_loaded (mmu_regs_of s c)" using at mmu_reach_at(3) [OF assms(1), of c] by (auto simp: regs_at_def)
  ultimately show ?thesis by (rule translate_identity)
qed

section \<open>Properties\<close>

definition mmu0 :: mmu_state where
  "mmu0 = \<lparr>mmu_lock = spin0, mmu_init = 0, ram = (\<lambda>a. 0xAA), mmu_at = (\<lambda>c. Take_Lock),
     mmu_regs_of = (\<lambda>c. \<lparr>ttbr0_el1 = 0, mair_el1 = 0, tcr_el1 = 0, sctlr_el1 = 0x30C50830\<rparr>)\<rparr>"

lemma mmu0_reach: "mmu_reach keeps mmu0"
  by (rule mmu_reach.reset) (auto simp: mmu_start_def mmu0_def spin_start_def spin0_def mmu_enabled_def)

lemma mmu0_returns: "\<exists>n. mmu_at (mmu_alone (\<lambda>v. v) c n mmu0) c = Mmu_Done"
  using waiting_returns [OF mmu0_reach, of "\<lambda>v. v" c] by (auto simp: mmu0_def spin0_def spinlock_init_def)

text \<open>
  Property C18: whatever the interleaving of the cores, a core that has returned from
  \<^verbatim>\<open>mmu_on\<close> has its MMU on, and a core that has its MMU on sees every address below 2 GB at
  itself, the first gigabyte as device memory and the second as cached normal memory, and faults
  beyond.  So no core uses a table another one has not finished.
\<close>
theorem mmu_identity_map:
  assumes "mmu_reach keeps s"
  shows "(mmu_at s c = Mmu_Done \<longrightarrow> mmu_enabled (mmu_regs_of s c)) \<and>
    (mmu_enabled (mmu_regs_of s c) \<longrightarrow> translate (mmu_regs_of s c) (ram s) va =
       (if va < 0x40000000 then Block va 0x00 True
        else if va < 0x80000000 then Block va 0xFF True else Fault))"
  using mmu_enabled_at [OF assms] enabled_translation [OF assms] by blast

lemma mmu_identity_map_witness:
  "\<exists>n. translate (mmu_regs_of (mmu_alone (\<lambda>v. v) 2 n mmu0) 2) (ram (mmu_alone (\<lambda>v. v) 2 n mmu0)) 0x40220000 =
     Block 0x40220000 0xFF True"
proof -
  obtain n where n: "mmu_at (mmu_alone (\<lambda>v. v) 2 n mmu0) 2 = Mmu_Done" using mmu0_returns by blast
  with mmu_identity_map [OF mmu_reach_alone [OF mmu0_reach], where c = 2 and va = "0x40220000"]
  show ?thesis by (intro exI [of _ n]) simp
qed

text \<open>
  The program's addresses have the memory type they need.  With the MMU on,
  the registers of the interrupt controller and of the QEMU UART are device memory, the stacks and
  everything the cores share are cached normal memory.  The address \<^verbatim>\<open>uart0.h\<close> gives the UART of
  the Raspberry Pi is not below 1 GB and would be cached.
\<close>
theorem memory_types:
  assumes "mmu_reach keeps s" and "mmu_enabled (mmu_regs_of s c)"
  shows "\<forall>a. GICD_BASE \<le> a \<and> a < GICC_BASE + 0x1000 \<or>
        UART0_BASE TARGET_QEMU \<le> a \<and> a < UART0_BASE TARGET_QEMU + 0x1000 \<longrightarrow>
      translate (mmu_regs_of s c) (ram s) a = Block a 0x00 True"
    and "\<forall>(b, n) \<in> set shared_regions. \<forall>a. b \<le> unat a \<and> unat a < b + n \<longrightarrow>
      translate (mmu_regs_of s c) (ram s) a = Block a 0xFF True"
    and "translate (mmu_regs_of s c) (ram s) (UART0_BASE TARGET_RPI5) = Block (UART0_BASE TARGET_RPI5) 0xFF True"
  using enabled_translation [OF assms]
  by (auto simp: gic_defs UART0_BASE_def word_less_nat_alt word_le_nat_alt shared_regions_def memory_map_defs
      SHARED_MEM_BASE_def GET_MAILBOX_def boot_stack_top_def sizeof_mailbox_def sizeof_ring_buffer_def)

lemma memory_types_witness:
  "\<exists>n. translate (mmu_regs_of (mmu_alone (\<lambda>v. v) 0 n mmu0) 0) (ram (mmu_alone (\<lambda>v. v) 0 n mmu0)) 0x0801000C =
     Block 0x0801000C 0x00 True"
proof -
  obtain n where n: "mmu_at (mmu_alone (\<lambda>v. v) 0 n mmu0) 0 = Mmu_Done" using mmu0_returns by blast
  have reach: "mmu_reach (\<lambda>v. v) (mmu_alone (\<lambda>v. v) 0 n mmu0)" by (rule mmu_reach_alone [OF mmu0_reach])
  with n have "mmu_enabled (mmu_regs_of (mmu_alone (\<lambda>v. v) 0 n mmu0) 0)" by (simp add: mmu_enabled_at)
  from memory_types(1) [OF reach this] show ?thesis
    by (intro exI [of _ n]) (simp add: gic_defs)
qed

lemma table_outside:
  assumes "mmu_reach keeps s" and "4096 \<le> unat (a - TTB_BASE)"
  shows "ram (mmu_exec keeps c sp s) a = ram s a"
proof -
  have outside: "ram (write_entry i v s) a = ram s a" if "i < 512" for i v
  proof -
    have i: "unat (of_nat (8 * i) :: u64) = 8 * i" using that by (simp only: unat_of_nat) simp
    have "of_nat (8 * i) \<le> a - TTB_BASE" unfolding word_le_nat_alt i using that assms(2) by simp
    then have "unat ((a - TTB_BASE) - of_nat (8 * i)) = unat (a - TTB_BASE) - 8 * i"
      by (subst unat_sub) (assumption, simp only: i)
    with that assms(2) have "\<not> unat ((a - TTB_BASE) - of_nat (8 * i)) < 8" by simp
    then show ?thesis by (simp add: write_entry_def store64_def algebra_simps)
  qed
  then show ?thesis
    using mmu_reach_at(2) [OF assms(1), of c] by (cases "mmu_at s c") (simp_all add: mmu_exec_def Let_def)
qed

text \<open>
  The table is built once.  As soon as the flag \<^verbatim>\<open>mmu_init\<close> is set, no step of any
  core changes memory or the flag; before that, only the 4 KB of the table are written.
\<close>
theorem table_built_once:
  assumes "mmu_reach keeps s"
  shows "(mmu_init s \<noteq> 0 \<longrightarrow> table_built (ram s) \<and> ram (mmu_exec keeps c sp s) = ram s \<and> mmu_init (mmu_exec keeps c sp s) = mmu_init s) \<and>
    (4096 \<le> unat (a - TTB_BASE) \<longrightarrow> ram (mmu_exec keeps c sp s) a = ram s a)"
  using mmu_exec_shared [OF _ mmu_reach_inv [OF assms]] mmu_reach_at(4) [OF assms] table_outside [OF assms] by blast

lemma table_built_once_witness:
  "\<exists>n. ram (mmu_exec (\<lambda>v. v) 1 False (mmu_alone (\<lambda>v. v) 0 n mmu0)) = ram (mmu_alone (\<lambda>v. v) 0 n mmu0)"
proof -
  obtain n where n: "mmu_at (mmu_alone (\<lambda>v. v) 0 n mmu0) 0 = Mmu_Done" using mmu0_returns by blast
  have reach: "mmu_reach (\<lambda>v. v) (mmu_alone (\<lambda>v. v) 0 n mmu0)" by (rule mmu_reach_alone [OF mmu0_reach])
  have "mmu_init (mmu_alone (\<lambda>v. v) 0 n mmu0) \<noteq> 0" using mmu_reach_at(2) [OF reach, of 0] n by simp
  with table_built_once [OF reach, where c = 1 and sp = False] show ?thesis by blast
qed





text \<open>
  If they do not, no core ever switches its MMU on or returns, and a core that has
  found out keeps the lock, so that all others wait for it.
\<close>
theorem mmu_hang_blocks:
  assumes "mmu_reach keeps s" and "keeps TCR_VAL \<noteq> TCR_VAL"
  shows "\<not> mmu_enabled (mmu_regs_of s d) \<and> mmu_at s d \<noteq> Mmu_Done \<and>
    (mmu_at s c = Mmu_Hang \<longrightarrow> d \<noteq> c \<longrightarrow> mmu_at s d = Take_Lock)"
proof -
  have at: "regs_at keeps (mmu_at s d) (mmu_regs_of s d)" for d by (rule mmu_reach_at(3) [OF assms(1)])
  then have none: "mmu_at s d \<notin> {Unlock, Mmu_Done}" for d using assms(2) by (auto simp: regs_at_def)
  then have "mmu_at s d = Take_Lock" if "mmu_at s c = Mmu_Hang" "d \<noteq> c"
    using one_inside [OF mmu_reach_inv [OF assms(1)], of c d] that by (auto simp: inside_def)
  with none mmu_enabled_at [OF assms(1)] show ?thesis by blast
qed

lemma mmu_hang_blocks_witness:
  "mmu_at (mmu_exec (\<lambda>v. 0) 5 False mmu0) 5 \<noteq> Mmu_Done \<and> \<not> mmu_enabled (mmu_regs_of (mmu_exec (\<lambda>v. 0) 5 False mmu0) 5)"
  using mmu_hang_blocks [OF mmu_reach.step [OF mmu0_reach], of "\<lambda>v. 0" 5 False 5] by (simp add: TCR_VAL_def)

end
