(* ===== verification/Boot_Asm.thy ===== *)
theory Boot_Asm
  imports Mmu "HOL-Library.While_Combinator"
begin

text \<open>
  \<^verbatim>\<open>src/boot.S\<close>: the first instructions of every core, up to the C function it calls.  The addresses
  the linker script defines are a record; the two loops that copy \<^verbatim>\<open>.data\<close> and clear \<^verbatim>\<open>.bss\<close> are while
  loops over byte memory, and so is the call of \<^verbatim>\<open>mmu_on\<close>, over the steps of \<open>Mmu\<close>.
\<close>

section \<open>The code\<close>

text \<open>\<open>data_mmu\<close> is the input section of \<^verbatim>\<open>mmu.S\<close> with its two words, \<^verbatim>\<open>mmu_lock\<close> and \<^verbatim>\<open>mmu_init\<close>.\<close>

record linker_symbols =
  data_start :: u64
  data_load :: u64
  data_end :: u64
  bss_start :: u64
  bss_end :: u64
  vectors :: u64
  data_mmu :: u64

text \<open>\<^verbatim>\<open>cmp\<close> and \<^verbatim>\<open>b.ge\<close> compare signed.\<close>

definition ge :: "u64 \<Rightarrow> u64 \<Rightarrow> bool" where
  "ge x y \<longleftrightarrow> sint y \<le> sint x"

text \<open>
  The MMU is still off, so every access is one to device memory and faults if it is not aligned.
  The exception stops the core: the vector table is installed, and the handler does not return
  (\<open>Halted\<close>).  A loop that does not end is \<open>Spinning\<close>.
\<close>

definition aligned8 :: "u64 \<Rightarrow> bool" where
  "aligned8 a \<longleftrightarrow> 8 dvd unat a"

definition copy_data :: "u64 \<Rightarrow> u64 \<times> u64 \<times> memory \<Rightarrow> memory exec" where
  "copy_data x2 s = (case while_option (\<lambda>(x0, x1, m). \<not> ge x0 x2 \<and> aligned8 x1 \<and> aligned8 x0)
       (\<lambda>(x0, x1, m). (x0 + 8, x1 + 8, store64 x0 (load64 x1 m) m)) s of
     None \<Rightarrow> Inl Spinning
   | Some (x0, x1, m) \<Rightarrow> if ge x0 x2 then Inr m else Inl Halted)"

definition init_data :: "linker_symbols \<Rightarrow> memory \<Rightarrow> memory exec" where
  "init_data l m =
     (if data_start l = data_load l then Inr m
      else if ge (data_start l) (data_end l) then Inr m
      else copy_data (data_end l) (data_start l, data_load l, m))"

definition clear_bss :: "linker_symbols \<Rightarrow> memory \<Rightarrow> memory exec" where
  "clear_bss l m = (case while_option (\<lambda>(x0, m). \<not> ge x0 (bss_end l) \<and> aligned8 x0)
       (\<lambda>(x0, m). (x0 + 8, store64 x0 0 m)) (bss_start l, m) of
     None \<Rightarrow> Inl Spinning
   | Some (x0, m) \<Rightarrow> if ge x0 (bss_end l) then Inr m else Inl Halted)"

text \<open>
  The call of \<^verbatim>\<open>mmu_on\<close> by core \<open>c\<close> while the others leave the lock alone, from the registers \<open>r\<close>: the two
  words are taken from memory and written back.
\<close>

definition enter_mmu :: "linker_symbols \<Rightarrow> mmu_regs \<Rightarrow> memory \<Rightarrow> mmu_state" where
  "enter_mmu l r m = \<lparr>mmu_lock = \<lparr>lock_word = load32 (data_mmu l) m, armed = {}, pc = (\<lambda>_. Idle),
       w_tmp = (\<lambda>_. 0), w_val = (\<lambda>_. 0)\<rparr>,
     mmu_init = load32 (data_mmu l + 4) m, ram = m, mmu_at = (\<lambda>_. Take_Lock), mmu_regs_of = (\<lambda>_. r)\<rparr>"

definition leave_mmu :: "linker_symbols \<Rightarrow> mmu_state \<Rightarrow> memory" where
  "leave_mmu l s = store32 (data_mmu l + 4) (mmu_init s) (store32 (data_mmu l) (lock_word (mmu_lock s)) (ram s))"

definition mmu_on :: "linker_symbols \<Rightarrow> (u64 \<Rightarrow> u64) \<Rightarrow> nat \<Rightarrow> mmu_regs \<Rightarrow> memory \<Rightarrow> (mmu_regs \<times> memory) exec" where
  "mmu_on l keeps c r m =
     (case while_option (\<lambda>s. mmu_at s c \<noteq> Mmu_Done) (mmu_exec keeps c False) (enter_mmu l r m) of
        None \<Rightarrow> Inl Spinning
      | Some s \<Rightarrow> Inr (mmu_regs_of s c, leave_mmu l s))"

text \<open>The core as it calls one of the two C functions.\<close>

datatype boot_target = Main | Secondary_Main

record boot_core =
  boot_sp :: u64
  boot_vbar :: u64
  boot_mmu :: mmu_regs
  boot_target :: boot_target

definition start_core ::
  "linker_symbols \<Rightarrow> (u64 \<Rightarrow> u64) \<Rightarrow> mmu_regs \<Rightarrow> u64 \<Rightarrow> memory \<Rightarrow> (boot_core \<times> memory) exec" where
  "start_core l keeps r mpidr m =
     (let id = mpidr AND 0xFF;
          c = \<lparr>boot_sp = boot_stack_top mpidr, boot_vbar = vectors l, boot_mmu = r, boot_target = Main\<rparr>
      in if id \<noteq> 0 then
           bind_exec (mmu_on l keeps (unat id) r m) (\<lambda>(r, m). Inr (c\<lparr>boot_mmu := r, boot_target := Secondary_Main\<rparr>, m))
         else
           bind_exec (init_data l m) (\<lambda>m.
           bind_exec (clear_bss l m) (\<lambda>m.
           bind_exec (mmu_on l keeps (unat id) r m) (\<lambda>(r, m). Inr (c\<lparr>boot_mmu := r\<rparr>, m)))))"

section \<open>The loops\<close>

lemma byte_of_load: "j < 8 \<Longrightarrow> ucast (drop_bit (8 * j) (load64 a m)) = m (a + of_nat j)"
  by (rule bit_word_eqI) (simp add: bit_simps bit_load64)

lemma unat_minus_less:
  fixes y :: u64
  assumes "k < 2 ^ 63"
  shows "unat (y - of_nat k) < 8 \<longleftrightarrow> k \<le> unat y \<and> unat y < k + 8"
proof -
  have k: "unat (of_nat k :: u64) = k" using assms by (simp only: unat_of_nat) simp
  show ?thesis using k assms unsigned_less [where ?'a = nat and w = y] by (auto simp: unat_sub_if')
qed

text \<open>The first \<open>k\<close> bytes from \<open>a\<close> on are those of \<open>g\<close>.\<close>

definition filled :: "u64 \<Rightarrow> nat \<Rightarrow> (u64 \<Rightarrow> u8) \<Rightarrow> memory \<Rightarrow> memory" where
  "filled a k g m = (\<lambda>b. if unat (b - a) < k then g (b - a) else m b)"

lemma filled_0 [simp]: "filled a 0 g m = m"
  by (simp add: filled_def)

lemma store_fills:
  assumes "k < 2 ^ 63" and "\<And>j. j < 8 \<Longrightarrow> ucast (drop_bit (8 * j) v) = g (of_nat (k + j))"
  shows "store64 (a + of_nat k) v (filled a k g m) = filled a (k + 8) g m"
proof
  fix b
  have iff: "unat (b - a - of_nat k) < 8 \<longleftrightarrow> k \<le> unat (b - a) \<and> unat (b - a) < k + 8"
    by (rule unat_minus_less [OF assms(1)])
  show "store64 (a + of_nat k) v (filled a k g m) b = filled a (k + 8) g m b"
  proof (cases "unat (b - a - of_nat k) < 8")
    case True
    have "of_nat (k + unat (b - a - of_nat k)) = b - a" by simp
    with True iff assms(2) [OF True] show ?thesis by (simp add: store64_def filled_def diff_diff_add)
  next
    case False
    with iff show ?thesis by (auto simp: store64_def filled_def diff_diff_add)
  qed
qed

text \<open>Where a region of \<open>n\<close> bytes may lie, and how many bytes a loop of doublewords writes to it.\<close>

definition placed :: "u64 \<Rightarrow> u64 \<Rightarrow> bool" where
  "placed from to \<longleftrightarrow> unat from \<le> unat to \<and> unat to < 2 ^ 62"

definition written :: "u64 \<Rightarrow> u64 \<Rightarrow> nat" where
  "written from to = 8 * ((unat to - unat from + 7) div 8)"

lemma written_bounds:
  "unat to - unat from \<le> written from to" "written from to < unat to - unat from + 8"
  "k < written from to div 8 \<longleftrightarrow> 8 * k < unat to - unat from"
  by (simp_all add: written_def) linarith+

lemma ge_small:
  assumes "unat x < 2 ^ 63" "unat y < 2 ^ 63"
  shows "ge x y \<longleftrightarrow> unat y \<le> unat x"
proof -
  have "sint w = int (unat w)" if "unat w < 2 ^ 63" for w :: u64
  proof -
    have "int (unat w) < 2 ^ 63" using that by (metis of_nat_less_iff of_nat_numeral of_nat_power)
    then have "uint w < 2 ^ 63" by (simp only: uint_nat)
    then have "signed_take_bit 63 (uint w) = uint w" by (intro signed_take_bit_int_eq_self) (rule order_trans [OF _ unsigned_greater_eq], simp_all)
    then show ?thesis by (simp add: sint_uint)
  qed
  with assms have "ge x y \<longleftrightarrow> uint y \<le> uint x" by (simp add: ge_def)
  then show ?thesis by (simp only: word_le_def [symmetric] word_le_nat_alt)
qed

lemma placed_small:
  assumes "placed from to" "k < unat to - unat from + 8"
  shows "unat from + k < 2 ^ 63"
proof -
  have "unat from \<le> unat to" "unat to < 2 ^ 62" using assms(1) by (simp_all add: placed_def)
  with assms(2) have "unat from + k < 2 ^ 62 + 8" by linarith
  then show ?thesis by simp
qed

lemma ge_at:
  assumes "placed from to" "k < unat to - unat from + 8"
  shows "ge (from + of_nat k) to \<longleftrightarrow> unat to - unat from \<le> k"
proof -
  have k: "unat from + k < 2 ^ 63" by (rule placed_small [OF assms])
  then have "unat (from + of_nat k) = unat from + k" by (simp add: unat_add_of_nat)
  with k assms show ?thesis by (subst ge_small) (auto simp: placed_def)
qed

text \<open>A loop that passes through the states \<open>S 0\<close>, \<open>S 1\<close>, ... until the guard fails.\<close>

lemma counted_loop:
  assumes "\<And>k. k < n \<Longrightarrow> b (S k) \<and> c (S k) = S (Suc k)" and "\<not> b (S n)"
  shows "while_option b c (S 0) = Some (S n)"
proof -
  have "while_option b c (S (n - k)) = Some (S n)" if "k \<le> n" for k
    using that
  proof (induction k)
    case 0
    with assms(2) show ?case by (subst while_option_unfold) simp
  next
    case (Suc k)
    then have "n - Suc k < n" "Suc (n - Suc k) = n - k" by simp_all
    with assms(1) [of "n - Suc k"] Suc show ?case by (subst while_option_unfold) simp
  qed
  from this [of n] show ?thesis by simp
qed

text \<open>The source of a copy is not overwritten before it is read.\<close>

definition source_apart :: "u64 \<Rightarrow> u64 \<Rightarrow> nat \<Rightarrow> bool" where
  "source_apart from load n \<longleftrightarrow> (\<forall>i < n. n \<le> unat (load + of_nat i - from))"

lemma aligned8_add [simp]: "aligned8 (a + of_nat (8 * k)) = aligned8 a"
proof -
  have "8 dvd (unat a + 8 * k) mod 2 ^ 64 \<longleftrightarrow> 8 dvd unat a + 8 * k" by (rule dvd_mod_iff) simp
  also have "\<dots> \<longleftrightarrow> 8 dvd unat a" by (rule dvd_add_left_iff) simp
  finally show ?thesis unfolding aligned8_def unat_add_of_nat .
qed

lemma clear_loop:
  assumes "placed (bss_start l) (bss_end l)"
  shows "clear_bss l m = (if bss_start l = bss_end l \<or> aligned8 (bss_start l)
    then Inr (filled (bss_start l) (written (bss_start l) (bss_end l)) (\<lambda>_. 0) m) else Inl Halted)"
proof -
  let ?from = "bss_start l" let ?to = "bss_end l"
  define S where "S k = (?from + of_nat (8 * k), filled ?from (8 * k) (\<lambda>_. 0) m)" for k
  let ?b = "\<lambda>(x0, m). \<not> ge x0 ?to \<and> aligned8 x0" let ?c = "\<lambda>(x0, m). (x0 + 8, store64 x0 0 m)"
  have ge: "ge (?from + of_nat (8 * k)) ?to \<longleftrightarrow> unat ?to - unat ?from \<le> 8 * k" if "8 * k < unat ?to - unat ?from + 8" for k
    by (rule ge_at [OF assms that])
  show ?thesis
  proof (cases "?from = ?to \<or> aligned8 ?from")
    case True
    have small: "8 * k < 2 ^ 63" if "8 * k < unat ?to - unat ?from" for k
      using placed_small [OF assms, of "8 * k"] that by linarith
    have "?b (S k) \<and> ?c (S k) = S (Suc k)" if "k < written ?from ?to div 8" for k
    proof -
      have k: "8 * k < unat ?to - unat ?from" using that by (simp add: written_bounds)
      then have "aligned8 ?from" using True by auto
      moreover have "store64 (?from + of_nat (8 * k)) 0 (filled ?from (8 * k) (\<lambda>_. 0) m) = filled ?from (8 * k + 8) (\<lambda>_. 0) m"
        by (rule store_fills [OF small [OF k]]) simp
      ultimately show ?thesis using ge [of k] k aligned8_add [of ?from k] by (simp add: S_def algebra_simps)
    qed
    moreover have stop: "ge (fst (S (written ?from ?to div 8))) ?to"
      using ge [of "written ?from ?to div 8"] written_bounds(1,2) [of ?to ?from] by (simp add: S_def written_def)
    then have "\<not> ?b (S (written ?from ?to div 8))" by (simp add: split_beta)
    ultimately have "while_option ?b ?c (S 0) = Some (S (written ?from ?to div 8))" by (rule counted_loop)
    with True stop show ?thesis by (simp add: clear_bss_def S_def written_def)
  next
    case False
    then have "unat ?from \<noteq> unat ?to" by (auto simp: word_unat_eq_iff)
    then have "\<not> ge ?from ?to" using ge [of 0] assms by (simp add: placed_def)
    moreover from this False have "while_option ?b ?c (?from, m) = Some (?from, m)" by (subst while_option_unfold) simp
    ultimately show ?thesis using False by (simp add: clear_bss_def)
  qed
qed

lemma copy_loop:
  assumes "placed from to" and apart: "source_apart from load (written from to)"
  shows "copy_data to (from, load, m) = (if from = to \<or> aligned8 from \<and> aligned8 load
    then Inr (filled from (written from to) (\<lambda>i. m (load + i)) m) else Inl Halted)"
proof -
  define S where "S k = (from + of_nat (8 * k), load + of_nat (8 * k), filled from (8 * k) (\<lambda>i. m (load + i)) m)" for k
  let ?b = "\<lambda>(x0, x1, m). \<not> ge x0 to \<and> aligned8 x1 \<and> aligned8 x0"
  let ?c = "\<lambda>(x0, x1, m). (x0 + 8, x1 + 8, store64 x0 (load64 x1 m) m)"
  have ge: "ge (from + of_nat (8 * k)) to \<longleftrightarrow> unat to - unat from \<le> 8 * k" if "8 * k < unat to - unat from + 8" for k
    by (rule ge_at [OF assms(1) that])
  show ?thesis
  proof (cases "from = to \<or> aligned8 from \<and> aligned8 load")
    case True
    have small: "8 * k < 2 ^ 63" if "8 * k < unat to - unat from" for k
      using placed_small [OF assms(1), of "8 * k"] that by linarith
    have "?b (S k) \<and> ?c (S k) = S (Suc k)" if "k < written from to div 8" for k
    proof -
      have k: "8 * k < unat to - unat from" using that by (simp add: written_bounds)
      then have al: "aligned8 from" "aligned8 load" using True by auto
      let ?m = "filled from (8 * k) (\<lambda>i. m (load + i)) m"
      have "ucast (drop_bit (8 * j) (load64 (load + of_nat (8 * k)) ?m)) = m (load + of_nat (8 * k + j))" if "j < 8" for j
      proof -
        have "8 * k + j < written from to" using \<open>k < written from to div 8\<close> that by linarith
        with apart have "\<not> unat (load + of_nat (8 * k + j) - from) < 8 * k" by (auto simp: source_apart_def)
        then have "?m (load + of_nat (8 * k) + of_nat j) = m (load + of_nat (8 * k + j))"
          by (simp add: filled_def ac_simps)
        with byte_of_load [OF that] show ?thesis by metis
      qed
      then have "store64 (from + of_nat (8 * k)) (load64 (load + of_nat (8 * k)) ?m) ?m =
          filled from (8 * k + 8) (\<lambda>i. m (load + i)) m"
        by (intro store_fills [OF small [OF k]])
      with ge [of k] k al aligned8_add [of "from" k] aligned8_add [of load k] show ?thesis by (simp add: S_def algebra_simps)
    qed
    moreover have stop: "ge (fst (S (written from to div 8))) to"
      using ge [of "written from to div 8"] written_bounds(1,2) [of to "from"] by (simp add: S_def written_def)
    then have "\<not> ?b (S (written from to div 8))" by (simp add: split_beta)
    ultimately have "while_option ?b ?c (S 0) = Some (S (written from to div 8))" by (rule counted_loop)
    with True stop show ?thesis by (simp add: copy_data_def S_def written_def)
  next
    case False
    then have "unat from \<noteq> unat to" by (auto simp: word_unat_eq_iff)
    then have "\<not> ge from to" using ge [of 0] assms(1) by (simp add: placed_def)
    moreover from this False have "while_option ?b ?c (from, load, m) = Some (from, load, m)"
      by (subst while_option_unfold) auto
    ultimately show ?thesis using False by (simp add: copy_data_def)
  qed
qed

section \<open>The call of \<^verbatim>\<open>mmu_on\<close>\<close>

lemma while_option_funpow:
  assumes "\<exists>n. \<not> b ((c ^^ n) s)"
  obtains k where "while_option b c s = Some ((c ^^ k) s)" "\<not> b ((c ^^ k) s)" "\<And>n. \<not> b ((c ^^ n) s) \<Longrightarrow> k \<le> n"
proof -
  let ?k = "LEAST k. \<not> b ((c ^^ k) s)"
  have "\<not> b ((c ^^ ?k) s)" using assms by (rule LeastI_ex)
  moreover have "while_option b c s = Some ((c ^^ ?k) s)" using assms by (simp add: while_option_def)
  ultimately show thesis using that Least_le by metis
qed

text \<open>What a core alone does to the table, the flag and the lock.\<close>

lemma done_stays: "mmu_at s c = Mmu_Done \<Longrightarrow> mmu_alone keeps c n s = s"
proof (induction n)
  case (Suc n)
  then show ?case by (simp add: mmu_exec_def Let_def)
qed simp

lemma mmu_alone_shared:
  assumes "mmu_reach keeps s"
  shows "mmu_init s \<noteq> 0 \<Longrightarrow> ram (mmu_alone keeps c n s) = ram s \<and> mmu_init (mmu_alone keeps c n s) = mmu_init s"
    "mmu_init s = 0 \<Longrightarrow> mmu_init (mmu_alone keeps c n s) \<in> {0, 1}"
    "4096 \<le> unat (a - TTB_BASE) \<Longrightarrow> ram (mmu_alone keeps c n s) a = ram s a"
proof -
  have reach: "mmu_reach keeps (mmu_alone keeps c n s)" for n by (rule mmu_reach_alone [OF assms])
  show "mmu_init s \<noteq> 0 \<Longrightarrow> ram (mmu_alone keeps c n s) = ram s \<and> mmu_init (mmu_alone keeps c n s) = mmu_init s"
  proof (induction n)
    case (Suc n)
    then show ?case using mmu_exec_shared [OF _ mmu_reach_inv [OF reach [of n]]] by simp
  qed simp
  have one: "mmu_init (mmu_exec keeps c sp t) \<in> {mmu_init t, 1}" for t sp
    by (auto simp: mmu_exec_def Let_def split: mmu_pc.split)
  show "mmu_init s = 0 \<Longrightarrow> mmu_init (mmu_alone keeps c n s) \<in> {0, 1}"
  proof (induction n)
    case (Suc n)
    then show ?case using one [of False "mmu_alone keeps c n s"] by auto
  qed simp
  show "4096 \<le> unat (a - TTB_BASE) \<Longrightarrow> ram (mmu_alone keeps c n s) a = ram s a"
  proof (induction n)
    case (Suc n)
    then show ?case using table_outside [OF reach [of n]] by simp
  qed simp
qed

lemma mmu_on_result:
  assumes lock: "load32 (data_mmu l) m = 0" and table: "load32 (data_mmu l + 4) m = 0 \<or> table_built m"
    and off: "\<not> mmu_enabled r" and keeps: "keeps TCR_VAL = TCR_VAL"
  obtains r' m1 i where "mmu_on l keeps c r m = Inr (r', store32 (data_mmu l + 4) i (store32 (data_mmu l) 0 m1))"
    "mmu_enabled r'" "regs_loaded r'" "table_built m1"
    "if load32 (data_mmu l + 4) m = 0 then i = 1 \<and> (\<forall>a. 4096 \<le> unat (a - TTB_BASE) \<longrightarrow> m1 a = m a)
     else i = load32 (data_mmu l + 4) m \<and> m1 = m"
proof -
  let ?s = "enter_mmu l r m"
  have "mmu_start ?s" using assms by (simp add: mmu_start_def enter_mmu_def spin_start_def spinlock_init_def)
  then have reach: "mmu_reach keeps ?s" by (rule mmu_reach.reset)
  have "mmu_at ?s c = Take_Lock" "lock_word (mmu_lock ?s) = 0" using lock by (simp_all add: enter_mmu_def)
  with waiting_returns [OF reach keeps] obtain n where
    n: "mmu_at (mmu_alone keeps c n ?s) c = Mmu_Done" "lock_word (mmu_lock (mmu_alone keeps c n ?s)) = 0" by blast
  then have "\<exists>n. \<not> mmu_at (mmu_alone keeps c n ?s) c \<noteq> Mmu_Done" by auto
  then obtain k where k: "while_option (\<lambda>s. mmu_at s c \<noteq> Mmu_Done) (mmu_exec keeps c False) ?s = Some (mmu_alone keeps c k ?s)"
    "mmu_at (mmu_alone keeps c k ?s) c = Mmu_Done" "\<And>n. mmu_at (mmu_alone keeps c n ?s) c = Mmu_Done \<Longrightarrow> k \<le> n"
    by (rule while_option_funpow) blast
  let ?t = "mmu_alone keeps c k ?s"
  have "mmu_alone keeps c n ?s = ?t"
    using done_stays [OF k(2), of "n - k" keeps] k(3) [OF n(1)] by (metis funpow_add le_add_diff_inverse2 comp_apply)
  with n(2) have free: "lock_word (mmu_lock ?t) = 0" by simp
  have t: "mmu_reach keeps ?t" by (rule mmu_reach_alone [OF reach])
  have init: "mmu_init ?t \<noteq> 0" using mmu_reach_at(2) [OF t, of c] k(2) by simp
  have sym: "mmu_init ?s = load32 (data_mmu l + 4) m" "ram ?s = m" by (simp_all add: enter_mmu_def)
  show thesis
  proof (rule that)
    show "mmu_on l keeps c r m = Inr (mmu_regs_of ?t c, store32 (data_mmu l + 4) (mmu_init ?t) (store32 (data_mmu l) 0 (ram ?t)))"
      by (simp add: mmu_on_def k(1) leave_mmu_def free)
    show "mmu_enabled (mmu_regs_of ?t c)" using mmu_enabled_at [OF t] k(2) by simp
    show "regs_loaded (mmu_regs_of ?t c)" using mmu_reach_at(3) [OF t, of c] k(2) by (simp add: regs_at_def)
    show "table_built (ram ?t)" by (rule mmu_reach_at(4) [OF t init])
    show "if load32 (data_mmu l + 4) m = 0 then mmu_init ?t = 1 \<and> (\<forall>a. 4096 \<le> unat (a - TTB_BASE) \<longrightarrow> ram ?t a = m a)
       else mmu_init ?t = load32 (data_mmu l + 4) m \<and> ram ?t = m"
      using mmu_alone_shared [OF reach, where c = c and n = k] init unfolding sym by auto
  qed
qed

section \<open>What the linker gives\<close>

text \<open>
  The sections are in order and behind the translation table, which is in front of the image; the
  words of \<^verbatim>\<open>mmu.S\<close> are in \<^verbatim>\<open>.data\<close>, at a multiple of 4 (its \<^verbatim>\<open>.balign\<close>); \<^verbatim>\<open>.data\<close> is in place or loaded from
  somewhere else.  The sections themselves need not be aligned: the scripts do not align them.
\<close>

definition linked :: "linker_symbols \<Rightarrow> bool" where
  "linked l \<longleftrightarrow> placed (data_start l) (data_end l) \<and> placed (bss_start l) (bss_end l) \<and>
     unat (data_end l) \<le> unat (bss_start l) \<and> unat TTB_BASE + 4096 \<le> unat (data_start l) \<and>
     unat (data_start l) \<le> unat (data_mmu l) \<and> unat (data_mmu l) + 8 \<le> unat (data_end l) \<and> 4 dvd unat (data_mmu l) \<and>
     (data_load l = data_start l \<or> source_apart (data_start l) (data_load l) (written (data_start l) (data_end l)))"

text \<open>What it takes that no access of the two loops faults.\<close>

definition data_aligned :: "linker_symbols \<Rightarrow> bool" where
  "data_aligned l \<longleftrightarrow> data_load l = data_start l \<or> data_start l = data_end l \<or> aligned8 (data_start l) \<and> aligned8 (data_load l)"

definition bss_aligned :: "linker_symbols \<Rightarrow> bool" where
  "bss_aligned l \<longleftrightarrow> bss_start l = bss_end l \<or> aligned8 (bss_start l)"

definition section_of :: "u64 \<Rightarrow> u64 \<Rightarrow> u64 set" where
  "section_of from to = {a. from \<le> a \<and> a < to}"

text \<open>The byte the load image has for an address of \<^verbatim>\<open>.data\<close>; the two words of \<^verbatim>\<open>mmu.S\<close> are 0 in it.\<close>

definition image_of :: "linker_symbols \<Rightarrow> u64 \<Rightarrow> u64" where
  "image_of l a = data_load l + (a - data_start l)"

definition mmu_words_zero :: "linker_symbols \<Rightarrow> memory \<Rightarrow> bool" where
  "mmu_words_zero l m \<longleftrightarrow> load32 (image_of l (data_mmu l)) m = 0 \<and> load32 (image_of l (data_mmu l + 4)) m = 0"

definition identity_mapped :: "mmu_regs \<Rightarrow> memory \<Rightarrow> bool" where
  "identity_mapped r m \<longleftrightarrow> mmu_enabled r \<and> (\<forall>va. translate r m va =
     (if va < 0x40000000 then Block va 0x00 True else if va < 0x80000000 then Block va 0xFF True else Fault))"

lemma in_section:
  assumes "placed from to"
  shows "a \<in> section_of from to \<longleftrightarrow> unat (a - from) < unat to - unat from"
  using assms unsigned_less [where ?'a = nat and w = a]
  by (auto simp: section_of_def word_le_nat_alt word_less_nat_alt unat_sub_if' placed_def)

lemma init_data_filled:
  assumes "linked l"
  shows "if data_aligned l then \<exists>m'. init_data l m = Inr m' \<and>
      (\<forall>a \<in> section_of (data_start l) (data_end l). m' a = m (image_of l a)) \<and>
      (\<forall>a. written (data_start l) (data_end l) \<le> unat (a - data_start l) \<longrightarrow> m' a = m a)
    else init_data l m = Inl Halted"
proof -
  let ?from = "data_start l" let ?to = "data_end l"
  have p: "placed ?from ?to" using assms by (simp add: linked_def)
  then have empty: "ge ?from ?to \<longleftrightarrow> ?from = ?to"
    using ge_at [OF p, of 0] by (auto simp: placed_def word_unat_eq_iff)
  consider "data_load l = ?from" | "data_load l \<noteq> ?from" "?from = ?to" | "data_load l \<noteq> ?from" "?from \<noteq> ?to" by blast
  then show ?thesis
  proof cases
    case 1
    then show ?thesis by (simp add: init_data_def data_aligned_def image_of_def)
  next
    case 2
    then show ?thesis using empty by (auto simp: init_data_def data_aligned_def section_of_def)
  next
    case 3
    then have "init_data l m = (if data_aligned l
        then Inr (filled ?from (written ?from ?to) (\<lambda>i. m (data_load l + i)) m) else Inl Halted)"
      using assms copy_loop [OF p, of "data_load l" m] empty
      by (auto simp: init_data_def linked_def data_aligned_def eq_commute [of ?from])
    then show ?thesis using written_bounds(1) [of ?to ?from] by (auto simp: in_section [OF p] filled_def image_of_def)
  qed
qed

text \<open>\<^verbatim>\<open>.data\<close>, the words of \<^verbatim>\<open>mmu.S\<close> in it, \<^verbatim>\<open>.bss\<close> and the table are apart.\<close>

lemma mmu_words_apart:
  assumes "linked l"
  shows "unat (a - TTB_BASE) < 4096 \<Longrightarrow> 8 \<le> unat (a - data_mmu l)"
    "a \<in> section_of (bss_start l) (bss_end l) \<Longrightarrow> 8 \<le> unat (a - data_mmu l) \<and> 4096 \<le> unat (a - TTB_BASE)"
    "a \<in> section_of (data_start l) (data_end l) \<Longrightarrow> 4096 \<le> unat (a - TTB_BASE) \<and>
       written (bss_start l) (bss_end l) \<le> unat (a - bss_start l)"
    "j < 8 \<Longrightarrow> data_mmu l + of_nat j \<in> section_of (data_start l) (data_end l)"
    "written (data_start l) (data_end l) \<le> unat (a - data_start l) \<Longrightarrow> 8 \<le> unat (a - data_mmu l)"
proof -
  have order: "unat TTB_BASE + 4096 \<le> unat (data_start l)" "unat (data_start l) \<le> unat (data_mmu l)"
    "unat (data_mmu l) + 8 \<le> unat (data_end l)" "unat (data_end l) \<le> unat (bss_start l)"
    "unat (bss_start l) \<le> unat (bss_end l)" "unat (bss_end l) < 2 ^ 62"
    and p: "placed (data_start l) (data_end l)" "placed (bss_start l) (bss_end l)"
    using assms by (simp_all add: linked_def placed_def)
  show "unat (a - TTB_BASE) < 4096 \<Longrightarrow> 8 \<le> unat (a - data_mmu l)"
    using order unsigned_less [where ?'a = nat and w = a] by (auto simp: unat_sub_if' split: if_splits)
  show "a \<in> section_of (bss_start l) (bss_end l) \<Longrightarrow> 8 \<le> unat (a - data_mmu l) \<and> 4096 \<le> unat (a - TTB_BASE)"
    using order by (auto simp: section_of_def word_le_nat_alt word_less_nat_alt unat_sub_if')
  show "a \<in> section_of (data_start l) (data_end l) \<Longrightarrow> 4096 \<le> unat (a - TTB_BASE) \<and>
      written (bss_start l) (bss_end l) \<le> unat (a - bss_start l)"
    using order written_bounds(2) [of "bss_start l" "bss_end l"]
    by (auto simp: section_of_def word_le_nat_alt word_less_nat_alt unat_sub_if')
  show inside: "data_mmu l + of_nat j \<in> section_of (data_start l) (data_end l)" if "j < 8" for j
  proof -
    have "unat (data_mmu l + of_nat j) = unat (data_mmu l) + j" using order that by (simp add: unat_add_of_nat)
    with order that show ?thesis by (simp add: section_of_def word_le_nat_alt word_less_nat_alt)
  qed
  show "8 \<le> unat (a - data_mmu l)" if "written (data_start l) (data_end l) \<le> unat (a - data_start l)"
  proof (rule ccontr)
    assume "\<not> 8 \<le> unat (a - data_mmu l)"
    then have "a \<in> section_of (data_start l) (data_end l)" using inside [of "unat (a - data_mmu l)"] by simp
    with that written_bounds(1) [of "data_end l" "data_start l"] show False by (simp add: in_section [OF p(1)])
  qed
qed

text \<open>The memory with the two words written back.\<close>

lemma left_words:
  shows "8 \<le> unat (a - w) \<Longrightarrow> store32 (w + 4) i (store32 w j m) a = m a"
    "load32 w (store32 (w + 4) i (store32 w j m)) = j" "load32 (w + 4) (store32 (w + 4) i (store32 w j m)) = i"
proof -
  have "4 \<le> unat (d - 4)" if "8 \<le> unat d" for d :: u64 using that by (simp add: unat_sub_if')
  then have "4 \<le> unat (a - (w + 4))" if "8 \<le> unat (a - w)" using that by (metis diff_diff_add)
  then show "8 \<le> unat (a - w) \<Longrightarrow> store32 (w + 4) i (store32 w j m) a = m a" by (simp add: store32_other)
  have "4 \<le> unat (w + of_nat k - (w + 4))" if "k < 4" for k
  proof -
    have "unat (of_nat k :: u64) = k" using that by (simp add: unat_of_nat)
    with that have "4 \<le> unat (of_nat k - 4 :: u64)" by (simp add: unat_sub_if')
    then show ?thesis by simp
  qed
  then have "load32 w (store32 (w + 4) i (store32 w j m)) = load32 w (store32 w j m)"
    by (intro load32_same store32_other)
  then show "load32 w (store32 (w + 4) i (store32 w j m)) = j" by simp
qed simp

lemma table_built_same:
  assumes "table_built m" and "\<And>a. unat (a - TTB_BASE) < 4096 \<Longrightarrow> m' a = m a"
  shows "table_built m'"
proof -
  have "dword TTB_BASE i m' = dword TTB_BASE i m" if "i < 512" for i
    unfolding dword_def
  proof (rule load64_same, rule assms(2))
    fix j :: nat assume "j < 8"
    then have "8 * i + j < 4096" using that by linarith
    moreover have "TTB_BASE + of_nat (8 * i) + of_nat j - TTB_BASE = (of_nat (8 * i + j) :: u64)" by simp
    ultimately show "unat (TTB_BASE + of_nat (8 * i) + of_nat j - TTB_BASE) < 4096" by (simp only: unat_of_nat) simp
  qed
  with assms(1) show ?thesis by (simp add: table_built_def)
qed

lemma load32_moved: "(\<And>j. j < 4 \<Longrightarrow> m (a + of_nat j) = m' (a' + of_nat j)) \<Longrightarrow> load32 a m = load32 a' m'"
  unfolding load32_def bytes_at_def by (rule arg_cong [where f = from_le32], rule map_cong) simp_all

section \<open>Properties\<close>

lemma core_0_starts:
  assumes "linked l" and "keeps TCR_VAL = TCR_VAL" and "\<not> mmu_enabled r" and "mpidr AND 0xFF = 0" and "mmu_words_zero l m"
    and "data_aligned l" "bss_aligned l"
  shows "\<exists>c m'. start_core l keeps r mpidr m = Inr (c, m') \<and> boot_target c = Main \<and> boot_sp c = boot_stack_top mpidr \<and>
      boot_vbar c = vectors l \<and> identity_mapped (boot_mmu c) m' \<and> table_built m' \<and>
      load32 (data_mmu l) m' = 0 \<and> load32 (data_mmu l + 4) m' = 1 \<and>
      (\<forall>a \<in> section_of (bss_start l) (bss_end l). m' a = 0) \<and>
      (\<forall>a \<in> section_of (data_start l) (data_end l). 8 \<le> unat (a - data_mmu l) \<longrightarrow> m' a = m (image_of l a)) \<and>
      (\<forall>a. written (data_start l) (data_end l) \<le> unat (a - data_start l) \<longrightarrow>
         written (bss_start l) (bss_end l) \<le> unat (a - bss_start l) \<longrightarrow> 4096 \<le> unat (a - TTB_BASE) \<longrightarrow> m' a = m a)"
proof -
  note apart = mmu_words_apart [OF assms(1)]
  obtain m1 where m1: "init_data l m = Inr m1" "\<forall>a \<in> section_of (data_start l) (data_end l). m1 a = m (image_of l a)"
    "\<forall>a. written (data_start l) (data_end l) \<le> unat (a - data_start l) \<longrightarrow> m1 a = m a"
    using init_data_filled [OF assms(1), of m] assms(6) by auto
  let ?n = "written (bss_start l) (bss_end l)"
  define m2 where "m2 = filled (bss_start l) ?n (\<lambda>_. 0) m1"
  have p: "placed (bss_start l) (bss_end l)" using assms(1) by (simp add: linked_def)
  have m2: "clear_bss l m1 = Inr m2" using clear_loop [OF p] assms(7) by (simp add: m2_def bss_aligned_def)
  have data: "m2 a = m (image_of l a)" if "a \<in> section_of (data_start l) (data_end l)" for a
    using m1(2) apart(3) [OF that] that by (simp add: m2_def filled_def)
  have "load32 (data_mmu l + of_nat k) m2 = load32 (image_of l (data_mmu l + of_nat k)) m" if "k \<le> 4" for k
  proof (rule load32_moved)
    fix j :: nat assume "j < 4"
    with that have "data_mmu l + of_nat (k + j) \<in> section_of (data_start l) (data_end l)" by (intro apart(4)) simp
    then show "m2 (data_mmu l + of_nat k + of_nat j) = m (image_of l (data_mmu l + of_nat k) + of_nat j)"
      using data by (simp add: image_of_def algebra_simps)
  qed
  from this [of 0] this [of 4] have words: "load32 (data_mmu l) m2 = 0" "load32 (data_mmu l + 4) m2 = 0"
    using assms(5) by (simp_all add: mmu_words_zero_def)
  obtain r' m3 i where m3: "mmu_on l keeps 0 r m2 = Inr (r', store32 (data_mmu l + 4) i (store32 (data_mmu l) 0 m3))"
    "mmu_enabled r'" "regs_loaded r'" "table_built m3" "i = 1" "\<forall>a. 4096 \<le> unat (a - TTB_BASE) \<longrightarrow> m3 a = m2 a"
    using words mmu_on_result [of l m2 r keeps 0] assms(2,3) by (metis (no_types, lifting))
  let ?m = "store32 (data_mmu l + 4) 1 (store32 (data_mmu l) 0 m3)"
  have kept: "?m a = m3 a" if "8 \<le> unat (a - data_mmu l)" for a by (rule left_words(1) [OF that])
  have table: "table_built ?m" by (rule table_built_same [OF m3(4)]) (rule kept, rule apart(1))
  have "?m a = 0" if "a \<in> section_of (bss_start l) (bss_end l)" for a
  proof -
    have "m2 a = 0" using that written_bounds(1) [of "bss_end l" "bss_start l"] by (auto simp: m2_def filled_def in_section [OF p])
    with apart(2) [OF that] kept m3(6) show ?thesis by simp
  qed
  moreover have "?m a = m (image_of l a)" if "a \<in> section_of (data_start l) (data_end l)" "8 \<le> unat (a - data_mmu l)" for a
    using data [OF that(1)] apart(3) [OF that(1)] kept [OF that(2)] m3(6) by simp
  moreover have "?m a = m a" if "written (data_start l) (data_end l) \<le> unat (a - data_start l)" "?n \<le> unat (a - bss_start l)"
    "4096 \<le> unat (a - TTB_BASE)" for a
    using that m1(3) m3(6) kept [OF apart(5) [OF that(1)]] by (simp add: m2_def filled_def)
  moreover have "identity_mapped r' ?m" using translate_identity [OF table m3(3)] m3(2) by (simp add: identity_mapped_def)
  moreover have "start_core l keeps r mpidr m = Inr (\<lparr>boot_sp = boot_stack_top mpidr, boot_vbar = vectors l, boot_mmu = r',
      boot_target = Main\<rparr>, ?m)"
    using assms(4) m1(1) m2 m3(1,5) by (simp add: start_core_def Let_def)
  ultimately show ?thesis using table left_words(2,3) [of "data_mmu l" 1 0 m3] by (intro exI conjI ballI allI impI) (assumption | simp)+
qed

lemma core_0_faults:
  assumes "linked l" and "mpidr AND 0xFF = 0" and "\<not> (data_aligned l \<and> bss_aligned l)"
  shows "start_core l keeps r mpidr m = Inl Halted"
proof -
  have p: "placed (bss_start l) (bss_end l)" using assms(1) by (simp add: linked_def)
  show ?thesis
    using assms(2,3) init_data_filled [OF assms(1), of m] clear_loop [OF p]
    by (auto simp: start_core_def Let_def bss_aligned_def split: if_splits)
qed

lemma other_core_starts:
  assumes "keeps TCR_VAL = TCR_VAL" and "\<not> mmu_enabled r" and "mpidr AND 0xFF \<noteq> 0"
    and "load32 (data_mmu l) m = 0" "load32 (data_mmu l + 4) m \<noteq> 0" "table_built m"
  shows "\<exists>c. start_core l keeps r mpidr m = Inr (c, m) \<and> boot_target c = Secondary_Main \<and> boot_sp c = boot_stack_top mpidr \<and>
      boot_vbar c = vectors l \<and> identity_mapped (boot_mmu c) m"
proof -
  obtain r' where r': "mmu_on l keeps (unat (mpidr AND 0xFF)) r m =
      Inr (r', store32 (data_mmu l + 4) (load32 (data_mmu l + 4) m) (store32 (data_mmu l) (load32 (data_mmu l) m) m))"
    "mmu_enabled r'" "regs_loaded r'"
    using mmu_on_result [of l m r keeps "unat (mpidr AND 0xFF)"] assms by (metis (no_types, lifting))
  have "identity_mapped r' m" using translate_identity [OF assms(6) r'(3)] r'(2) by (simp add: identity_mapped_def)
  with assms(3) r'(1) show ?thesis by (simp add: start_core_def Let_def)
qed

text \<open>
  Property C20: the boot code calls the two C functions, and how memory is then, on a core that comes with its
  MMU off and whose translation control register keeps \<^verbatim>\<open>TCR_VAL\<close>.  If the load image has 0 in the two words of
  \<^verbatim>\<open>mmu.S\<close>, core 0 comes to \<^verbatim>\<open>main\<close> with \<^verbatim>\<open>.bss\<close> zero and \<^verbatim>\<open>.data\<close> holding its load image but for those
  words, which say that the lock is free and the table built; the translation table is in its 4 KB and the MMU of the core maps every
  address below 2 GB to itself; all other memory is unchanged, except for up to seven bytes behind a section
  whose size is not a multiple of 8.  If a loop meets a section that is not aligned to 8 bytes and not empty,
  its first access faults and the core halts; nothing in the linker script excludes it but the
  contents of the sections.  A core started later, with the table built and the lock free, comes to
  \<^verbatim>\<open>secondary_main\<close> with the same map and has changed no memory.  Every core has its own stack.
\<close>
theorem start_core_memory:
  assumes "linked l" and "keeps TCR_VAL = TCR_VAL" and "\<not> mmu_enabled r"
  shows "(mpidr AND 0xFF = 0 \<and> data_aligned l \<and> bss_aligned l \<and> mmu_words_zero l m \<longrightarrow>
      (\<exists>c m'. start_core l keeps r mpidr m = Inr (c, m') \<and> boot_target c = Main \<and> boot_sp c = boot_stack_top mpidr \<and>
        boot_vbar c = vectors l \<and> identity_mapped (boot_mmu c) m' \<and> table_built m' \<and>
        load32 (data_mmu l) m' = 0 \<and> load32 (data_mmu l + 4) m' = 1 \<and>
        (\<forall>a \<in> section_of (bss_start l) (bss_end l). m' a = 0) \<and>
        (\<forall>a \<in> section_of (data_start l) (data_end l). 8 \<le> unat (a - data_mmu l) \<longrightarrow> m' a = m (image_of l a)) \<and>
        (\<forall>a. written (data_start l) (data_end l) \<le> unat (a - data_start l) \<longrightarrow>
           written (bss_start l) (bss_end l) \<le> unat (a - bss_start l) \<longrightarrow> 4096 \<le> unat (a - TTB_BASE) \<longrightarrow> m' a = m a))) \<and>
    (mpidr AND 0xFF = 0 \<and> \<not> (data_aligned l \<and> bss_aligned l) \<longrightarrow> start_core l keeps r mpidr m = Inl Halted) \<and>
    (mpidr AND 0xFF \<noteq> 0 \<and> load32 (data_mmu l) m = 0 \<and> load32 (data_mmu l + 4) m \<noteq> 0 \<and> table_built m \<longrightarrow>
      (\<exists>c. start_core l keeps r mpidr m = Inr (c, m) \<and> boot_target c = Secondary_Main \<and> boot_sp c = boot_stack_top mpidr \<and>
        boot_vbar c = vectors l \<and> identity_mapped (boot_mmu c) m))"
  using core_0_starts [of l keeps r mpidr m] core_0_faults [of l mpidr keeps r m]
    other_core_starts [of keeps r mpidr l m] assms by blast

text \<open>
  The image of \<^verbatim>\<open>linkerqemu.ld\<close>, with \<^verbatim>\<open>.data\<close> in place; and one whose \<^verbatim>\<open>.bss\<close> begins where the
  committed build has it, at 0x4010136B, but is not empty.
\<close>

definition sample_symbols :: linker_symbols where
  "sample_symbols = \<lparr>data_start = 0x40108004, data_load = 0x40108004, data_end = 0x40108014,
     bss_start = 0x40108018, bss_end = 0x40108040, vectors = 0x40100800, data_mmu = 0x40108008\<rparr>"

definition odd_symbols :: linker_symbols where
  "odd_symbols = \<lparr>data_start = 0x40101358, data_load = 0x40101358, data_end = 0x40101368,
     bss_start = 0x4010136B, bss_end = 0x40101400, vectors = 0x40100800, data_mmu = 0x40101358\<rparr>"

lemma start_core_memory_witness:
  "(\<exists>c m'. start_core sample_symbols (\<lambda>v. v) (mmu_regs_of mmu0 0) 0 (\<lambda>a. if a < 0x40108010 then 0 else 0xEE) = Inr (c, m') \<and>
     boot_target c = Main \<and> m' 0x40108013 = 0xEE \<and> m' 0x40108020 = 0 \<and> m' 0x40108040 = 0xEE) \<and>
   start_core odd_symbols (\<lambda>v. v) (mmu_regs_of mmu0 0) 0 (\<lambda>_. 0) = Inl Halted"
proof -
  let ?m = "(\<lambda>a. if a < 0x40108010 then 0 else 0xEE) :: memory"
  have off: "\<not> mmu_enabled (mmu_regs_of mmu0 0)" by (simp add: mmu0_def mmu_enabled_def)
  have "linked sample_symbols" "linked odd_symbols"
    by (simp_all add: linked_def sample_symbols_def odd_symbols_def placed_def TTB_BASE_def)
  note start = start_core_memory [of sample_symbols "\<lambda>v. v" "mmu_regs_of mmu0 0" 0 ?m, OF this(1) refl off]
    and odd = start_core_memory [of odd_symbols "\<lambda>v. v" "mmu_regs_of mmu0 0" 0 "\<lambda>_. 0", OF this(2) refl off]
  have "load32 a ?m = load32 a (\<lambda>_. 0)" if "a = 0x40108008 \<or> a = 0x4010800C" for a
  proof (rule load32_same)
    fix j :: nat assume "j < 4"
    then have "j = 0 \<or> j = 1 \<or> j = 2 \<or> j = 3" by auto
    with that show "?m (a + of_nat j) = 0" by auto
  qed
  moreover have "load32 a (\<lambda>_. 0) = 0" for a by (simp add: load32_def bytes_at_def from_le32_def)
  ultimately have "mmu_words_zero sample_symbols ?m" by (simp add: mmu_words_zero_def image_of_def sample_symbols_def)
  moreover have "data_aligned sample_symbols" "bss_aligned sample_symbols" "\<not> bss_aligned odd_symbols"
    by (simp_all add: data_aligned_def bss_aligned_def aligned8_def sample_symbols_def odd_symbols_def)
  ultimately obtain c m' where r: "start_core sample_symbols (\<lambda>v. v) (mmu_regs_of mmu0 0) 0 ?m = Inr (c, m')" "boot_target c = Main"
    "\<forall>a \<in> section_of 0x40108018 0x40108040. m' a = 0"
    "\<forall>a \<in> section_of 0x40108004 0x40108014. 8 \<le> unat (a - 0x40108008) \<longrightarrow> m' a = ?m a"
    "\<forall>a. 16 \<le> unat (a - 0x40108004) \<longrightarrow> 40 \<le> unat (a - 0x40108018) \<longrightarrow> 4096 \<le> unat (a - TTB_BASE) \<longrightarrow> m' a = ?m a"
    using start by (auto simp: sample_symbols_def image_of_def written_def)
  have "m' 0x40108013 = 0xEE" "m' 0x40108020 = 0" "m' 0x40108040 = 0xEE"
    using r(3) r(4) r(5) [rule_format, of "0x40108040"] by (simp_all add: section_of_def TTB_BASE_def)
  with r(1,2) odd \<open>\<not> bss_aligned odd_symbols\<close> show ?thesis by auto
qed

end
