(* ===== verification/Exception_Entry.thy ===== *)
theory Exception_Entry
  imports Memory Irq
begin

text \<open>
  \<^verbatim>\<open>src/vector.S\<close>: the code around \<^verbatim>\<open>common_trap_handler\<close>.  Every stub saves the interrupted
  registers in a frame on the stack, calls the handler, restores them and returns with \<^verbatim>\<open>eret\<close>.
  The compiled handler is a parameter; the model uses only that, called with a stack pointer, it
  returns with it and leaves the caller's frame above it alone, as the procedure call standard
  demands.  It may use the stack below and write the program's variables.
\<close>

section \<open>The instructions\<close>

record exc_cpu =
  x_regs :: "nat \<Rightarrow> u64"     \<comment> \<open>x0 to x30\<close>
  x_sp :: u64
  x_pc :: u64
  x_pstate :: u64
  elr_el1 :: u64
  spsr_el1 :: u64

type_synonym exc_state = "exc_cpu \<times> memory"

definition EXC_FRAME_SIZE :: nat where "EXC_FRAME_SIZE = 0x110"

definition set_reg :: "nat \<Rightarrow> u64 \<Rightarrow> exc_cpu \<Rightarrow> exc_cpu" where
  "set_reg r v c = c\<lparr>x_regs := (x_regs c)(r := v)\<rparr>"

text \<open>\<^verbatim>\<open>str\<close>, \<^verbatim>\<open>ldr\<close>, \<^verbatim>\<open>stp\<close> and \<^verbatim>\<open>ldp\<close> at an offset from the stack pointer.\<close>

definition str_sp :: "nat \<Rightarrow> nat \<Rightarrow> exc_state \<Rightarrow> exc_state" where
  "str_sp r off = (\<lambda>(c, m). (c, store64 (x_sp c + of_nat off) (x_regs c r) m))"

definition ldr_sp :: "nat \<Rightarrow> nat \<Rightarrow> exc_state \<Rightarrow> exc_state" where
  "ldr_sp r off = (\<lambda>(c, m). (set_reg r (load64 (x_sp c + of_nat off) m) c, m))"

definition stp_sp :: "nat \<Rightarrow> nat \<Rightarrow> nat \<Rightarrow> exc_state \<Rightarrow> exc_state" where
  "stp_sp a b off s = str_sp b (off + 8) (str_sp a off s)"

definition ldp_sp :: "nat \<Rightarrow> nat \<Rightarrow> nat \<Rightarrow> exc_state \<Rightarrow> exc_state" where
  "ldp_sp a b off s = ldr_sp b (off + 8) (ldr_sp a off s)"

text \<open>The fifteen pairs x0/x1 to x28/x29, at offsets 0x000 to 0x0E0.\<close>

definition save_pairs :: "(nat \<times> nat \<times> nat) list" where
  "save_pairs = [(0, 1, 0x000), (2, 3, 0x010), (4, 5, 0x020), (6, 7, 0x030), (8, 9, 0x040),
     (10, 11, 0x050), (12, 13, 0x060), (14, 15, 0x070), (16, 17, 0x080), (18, 19, 0x090),
     (20, 21, 0x0A0), (22, 23, 0x0B0), (24, 25, 0x0C0), (26, 27, 0x0D0), (28, 29, 0x0E0)]"

definition save_regs :: "u64 \<Rightarrow> exc_state \<Rightarrow> exc_state" where
  "save_regs exc_id s =
     (let (c, m) = s;
          s = (c\<lparr>x_sp := x_sp c - of_nat EXC_FRAME_SIZE\<rparr>, m);
          s = fold (\<lambda>(a, b, off). stp_sp a b off) save_pairs s;
          (c, m) = str_sp 30 0x0F0 s;
          (c, m) = str_sp 10 0x0F8 (set_reg 10 (x_sp c + of_nat EXC_FRAME_SIZE) c, m);
          c = set_reg 11 (spsr_el1 c) (set_reg 10 (elr_el1 c) c);
          (c, m) = stp_sp 10 11 0x100 (c, m)
      in (set_reg 1 (x_sp c) (set_reg 0 exc_id c), m))"

definition restore_regs :: "exc_state \<Rightarrow> exc_state" where
  "restore_regs s =
     (let (c, m) = ldp_sp 10 11 0x100 s;
          c = c\<lparr>elr_el1 := x_regs c 10, spsr_el1 := x_regs c 11\<rparr>;
          s = ldr_sp 30 0x0F0 (c, m);
          (c, m) = fold (\<lambda>(a, b, off). ldp_sp a b off) (rev save_pairs) s;
          c = c\<lparr>x_sp := x_sp c + of_nat EXC_FRAME_SIZE\<rparr>
      in (c\<lparr>x_pc := elr_el1 c, x_pstate := spsr_el1 c\<rparr>, m))"

text \<open>A stub; \<open>handler\<close> is the compiled \<^verbatim>\<open>common_trap_handler\<close>.\<close>

definition exc_stub :: "u64 \<Rightarrow> (exc_state \<Rightarrow> exc_state) \<Rightarrow> exc_state \<Rightarrow> exc_state" where
  "exc_stub exc_id handler s = restore_regs (handler (save_regs exc_id s))"

text \<open>The twelve entries of the vector table that have a stub, by their offset from the base.\<close>

definition vector_ids :: "(nat \<times> u64) list" where
  "vector_ids = [(0x000, 0x01), (0x080, 0x02), (0x100, 0x03), (0x180, 0x04),
     (0x200, 0x11), (0x280, 0x12), (0x300, 0x13), (0x380, 0x14),
     (0x400, 0x21), (0x480, 0x22), (0x500, 0x23), (0x580, 0x24)]"

text \<open>
  An exception at the vector with offset \<open>off\<close>: the processor records where it was and in which
  state, and continues in the table.  The four AArch32 entries branch to themselves (\<open>None\<close>).
\<close>

definition take_exception :: "nat \<Rightarrow> (exc_state \<Rightarrow> exc_state) \<Rightarrow> exc_state \<Rightarrow> exc_state option" where
  "take_exception off handler = (\<lambda>(c, m). case map_of vector_ids off of
       None \<Rightarrow> None
     | Some exc_id \<Rightarrow> Some (exc_stub exc_id handler (c\<lparr>elr_el1 := x_pc c, spsr_el1 := x_pstate c\<rparr>, m)))"

text \<open>The frame as the C handler sees it: a pointer to \<^verbatim>\<open>exc_frame_t\<close>.\<close>

record exc_frame =
  frame_x :: "u64 list"
  frame_sp_el1 :: u64
  frame_elr_el1 :: u64
  frame_spsr_el1 :: u64

definition exc_frame_at :: "u64 \<Rightarrow> memory \<Rightarrow> exc_frame" where
  "exc_frame_at p m = \<lparr>frame_x = map (\<lambda>i. dword p i m) [0..<31], frame_sp_el1 = dword p 31 m,
     frame_elr_el1 = dword p 32 m, frame_spsr_el1 = dword p 33 m\<rparr>"

section \<open>The frame\<close>

lemma set_reg_simps [simp]:
  "x_regs (set_reg r v c) = (x_regs c)(r := v)" "x_sp (set_reg r v c) = x_sp c"
  "elr_el1 (set_reg r v c) = elr_el1 c" "spsr_el1 (set_reg r v c) = spsr_el1 c"
  "x_pc (set_reg r v c) = x_pc c" "x_pstate (set_reg r v c) = x_pstate c"
  by (simp_all add: set_reg_def)

definition pairs :: "nat \<Rightarrow> (nat \<times> nat \<times> nat) list" where
  "pairs n = map (\<lambda>i. (2 * i, 2 * i + 1, 16 * i)) [0..<n]"

lemma save_pairs_eq: "save_pairs = pairs 15"
  by (simp add: save_pairs_def pairs_def upt_rec)

lemma store_pairs:
  assumes "n \<le> 15"
  shows "\<exists>m'. fold (\<lambda>(a, b, off). stp_sp a b off) (pairs n) (c, m) = (c, m') \<and>
    (\<forall>i < 34. dword (x_sp c) i m' = (if i < 2 * n then x_regs c i else dword (x_sp c) i m))"
  using assms
proof (induction n)
  case 0
  then show ?case by (simp add: pairs_def)
next
  case (Suc n)
  then obtain m' where m': "fold (\<lambda>(a, b, off). stp_sp a b off) (pairs n) (c, m) = (c, m')"
    "\<forall>i < 34. dword (x_sp c) i m' = (if i < 2 * n then x_regs c i else dword (x_sp c) i m)"
    by auto
  let ?m = "store64 (x_sp c + of_nat (8 * (2 * n + 1))) (x_regs c (2 * n + 1))
    (store64 (x_sp c + of_nat (8 * (2 * n))) (x_regs c (2 * n)) m')"
  have "stp_sp (2 * n) (2 * n + 1) (16 * n) (c, m') = (c, ?m)"
    by (simp add: stp_sp_def str_sp_def algebra_simps)
  then have "fold (\<lambda>(a, b, off). stp_sp a b off) (pairs (Suc n)) (c, m) = (c, ?m)"
    using m'(1) by (simp add: pairs_def)
  moreover have "dword (x_sp c) i ?m = (if i < 2 * Suc n then x_regs c i else dword (x_sp c) i m)"
    if "i < 34" for i
  proof -
    have "dword (x_sp c) i ?m = (if i = 2 * n + 1 then x_regs c (2 * n + 1)
        else if i = 2 * n then x_regs c (2 * n) else dword (x_sp c) i m')"
      using that Suc.prems by (subst dword_store, simp, simp, subst dword_store) simp_all
    with that m'(2) show ?thesis by (auto simp: less_Suc_eq)
  qed
  ultimately show ?case by blast
qed

lemma load_pairs:
  "fold (\<lambda>(a, b, off). ldp_sp a b off) (rev (pairs n)) (c, m) =
     (c\<lparr>x_regs := \<lambda>i. if i < 2 * n then dword (x_sp c) i m else x_regs c i\<rparr>, m)"
proof (induction n arbitrary: c)
  case 0
  then show ?case by (simp add: pairs_def)
next
  case (Suc n)
  let ?c = "set_reg (2 * n + 1) (dword (x_sp c) (2 * n + 1) m) (set_reg (2 * n) (dword (x_sp c) (2 * n) m) c)"
  have "ldp_sp (2 * n) (2 * n + 1) (16 * n) (c, m) = (?c, m)"
    by (simp add: ldp_sp_def ldr_sp_def dword_def algebra_simps)
  then have "fold (\<lambda>(a, b, off). ldp_sp a b off) (rev (pairs (Suc n))) (c, m) =
      fold (\<lambda>(a, b, off). ldp_sp a b off) (rev (pairs n)) (?c, m)"
    by (simp add: pairs_def)
  also have "\<dots> = (?c\<lparr>x_regs := \<lambda>i. if i < 2 * n then dword (x_sp c) i m else x_regs ?c i\<rparr>, m)"
    by (simp only: Suc.IH [of ?c] set_reg_simps(2))
  also have "\<dots> = (c\<lparr>x_regs := \<lambda>i. if i < 2 * Suc n then dword (x_sp c) i m else x_regs c i\<rparr>, m)"
    by (auto simp: set_reg_def fun_eq_iff less_Suc_eq)
  finally show ?case .
qed

text \<open>The frame \<^verbatim>\<open>save_regs\<close> leaves.\<close>

lemma save_regs_frame:
  assumes "save_regs exc_id (c, m) = (c', m')"
  shows "x_sp c' = x_sp c - 0x110" "x_regs c' 0 = exc_id" "x_regs c' 1 = x_sp c'"
    "i \<le> 30 \<Longrightarrow> dword (x_sp c') i m' = x_regs c i" "dword (x_sp c') 31 m' = x_sp c"
    "dword (x_sp c') 32 m' = elr_el1 c" "dword (x_sp c') 33 m' = spsr_el1 c"
proof -
  let ?c = "c\<lparr>x_sp := x_sp c - of_nat EXC_FRAME_SIZE\<rparr>"
  let ?f = "x_sp c - of_nat EXC_FRAME_SIZE"
  obtain m1 where m1: "fold (\<lambda>(a, b, off). stp_sp a b off) save_pairs (?c, m) = (?c, m1)"
    "\<forall>i < 34. dword ?f i m1 = (if i < 30 then x_regs c i else dword ?f i m)"
    using store_pairs [of 15 ?c m] by (auto simp: save_pairs_eq)
  let ?m2 = "store64 (?f + of_nat (8 * 30)) (x_regs c 30) m1"
  let ?m3 = "store64 (?f + of_nat (8 * 31)) (x_sp c) ?m2"
  let ?m4 = "store64 (?f + of_nat (8 * 33)) (spsr_el1 c) (store64 (?f + of_nat (8 * 32)) (elr_el1 c) ?m3)"
  have m': "m' = ?m4" and c': "x_sp c' = ?f" "x_regs c' 0 = exc_id" "x_regs c' 1 = ?f"
    using assms m1(1) by (auto simp: save_regs_def Let_def str_sp_def stp_sp_def)
  show "x_sp c' = x_sp c - 0x110" "x_regs c' 0 = exc_id" "x_regs c' 1 = x_sp c'"
    using c' by (simp_all add: EXC_FRAME_SIZE_def)
  have st: "dword ?f j (store64 (?f + of_nat (8 * k)) v m) = (if j = k then v else dword ?f j m)"
    if "j < 34" "k < 34" for j k v m
    using that by (intro dword_store) simp_all
  have w: "dword ?f j ?m4 = (if j = 33 then spsr_el1 c else if j = 32 then elr_el1 c
      else if j = 31 then x_sp c else if j = 30 then x_regs c 30 else dword ?f j m1)" if "j < 34" for j
    using that by (simp only: st)
  show "dword (x_sp c') 31 m' = x_sp c" "dword (x_sp c') 32 m' = elr_el1 c"
    "dword (x_sp c') 33 m' = spsr_el1 c"
    unfolding m' c'(1) using w [of 31] w [of 32] w [of 33] by simp_all
  show "dword (x_sp c') i m' = x_regs c i" if "i \<le> 30"
  proof -
    have "dword ?f i ?m4 = (if i = 30 then x_regs c 30 else dword ?f i m1)"
      using that w [of i] by simp
    also have "\<dots> = x_regs c i" using that m1(2) by auto
    finally show ?thesis unfolding m' c'(1) .
  qed
qed

lemma restore_regs_frame:
  assumes "restore_regs (c, m) = (c', m')"
  shows "m' = m" "x_sp c' = x_sp c + 0x110" "i \<le> 30 \<Longrightarrow> x_regs c' i = dword (x_sp c) i m"
    "x_pc c' = dword (x_sp c) 32 m" "x_pstate c' = dword (x_sp c) 33 m"
proof -
  let ?w = "\<lambda>i. dword (x_sp c) i m"
  have w: "load64 (x_sp c + of_nat (8 * i)) m = ?w i" for i by (simp add: dword_def)
  have c: "m' = m" "x_sp c' = x_sp c + 0x110" "x_pc c' = ?w 32" "x_pstate c' = ?w 33"
    "x_regs c' = (\<lambda>i. if i < 30 then ?w i else if i = 30 then ?w 30 else x_regs c' i)"
    using assms w [of 30] w [of 32] w [of 33]
    by (auto simp: restore_regs_def Let_def ldp_sp_def ldr_sp_def save_pairs_eq load_pairs EXC_FRAME_SIZE_def fun_eq_iff)
  then show "m' = m" "x_sp c' = x_sp c + 0x110" "x_pc c' = ?w 32" "x_pstate c' = ?w 33" by simp_all
  show "i \<le> 30 \<Longrightarrow> x_regs c' i = ?w i" using fun_cong [OF c(5), of i] by (cases "i = 30") auto
qed

section \<open>The handler\<close>

text \<open>
  Entered with the stack pointer \<open>sp\<close>, the compiled handler returns with it and writes only in \<open>W\<close>:
  its own stack below \<open>sp\<close> and the variables it uses, wherever they are, but not the frame above.
\<close>

definition frame_bytes :: "u64 \<Rightarrow> u64 set" where
  "frame_bytes sp = {p. unat (p - sp) < 0x110}"

definition obeys_call :: "u64 \<Rightarrow> u64 set \<Rightarrow> (exc_state \<Rightarrow> exc_state) \<Rightarrow> bool" where
  "obeys_call sp W body \<longleftrightarrow> W \<inter> frame_bytes sp = {} \<and>
     (\<forall>c m. x_sp c = sp \<longrightarrow> x_sp (fst (body (c, m))) = sp \<and> (\<forall>p. p \<notin> W \<longrightarrow> snd (body (c, m)) p = m p))"

lemma obeys_call_keeps:
  assumes "obeys_call sp W body" and "x_sp c = sp"
  shows "x_sp (fst (body (c, m))) = sp" "p \<notin> W \<Longrightarrow> snd (body (c, m)) p = m p"
    "i < 34 \<Longrightarrow> dword sp i (snd (body (c, m))) = dword sp i m"
proof -
  have same: "snd (body (c, m)) p = m p" if "p \<notin> W" for p using assms that by (simp add: obeys_call_def)
  then show "p \<notin> W \<Longrightarrow> snd (body (c, m)) p = m p" .
  show "x_sp (fst (body (c, m))) = sp" using assms by (simp add: obeys_call_def)
  assume i: "i < 34"
  have "sp + of_nat (8 * i) + of_nat j \<in> frame_bytes sp" if "j < 8" for j
  proof -
    have "unat (of_nat (8 * i + j) :: u64) = 8 * i + j" using i that by (simp only: unat_of_nat) simp
    moreover have "sp + of_nat (8 * i) + of_nat j - sp = (of_nat (8 * i + j) :: u64)" by simp
    moreover have "8 * i + j < 0x110" using i that by linarith
    ultimately show ?thesis unfolding frame_bytes_def mem_Collect_eq by (simp only:)
  qed
  then have "sp + of_nat (8 * i) + of_nat j \<notin> W" if "j < 8" for j
    using assms(1) that unfolding obeys_call_def by blast
  then show "dword sp i (snd (body (c, m))) = dword sp i m"
    unfolding dword_def by (intro load64_same same)
qed

section \<open>Properties\<close>

lemma exc_stub_transparent:
  assumes call: "obeys_call (x_sp c - 0x110) W handler"
    and stub: "exc_stub exc_id handler (c, m) = (c', m')"
  shows "(\<forall>i \<le> 30. x_regs c' i = x_regs c i) \<and> x_sp c' = x_sp c \<and> x_pc c' = elr_el1 c \<and> x_pstate c' = spsr_el1 c"
proof -
  obtain c1 m1 where s1: "save_regs exc_id (c, m) = (c1, m1)" by (cases "save_regs exc_id (c, m)")
  obtain c2 m2 where s2: "handler (c1, m1) = (c2, m2)" by (cases "handler (c1, m1)")
  have s3: "restore_regs (c2, m2) = (c', m')" using stub by (simp add: exc_stub_def s1 s2)
  note sv = save_regs_frame [OF s1] and rs = restore_regs_frame [OF s3]
  have kept: "x_sp c2 = x_sp c1" "\<And>i. i < 34 \<Longrightarrow> dword (x_sp c1) i m2 = dword (x_sp c1) i m1"
    using obeys_call_keeps [OF call sv(1), where m = m1] s2 by (simp_all add: sv(1))
  have "x_regs c' i = x_regs c i" if "i \<le> 30" for i
    using rs(3) [OF that] sv(4) [OF that] kept(2) [of i] that by (simp add: kept(1))
  moreover have "x_sp c' = x_sp c" using rs(2) sv(1) by (simp add: kept(1))
  moreover have "x_pc c' = elr_el1 c" "x_pstate c' = spsr_el1 c"
    using rs(4,5) sv(6,7) kept(2) [of 32] kept(2) [of 33] by (simp_all add: kept(1))
  ultimately show ?thesis by blast
qed

text \<open>
  Exceptions are transparent.  If the handler obeys the call, then an exception at one of the twelve vectors
  that have a stub returns to the interrupted instruction with all 31 general registers, the stack
  pointer and the processor state as they were; at the four AArch32 vectors the core hangs.
\<close>
theorem exception_transparent:
  assumes call: "obeys_call (x_sp c - 0x110) W handler"
    and off: "off \<in> set (map ((*) 0x80) [0..<16])"
  shows "case take_exception off handler (c, m) of
      None \<Rightarrow> 0x600 \<le> off
    | Some (c', m') \<Rightarrow> off < 0x600 \<and> (\<forall>i \<le> 30. x_regs c' i = x_regs c i) \<and> x_sp c' = x_sp c \<and>
        x_pc c' = x_pc c \<and> x_pstate c' = x_pstate c"
proof (cases "map_of vector_ids off")
  case None
  moreover have "0x600 \<le> off" using None off by (auto simp: vector_ids_def upt_rec split: if_splits)
  ultimately show ?thesis by (simp add: take_exception_def)
next
  case (Some exc_id)
  obtain c' m' where s: "exc_stub exc_id handler (c\<lparr>elr_el1 := x_pc c, spsr_el1 := x_pstate c\<rparr>, m) = (c', m')"
    by (cases "exc_stub exc_id handler (c\<lparr>elr_el1 := x_pc c, spsr_el1 := x_pstate c\<rparr>, m)")
  have "off < 0x600" using Some by (auto simp: vector_ids_def split: if_splits)
  moreover have "obeys_call (x_sp (c\<lparr>elr_el1 := x_pc c, spsr_el1 := x_pstate c\<rparr>) - 0x110) W handler" using call by simp
  ultimately show ?thesis using Some s exc_stub_transparent [OF _ s] by (simp add: take_exception_def)
qed

text \<open>
  A handler that pushes two registers, counts in a variable and wrecks every register but the
  stack pointer.
\<close>

definition rude_handler :: "exc_state \<Rightarrow> exc_state" where
  "rude_handler = (\<lambda>(c, m). (c\<lparr>x_regs := (\<lambda>i. 0xDEAD), elr_el1 := 0, spsr_el1 := 0\<rparr>,
     let m = store64 (x_sp c - 8) (x_regs c 30) (store64 (x_sp c - 16) (x_regs c 29) m)
     in store64 0x40102000 (load64 0x40102000 m + 1) m))"

definition rude_writes :: "u64 \<Rightarrow> u64 set" where
  "rude_writes sp = {p. unat (p - (sp - 16)) < 16} \<union> {p. unat (p - 0x40102000) < 8}"

lemma rude_handler_obeys:
  assumes "rude_writes sp \<inter> frame_bytes sp = {}"
  shows "obeys_call sp (rude_writes sp) rude_handler"
proof -
  have apart: "\<not> unat (p - (sp - 8)) < 8" "\<not> unat (p - (sp - 16)) < 8" "\<not> unat (p - 0x40102000) < 8"
    if "p \<notin> rude_writes sp" for p
  proof -
    have q: "p - (sp - 8) = p - (sp - 16) - 8" by simp
    show "\<not> unat (p - (sp - 16)) < 8" "\<not> unat (p - 0x40102000) < 8" using that by (auto simp: rude_writes_def)
    have "\<not> unat (d - 8) < 8" if "16 \<le> unat d" for d :: u64 using that by (simp add: unat_sub_if')
    moreover have "16 \<le> unat (p - (sp - 16))" using that by (simp add: rude_writes_def)
    ultimately show "\<not> unat (p - (sp - 8)) < 8" unfolding q by blast
  qed
  then show ?thesis
    using assms by (simp add: obeys_call_def rude_handler_def store64_def Let_def)
qed

definition sample_cpu :: exc_cpu where
  "sample_cpu = \<lparr>x_regs = (\<lambda>i. of_nat (i * 3)), x_sp = 0x40210000, x_pc = 0x40081234, x_pstate = 0x60000305,
     elr_el1 = 0x400811F0, spsr_el1 = 0x305\<rparr>"

lemma rude_sample: "rude_writes (x_sp sample_cpu - 0x110) \<inter> frame_bytes (x_sp sample_cpu - 0x110) = {}"
  by (auto simp: rude_writes_def frame_bytes_def sample_cpu_def unat_sub_if' split: if_splits)

lemma exception_transparent_witness:
  "case take_exception 0x280 rude_handler (sample_cpu, \<lambda>a. 0) of
     None \<Rightarrow> False
   | Some (c', m') \<Rightarrow> x_regs c' 30 = 90 \<and> x_sp c' = 0x40210000 \<and> x_pc c' = 0x40081234"
  using exception_transparent [OF rude_handler_obeys [OF rude_sample], where off = "0x280" and m = "\<lambda>a. 0"]
  by (auto simp: sample_cpu_def upt_rec split: option.splits)

text \<open>
  What the handler is given.  It is called with the exception's number in x0 and, in
  x1, a pointer to an \<^verbatim>\<open>exc_frame_t\<close> below the interrupted stack that holds x0 to x30, the stack
  pointer at the time of the exception, ELR and SPSR.
\<close>
theorem exception_frame_layout:
  assumes "save_regs exc_id (c, m) = (c', m')"
  shows "x_regs c' 0 = exc_id \<and> x_regs c' 1 = x_sp c - of_nat EXC_FRAME_SIZE \<and>
    exc_frame_at (x_regs c' 1) m' = \<lparr>frame_x = map (x_regs c) [0..<31], frame_sp_el1 = x_sp c,
      frame_elr_el1 = elr_el1 c, frame_spsr_el1 = spsr_el1 c\<rparr>"
  using save_regs_frame [OF assms] by (simp add: exc_frame_at_def EXC_FRAME_SIZE_def)

lemma exception_frame_layout_witness:
  "\<exists>c' m'. save_regs 0x12 (sample_cpu, \<lambda>a. 0) = (c', m') \<and> frame_elr_el1 (exc_frame_at (x_regs c' 1) m') = 0x400811F0"
proof -
  obtain c' m' where s: "save_regs 0x12 (sample_cpu, \<lambda>a. 0) = (c', m')" by (cases "save_regs 0x12 (sample_cpu, \<lambda>a. 0)")
  have "frame_elr_el1 (exc_frame_at (x_regs c' 1) m') = elr_el1 sample_cpu"
    using exception_frame_layout [OF s] by (metis exc_frame.select_convs(3))
  then have "frame_elr_el1 (exc_frame_at (x_regs c' 1) m') = 0x400811F0" by (simp add: sample_cpu_def)
  with s show ?thesis by blast
qed

section \<open>With the C handler\<close>

text \<open>
  The C function \<^verbatim>\<open>common_trap_handler\<close> in place: it gets the exception's number from x0 and works on
  the interrupt controller and the rest of the system, while its compiled \<open>body\<close> uses registers and
  stack.  The processor masks interrupts on the way in and takes the mask back from the saved
  state on \<^verbatim>\<open>eret\<close>.  A core that hangs, in a vector or in the handler, is \<open>Halted\<close>.
\<close>

definition PSTATE_I :: nat where "PSTATE_I = 7"

definition trap ::
  "nat \<Rightarrow> (exc_state \<Rightarrow> exc_state) \<Rightarrow> ('h \<Rightarrow> u32 \<Rightarrow> 's \<Rightarrow> 's) \<Rightarrow> u32 \<Rightarrow> exc_state \<times> ('h irq \<times> 's) \<Rightarrow>
   (exc_state \<times> ('h irq \<times> 's)) exec" where
  "trap off body call iar = (\<lambda>((c, m), (g, s)). case map_of vector_ids off of
       None \<Rightarrow> Inl Halted
     | Some exc_id \<Rightarrow>
         let (c, m) = save_regs exc_id
               (c\<lparr>elr_el1 := x_pc c, spsr_el1 := x_pstate c, x_pstate := x_pstate c OR 0x3C0\<rparr>, m)
         in bind_exec (common_trap_handler call (x_regs c 0) iar (irq_disable g, s)) (\<lambda>(g, s).
              let (c, m) = restore_regs (body (c, m))
              in Inr ((c, m), (g\<lparr>irqs_masked := bit (x_pstate c) PSTATE_I\<rparr>, s))))"

text \<open>Interrupts arriving one after the other; the kernel runs on the stack of EL1.\<close>

fun interrupts ::
  "('h \<Rightarrow> u32 \<Rightarrow> 's \<Rightarrow> 's) \<Rightarrow> ((exc_state \<Rightarrow> exc_state) \<times> u32) list \<Rightarrow> exc_state \<times> ('h irq \<times> 's) \<Rightarrow>
   (exc_state \<times> ('h irq \<times> 's)) exec" where
  "interrupts call [] x = Inr x"
| "interrupts call ((body, iar) # bs) x =
     (if irqs_masked (fst (snd x)) then Inr x
      else bind_exec (trap 0x280 body call iar x) (interrupts call bs))"

text \<open>What the stub itself stores is in the frame.\<close>

lemma str_sp_outside:
  assumes "off + 8 \<le> 0x110" "0x110 \<le> unat (p - x_sp c)"
  shows "\<exists>m'. str_sp r off (c, m) = (c, m') \<and> m' p = m p"
proof -
  have u: "unat (of_nat off :: u64) = off" using assms(1) by (simp add: unat_of_nat)
  have "unat ((p - x_sp c) - of_nat off) = unat (p - x_sp c) - off"
    using assms u by (simp add: unat_sub_if')
  then have "8 \<le> unat (p - (x_sp c + of_nat off))" unfolding diff_diff_add using assms by simp
  then show ?thesis by (simp add: str_sp_def store64_def)
qed

lemma stp_sp_outside:
  assumes "off + 16 \<le> 0x110" "0x110 \<le> unat (p - x_sp c)"
  shows "\<exists>m'. stp_sp a b off (c, m) = (c, m') \<and> m' p = m p"
proof -
  obtain m1 where "str_sp a off (c, m) = (c, m1)" "m1 p = m p"
    using str_sp_outside [of off p c a m] assms by auto
  moreover obtain m2 where "str_sp b (off + 8) (c, m1) = (c, m2)" "m2 p = m1 p"
    using str_sp_outside [of "off + 8" p c b m1] assms by auto
  ultimately show ?thesis by (simp add: stp_sp_def)
qed

lemma store_pairs_outside:
  assumes "n \<le> 15" "0x110 \<le> unat (p - x_sp c)"
  shows "\<exists>m'. fold (\<lambda>(a, b, off). stp_sp a b off) (pairs n) (c, m) = (c, m') \<and> m' p = m p"
  using assms(1)
proof (induction n)
  case 0
  then show ?case by (simp add: pairs_def)
next
  case (Suc n)
  then obtain m1 where "fold (\<lambda>(a, b, off). stp_sp a b off) (pairs n) (c, m) = (c, m1)" "m1 p = m p" by auto
  moreover obtain m2 where "stp_sp (2 * n) (2 * n + 1) (16 * n) (c, m1) = (c, m2)" "m2 p = m1 p"
    using stp_sp_outside [of "16 * n" p c "2 * n" "2 * n + 1" m1] Suc.prems assms(2) by auto
  ultimately show ?case by (simp add: pairs_def)
qed

lemma save_regs_outside:
  assumes "save_regs exc_id (c, m) = (c', m')" "0x110 \<le> unat (p - (x_sp c - 0x110))"
  shows "m' p = m p"
proof -
  let ?c = "c\<lparr>x_sp := x_sp c - of_nat EXC_FRAME_SIZE\<rparr>"
  have p: "0x110 \<le> unat (p - x_sp d)" if "x_sp d = x_sp ?c" for d
    using assms(2) that by (simp add: EXC_FRAME_SIZE_def)
  obtain m1 where m1: "fold (\<lambda>(a, b, off). stp_sp a b off) save_pairs (?c, m) = (?c, m1)" "m1 p = m p"
    using store_pairs_outside [of 15 p ?c m] p [of ?c] by (auto simp: save_pairs_eq)
  obtain m2 where m2: "str_sp 30 0x0F0 (?c, m1) = (?c, m2)" "m2 p = m1 p"
    using str_sp_outside [of "0x0F0" p ?c 30 m1] p [of ?c] by auto
  let ?c2 = "set_reg 10 (x_sp ?c + of_nat EXC_FRAME_SIZE) ?c"
  obtain m3 where m3: "str_sp 10 0x0F8 (?c2, m2) = (?c2, m3)" "m3 p = m2 p"
    using str_sp_outside [of "0x0F8" p ?c2 10 m2] p [of ?c2] by auto
  let ?c3 = "set_reg 11 (spsr_el1 ?c2) (set_reg 10 (elr_el1 ?c2) ?c2)"
  obtain m4 where m4: "stp_sp 10 11 0x100 (?c3, m3) = (?c3, m4)" "m4 p = m3 p"
    using stp_sp_outside [of "0x100" p ?c3 10 11 m3] p [of ?c3] by auto
  have "m' = m4" using assms(1) m1(1) m2(1) m3(1) m4(1) by (simp add: save_regs_def Let_def)
  with m1(2) m2(2) m3(2) m4(2) show ?thesis by simp
qed

lemma trap_irq_returns:
  assumes ok: "irq_ok g" and body: "obeys_call (x_sp c - 0x110) W body" and off: "map_of vector_ids off = Some exc_id"
    and irq: "exc_id \<in> {EXC_SPX_IRQ, EXC_A64_IRQ}"
  obtains c' m' g' where
    "trap off body call iar ((c, m), (g, s)) = Inr ((c', m'), (g', serve call (irq_table g) iar s))"
    "\<forall>i \<le> 30. x_regs c' i = x_regs c i" "x_sp c' = x_sp c" "x_pc c' = x_pc c" "x_pstate c' = x_pstate c"
    "irq_table g' = irq_table g" "irqs_masked g' = bit (x_pstate c) PSTATE_I"
    "eois (mmio_trace g') = eois (mmio_trace g) @ filter (\<lambda>iar. iar AND 0x3FF \<noteq> 1023) [iar]"
    "\<And>p. p \<notin> W \<Longrightarrow> p \<notin> frame_bytes (x_sp c - 0x110) \<Longrightarrow> m' p = m p"
proof -
  let ?c = "c\<lparr>elr_el1 := x_pc c, spsr_el1 := x_pstate c, x_pstate := x_pstate c OR 0x3C0\<rparr>"
  obtain c1 m1 where s1: "save_regs exc_id (?c, m) = (c1, m1)" by (cases "save_regs exc_id (?c, m)")
  obtain c2 m2 where s2: "body (c1, m1) = (c2, m2)" by (cases "body (c1, m1)")
  obtain c3 m3 where s3: "restore_regs (c2, m2) = (c3, m3)" by (cases "restore_regs (c2, m2)")
  note sv = save_regs_frame [OF s1] and rs = restore_regs_frame [OF s3]
  have call: "x_sp c1 = x_sp c - 0x110" using sv(1) by simp
  have kept: "x_sp c2 = x_sp c1" "\<And>i. i < 34 \<Longrightarrow> dword (x_sp c1) i m2 = dword (x_sp c1) i m1"
    "\<And>p. p \<notin> W \<Longrightarrow> m2 p = m1 p"
    using obeys_call_keeps [OF body call, where m = m1] s2 by (simp_all add: call)
  have "exc_stub exc_id body (?c, m) = (c3, m3)" by (simp add: exc_stub_def s1 s2 s3)
  have same: "\<forall>i \<le> 30. x_regs c3 i = x_regs c i" "x_sp c3 = x_sp c" "x_pc c3 = x_pc c" "x_pstate c3 = x_pstate c"
  proof -
    have "x_regs c3 i = x_regs c i" if "i \<le> 30" for i
      using rs(3) [OF that] sv(4) [OF that] kept(2) [of i] that by (simp add: kept(1))
    then show "\<forall>i \<le> 30. x_regs c3 i = x_regs c i" by blast
    show "x_sp c3 = x_sp c" "x_pc c3 = x_pc c" "x_pstate c3 = x_pstate c"
      using rs(2,4,5) sv(1,6,7) kept(2) [of 32] kept(2) [of 33] by (simp_all add: kept(1))
  qed
  let ?g = "if iar AND 0x3FF = 1023 then mmio_log [Read GICC_IAR iar] (irq_disable g)
     else mmio_log [Read GICC_IAR iar, Write GICC_EOIR iar] (irq_disable g)"
  have "irq_ok (irq_disable g)" "irq_table (irq_disable g) = irq_table g" using ok by (simp_all add: irq_disable_def irq_ok_def)
  then have handler: "common_trap_handler call (x_regs c1 0) iar (irq_disable g, s) = Inr (?g, serve call (irq_table g) iar s)"
    using trap_irq [of "irq_disable g" exc_id call iar s] irq by (simp add: sv(2) serve_def)
  show ?thesis
  proof (rule that)
    show "trap off body call iar ((c, m), (g, s)) = Inr ((c3, m3),
        (?g\<lparr>irqs_masked := bit (x_pstate c) PSTATE_I\<rparr>, serve call (irq_table g) iar s))"
      by (simp only: trap_def prod.case off option.case s1 Let_def handler bind_exec.simps s2 s3 same(4))
    show "irq_table (?g\<lparr>irqs_masked := bit (x_pstate c) PSTATE_I\<rparr>) = irq_table g"
      "irqs_masked (?g\<lparr>irqs_masked := bit (x_pstate c) PSTATE_I\<rparr>) = bit (x_pstate c) PSTATE_I"
      "eois (mmio_trace (?g\<lparr>irqs_masked := bit (x_pstate c) PSTATE_I\<rparr>)) =
         eois (mmio_trace g) @ filter (\<lambda>iar. iar AND 0x3FF \<noteq> 1023) [iar]"
      by (simp_all add: irq_disable_def gic_defs)
    show "m3 p = m p" if "p \<notin> W" "p \<notin> frame_bytes (x_sp c - 0x110)" for p
    proof -
      have "m1 p = m p" using save_regs_outside [OF s1, of p] that(2) by (simp add: frame_bytes_def)
      with kept(3) [OF that(1)] show ?thesis using rs(1) by simp
    qed
  qed (use same in auto)
qed

lemma filter_Cons_append: "xs @ filter P (y # ys) = (xs @ filter P [y]) @ filter P ys"
  by simp

lemma interrupts_run:
  assumes "irq_ok g" "\<forall>(body, iar) \<in> set bs. obeys_call (x_sp c - 0x110) W body" "\<not> irqs_masked g" "\<not> bit (x_pstate c) PSTATE_I"
  shows "\<exists>c' m' g'. interrupts call bs ((c, m), (g, s)) =
      Inr ((c', m'), (g', fold (serve call (irq_table g)) (map snd bs) s)) \<and>
    (\<forall>i \<le> 30. x_regs c' i = x_regs c i) \<and> x_sp c' = x_sp c \<and> x_pc c' = x_pc c \<and> x_pstate c' = x_pstate c \<and>
    irq_table g' = irq_table g \<and> \<not> irqs_masked g' \<and>
    eois (mmio_trace g') = eois (mmio_trace g) @ filter (\<lambda>iar. iar AND 0x3FF \<noteq> 1023) (map snd bs) \<and>
    (\<forall>p. p \<notin> W \<and> p \<notin> frame_bytes (x_sp c - 0x110) \<longrightarrow> m' p = m p)"
  using assms
proof (induction bs arbitrary: c m g s)
  case Nil
  then show ?case by simp
next
  case (Cons b bs)
  obtain body iar where b: "b = (body, iar)" by (cases b)
  have off: "map_of vector_ids 0x280 = Some EXC_SPX_IRQ" by (simp add: vector_ids_def EXC_SPX_IRQ_def)
  have body: "obeys_call (x_sp c - 0x110) W body" using Cons.prems(2) b by simp
  obtain c1 m1 g1 where t:
    "trap 0x280 body call iar ((c, m), (g, s)) = Inr ((c1, m1), (g1, serve call (irq_table g) iar s))"
    "\<forall>i \<le> 30. x_regs c1 i = x_regs c i" "x_sp c1 = x_sp c" "x_pc c1 = x_pc c" "x_pstate c1 = x_pstate c"
    "irq_table g1 = irq_table g" "irqs_masked g1 = bit (x_pstate c) PSTATE_I"
    "eois (mmio_trace g1) = eois (mmio_trace g) @ filter (\<lambda>iar. iar AND 0x3FF \<noteq> 1023) [iar]"
    "\<And>p. p \<notin> W \<Longrightarrow> p \<notin> frame_bytes (x_sp c - 0x110) \<Longrightarrow> m1 p = m p"
    using trap_irq_returns [OF Cons.prems(1) body off, where call = call and iar = iar and m = m and s = s] by blast
  have "irq_ok g1" using Cons.prems(1) t(6) by (simp add: irq_ok_def)
  from Cons.IH [OF this, of c1 m1 "serve call (irq_table g) iar s"] Cons.prems(2,4) t(3,5,7) obtain c' m' g' where r:
    "interrupts call bs ((c1, m1), (g1, serve call (irq_table g) iar s)) =
      Inr ((c', m'), (g', fold (serve call (irq_table g)) (map snd bs) (serve call (irq_table g) iar s)))"
    "\<forall>i \<le> 30. x_regs c' i = x_regs c1 i" "x_sp c' = x_sp c1" "x_pc c' = x_pc c1" "x_pstate c' = x_pstate c1"
    "irq_table g' = irq_table g" "\<not> irqs_masked g'"
    "eois (mmio_trace g') = eois (mmio_trace g1) @ filter (\<lambda>iar. iar AND 0x3FF \<noteq> 1023) (map snd bs)"
    "\<forall>p. p \<notin> W \<and> p \<notin> frame_bytes (x_sp c - 0x110) \<longrightarrow> m' p = m1 p"
    unfolding t(3,6) by auto
  have "interrupts call (b # bs) ((c, m), (g, s)) =
      Inr ((c', m'), (g', fold (serve call (irq_table g)) (map snd (b # bs)) s))"
    using Cons.prems(3) t(1) r(1) by (simp add: b)
  moreover have "eois (mmio_trace g') = eois (mmio_trace g) @ filter (\<lambda>iar. iar AND 0x3FF \<noteq> 1023) (map snd (b # bs))"
    using r(8) t(8) by (simp add: b)
  moreover have "m' p = m p" if "p \<notin> W" "p \<notin> frame_bytes (x_sp c - 0x110)" for p
    using that r(9) t(9) [of p] by simp
  ultimately show ?case
    using r(2-7) t(2-5) by (intro exI [of _ c'] exI [of _ m'] exI [of _ g']) auto
qed

text \<open>
  Property C17: interrupts and the code they interrupt.  From the vector through \<^verbatim>\<open>save_regs\<close>,
  \<^verbatim>\<open>common_trap_handler\<close>, \<^verbatim>\<open>restore_regs\<close> and \<^verbatim>\<open>eret\<close>, any number of interrupts leave the interrupted
  code its 31 registers, stack pointer, program counter and processor state, and interrupts
  enabled.  The compiled handlers may use the stack below the frame and write variables anywhere
  but in the frame (the set \<open>W\<close>); memory changes only there and in the 272 bytes of the frame, so the
  stack of the interrupted code, which the handlers leave alone, is as it was.  The rest of the system sees exactly the registered handlers called in order, and every
  acknowledged interrupt is ended.  All other exceptions, and the AArch32 vectors, stop the core.
\<close>
theorem interrupts_transparent:
  assumes "irq_ok g" and "\<forall>(body, iar) \<in> set bs. obeys_call (x_sp c - 0x110) W body"
    and "\<not> irqs_masked g" and "\<not> bit (x_pstate c) PSTATE_I"
  shows "(\<exists>c' m' g'. interrupts call bs ((c, m), (g, s)) =
      Inr ((c', m'), (g', fold (serve call (irq_table g)) (map snd bs) s)) \<and>
    (\<forall>i \<le> 30. x_regs c' i = x_regs c i) \<and> x_sp c' = x_sp c \<and> x_pc c' = x_pc c \<and> x_pstate c' = x_pstate c \<and>
    irq_table g' = irq_table g \<and> \<not> irqs_masked g' \<and>
    eois (mmio_trace g') = eois (mmio_trace g) @ filter (\<lambda>iar. iar AND 0x3FF \<noteq> 1023) (map snd bs) \<and>
    (\<forall>p. p \<notin> W \<and> p \<notin> frame_bytes (x_sp c - 0x110) \<longrightarrow> m' p = m p)) \<and>
    (\<forall>off body iar. off \<notin> {0x280, 0x480} \<longrightarrow> trap off body call iar ((c, m), (g, s)) = Inl Halted)"
proof -
  have "trap off body call iar ((c, m), (g, s)) = Inl Halted" if "off \<notin> {0x280, 0x480}" for off body iar
  proof (cases "map_of vector_ids off")
    case None
    then show ?thesis by (simp add: trap_def)
  next
    case (Some exc_id)
    let ?c = "c\<lparr>elr_el1 := x_pc c, spsr_el1 := x_pstate c, x_pstate := x_pstate c OR 0x3C0\<rparr>"
    obtain c1 m1 where s1: "save_regs exc_id (?c, m) = (c1, m1)" by (cases "save_regs exc_id (?c, m)")
    have "exc_id \<noteq> EXC_SPX_IRQ \<and> exc_id \<noteq> EXC_A64_IRQ"
      using Some that by (auto simp: vector_ids_def EXC_SPX_IRQ_def EXC_A64_IRQ_def split: if_splits)
    then have "common_trap_handler call (x_regs c1 0) iar (irq_disable g, s) = Inl Halted"
      using save_regs_frame(2) [OF s1] by (simp add: common_trap_handler_def)
    then show ?thesis by (simp only: trap_def prod.case Some option.case s1 Let_def bind_exec.simps)
  qed
  with interrupts_run [OF assms, where call = call and m = m and s = s] show ?thesis by blast
qed

text \<open>Two timer interrupts and a spurious one; the handler counts.  The stack of the interrupted code is intact.\<close>

lemma interrupts_transparent_witness:
  "\<exists>c' m' g'. interrupts (\<lambda>h irq n. n + h) [(rude_handler, 30), (rude_handler, 1023), (rude_handler, 30)]
       ((sample_cpu\<lparr>x_pstate := 0x60000005\<rparr>, \<lambda>a. 0),
        (\<lparr>irq_table = (replicate 64 None)[30 := Some 5], mmio_trace = [], irqs_masked = False\<rparr>, 0 :: nat)) =
     Inr ((c', m'), (g', 10)) \<and> x_regs c' 30 = 90 \<and> eois (mmio_trace g') = [30, 30] \<and> m' 0x40210008 = 0"
proof -
  let ?g = "\<lparr>irq_table = (replicate 64 None)[30 := Some (5 :: nat)], mmio_trace = [], irqs_masked = False\<rparr>"
  let ?bs = "[(rude_handler, 30), (rude_handler, 1023), (rude_handler, 30 :: u32)]"
  have "irq_ok ?g" "\<not> irqs_masked ?g" by (simp_all add: irq_ok_def)
  moreover have "\<forall>(body, iar) \<in> set ?bs. obeys_call (x_sp (sample_cpu\<lparr>x_pstate := 0x60000005\<rparr>) - 0x110)
      (rude_writes (x_sp sample_cpu - 0x110)) body"
    using rude_handler_obeys [OF rude_sample] by simp
  moreover have "\<not> bit (x_pstate (sample_cpu\<lparr>x_pstate := 0x60000005\<rparr>)) PSTATE_I" by (simp add: PSTATE_I_def)
  ultimately obtain c' m' g' where r:
    "interrupts (\<lambda>h irq n. n + h) ?bs ((sample_cpu\<lparr>x_pstate := 0x60000005\<rparr>, \<lambda>a. 0), (?g, 0)) =
       Inr ((c', m'), (g', fold (serve (\<lambda>h irq n. n + h) (irq_table ?g)) (map snd ?bs) 0))"
    "\<forall>i \<le> 30. x_regs c' i = x_regs (sample_cpu\<lparr>x_pstate := 0x60000005\<rparr>) i"
    "eois (mmio_trace g') = eois (mmio_trace ?g) @ filter (\<lambda>iar. iar AND 0x3FF \<noteq> 1023) (map snd ?bs)"
    "\<forall>p. p \<notin> rude_writes (x_sp sample_cpu - 0x110) \<and> p \<notin> frame_bytes (x_sp (sample_cpu\<lparr>x_pstate := 0x60000005\<rparr>) - 0x110) \<longrightarrow> m' p = 0"
    using interrupts_transparent [of ?g ?bs "sample_cpu\<lparr>x_pstate := 0x60000005\<rparr>" "rude_writes (x_sp sample_cpu - 0x110)"
        "\<lambda>h irq n. n + h" "\<lambda>a. 0" 0] by blast
  have "fold (serve (\<lambda>h irq n. n + h) (irq_table ?g)) (map snd ?bs) 0 = 10"
    by (simp add: serve_def dispatch_def)
  moreover have "x_regs c' 30 = 90" using r(2) by (simp add: sample_cpu_def)
  moreover have "eois (mmio_trace g') = [30, 30]" using r(3) by simp
  moreover have "m' 0x40210008 = 0" using r(4) by (simp add: rude_writes_def frame_bytes_def sample_cpu_def)
  ultimately show ?thesis using r(1) by auto
qed

end
