(* ===== verification/Ring_Weak.thy ===== *)
theory Ring_Weak
  imports Ring_Buffer
begin

text \<open>
  The ring buffer on a weakly ordered processor.  Armv8 lets a core's accesses to different
  addresses take effect in any order unless a barrier, a dependency or a branch before a store
  orders them.  Here every store to the shared struct is first pending and takes effect in a step
  of its own, and so does the consumer's read of the byte; only \<^verbatim>\<open>dmb sy\<close> waits for what is
  pending.  The code turns out to need no barrier besides the two it has, although
  \<^verbatim>\<open>ring_buffer_get\<close> may free a slot before it has read it: the slot the ring always
  keeps empty covers for it.
\<close>

section \<open>The machine\<close>

text \<open>
  A core reads its own index from its own, possibly pending, store.  The barrier of the producer
  stands between \<open>data[head]\<close> and \<open>head\<close>, that of the consumer between its look at \<open>head\<close> and its
  read of \<open>data[tail]\<close>; the room test is followed by a store and needs none.  The read of
  the other core's index can overtake whatever the previous call has left pending, and nothing
  else lies between it and that call's barrier, so delaying the pending accesses gives every order
  the architecture allows.
\<close>

datatype weak_prod =
    WP_Idle
  | WP_Test u8 u32      \<comment> \<open>\<open>next_head\<close> computed, the tail not yet read\<close>
  | WP_Store u8 u32     \<comment> \<open>room seen\<close>
  | WP_Barrier u8 u32   \<comment> \<open>the store of the byte has been issued\<close>
  | WP_Publish u8 u32   \<comment> \<open>behind the barrier\<close>

datatype weak_cons =
    WC_Idle
  | WC_Test u32         \<comment> \<open>the head read\<close>
  | WC_Barrier          \<comment> \<open>data seen\<close>
  | WC_Take             \<comment> \<open>behind the barrier\<close>

record weak =
  w_ring :: ring_buffer                 \<comment> \<open>the memory\<close>
  w_prod :: weak_prod
  w_head :: u32                         \<comment> \<open>the head as the producer sees it\<close>
  p_data :: "(u32 \<times> u8) option"         \<comment> \<open>pending store to \<open>data\<close>\<close>
  p_head :: "u32 option"                \<comment> \<open>pending store to \<open>head\<close>\<close>
  w_cons :: weak_cons
  w_tail :: u32                         \<comment> \<open>the tail as the consumer sees it\<close>
  c_load :: "u32 option"                \<comment> \<open>pending read of \<open>data\<close>\<close>
  c_tail :: "u32 option"                \<comment> \<open>pending store to \<open>tail\<close>\<close>
  w_accepted :: "u8 list"               \<comment> \<open>bytes for which \<open>put\<close> has returned 0\<close>
  w_got :: "u8 list"                    \<comment> \<open>bytes \<open>get\<close> has delivered\<close>

datatype weak_op = Put u8 | Data_Lands | Head_Lands | Get | Byte_Lands | Tail_Lands

text \<open>One step; \<open>None\<close> is a step that is not possible now.\<close>

definition put_exec :: "u8 \<Rightarrow> weak \<Rightarrow> weak option" where
  "put_exec c s = (case w_prod s of
     WP_Idle \<Rightarrow> Some (s\<lparr>w_prod := WP_Test c (next_index (w_head s))\<rparr>)
   | WP_Test d n \<Rightarrow> Some (s\<lparr>w_prod := if n = rb_tail (w_ring s) then WP_Idle else WP_Store d n\<rparr>)
   | WP_Store d n \<Rightarrow> Some (s\<lparr>p_data := Some (w_head s, d), w_prod := WP_Barrier d n\<rparr>)
   | WP_Barrier d n \<Rightarrow>
       if p_data s = None \<and> p_head s = None then Some (s\<lparr>w_prod := WP_Publish d n\<rparr>) else None
   | WP_Publish d n \<Rightarrow>
       Some (s\<lparr>p_head := Some n, w_head := n, w_accepted := w_accepted s @ [d], w_prod := WP_Idle\<rparr>))"

definition get_exec :: "weak \<Rightarrow> weak option" where
  "get_exec s = (case w_cons s of
     WC_Idle \<Rightarrow> Some (s\<lparr>w_cons := WC_Test (rb_head (w_ring s))\<rparr>)
   | WC_Test h \<Rightarrow> Some (s\<lparr>w_cons := if h = w_tail s then WC_Idle else WC_Barrier\<rparr>)
   | WC_Barrier \<Rightarrow>
       if c_load s = None \<and> c_tail s = None then Some (s\<lparr>w_cons := WC_Take\<rparr>) else None
   | WC_Take \<Rightarrow>
       let n = next_index (w_tail s)
       in Some (s\<lparr>c_load := Some (w_tail s), c_tail := Some n, w_tail := n, w_cons := WC_Idle\<rparr>))"

definition weak_exec :: "weak_op \<Rightarrow> weak \<Rightarrow> weak option" where
  "weak_exec e s = (let rb = w_ring s in case e of
     Put c \<Rightarrow> put_exec c s
   | Get \<Rightarrow> get_exec s
   | Data_Lands \<Rightarrow> map_option (\<lambda>(i, c). s\<lparr>w_ring := rb\<lparr>rb_data := (rb_data rb)[unat i := c]\<rparr>, p_data := None\<rparr>) (p_data s)
   | Head_Lands \<Rightarrow> map_option (\<lambda>n. s\<lparr>w_ring := rb\<lparr>rb_head := n\<rparr>, p_head := None\<rparr>) (p_head s)
   | Byte_Lands \<Rightarrow> map_option (\<lambda>i. s\<lparr>w_got := w_got s @ [rb_data rb ! unat i], c_load := None\<rparr>) (c_load s)
   | Tail_Lands \<Rightarrow> map_option (\<lambda>n. s\<lparr>w_ring := rb\<lparr>rb_tail := n\<rparr>, c_tail := None\<rparr>) (c_tail s))"

definition weak_init :: "ring_buffer \<Rightarrow> weak" where
  "weak_init rb = \<lparr>w_ring = ring_buffer_init rb, w_prod = WP_Idle, w_head = 0, p_data = None, p_head = None,
     w_cons = WC_Idle, w_tail = 0, c_load = None, c_tail = None, w_accepted = [], w_got = []\<rparr>"

inductive weak_reach :: "ring_buffer \<Rightarrow> weak \<Rightarrow> bool" for rb where
  start: "weak_reach rb (weak_init rb)"
| step: "weak_reach rb s \<Longrightarrow> weak_exec e s = Some t \<Longrightarrow> weak_reach rb t"

section \<open>The invariant\<close>

text \<open>The ring as the two programs see it together: each index from the core that owns it.\<close>

definition program_ring :: "weak \<Rightarrow> ring_buffer" where
  "program_ring s = (w_ring s)\<lparr>rb_head := w_head s, rb_tail := w_tail s\<rparr>"

definition load_bytes :: "weak \<Rightarrow> u8 list" where
  "load_bytes s = (case c_load s of None \<Rightarrow> [] | Some i \<Rightarrow> [rb_data (w_ring s) ! unat i])"

abbreviation dist :: "u32 \<Rightarrow> u32 \<Rightarrow> nat" where
  "dist t h \<equiv> gap (unat t) (unat h)"

text \<open>The producer has seen room, counted from the tail in memory.\<close>

definition room :: "weak \<Rightarrow> bool" where
  "room s \<longleftrightarrow> dist (rb_tail (w_ring s)) (w_head s) \<noteq> 255"

fun weak_prod_ok :: "weak \<Rightarrow> weak_prod \<Rightarrow> bool" where
  "weak_prod_ok s WP_Idle \<longleftrightarrow> p_data s = None"
| "weak_prod_ok s (WP_Test c n) \<longleftrightarrow> p_data s = None \<and> n = next_index (w_head s)"
| "weak_prod_ok s (WP_Store c n) \<longleftrightarrow> p_data s = None \<and> n = next_index (w_head s) \<and> room s"
| "weak_prod_ok s (WP_Barrier c n) \<longleftrightarrow> n = next_index (w_head s) \<and> room s \<and>
     (case p_data s of None \<Rightarrow> rb_data (w_ring s) ! unat (w_head s) = c | Some w \<Rightarrow> w = (w_head s, c))"
| "weak_prod_ok s (WP_Publish c n) \<longleftrightarrow> n = next_index (w_head s) \<and> room s \<and>
     p_data s = None \<and> p_head s = None \<and> rb_data (w_ring s) ! unat (w_head s) = c"

fun weak_cons_ok :: "weak \<Rightarrow> weak_cons \<Rightarrow> bool" where
  "weak_cons_ok s WC_Idle \<longleftrightarrow> True"
| "weak_cons_ok s (WC_Test h) \<longleftrightarrow> unat h < 256 \<and> dist (w_tail s) h \<le> dist (w_tail s) (rb_head (w_ring s))"
| "weak_cons_ok s WC_Barrier \<longleftrightarrow> rb_head (w_ring s) \<noteq> w_tail s"
| "weak_cons_ok s WC_Take \<longleftrightarrow> rb_head (w_ring s) \<noteq> w_tail s \<and> c_load s = None \<and> c_tail s = None"

text \<open>The indices in memory follow those of their owners by at most one.\<close>

definition index_ok :: "weak \<Rightarrow> bool" where
  "index_ok s \<longleftrightarrow> rb_ok (w_ring s) \<and> rb_ok (program_ring s) \<and>
     (case p_head s of None \<Rightarrow> rb_head (w_ring s) | Some n \<Rightarrow> n) = w_head s \<and>
     (case c_tail s of None \<Rightarrow> rb_tail (w_ring s) | Some n \<Rightarrow> n) = w_tail s \<and>
     dist (w_tail s) (rb_head (w_ring s)) \<le> dist (w_tail s) (w_head s) \<and>
     dist (w_tail s) (w_head s) \<le> dist (rb_tail (w_ring s)) (w_head s) \<and>
     (case c_load s of None \<Rightarrow> True | Some i \<Rightarrow> unat i < 256 \<and> w_tail s = next_index i)"

definition weak_inv :: "weak \<Rightarrow> bool" where
  [inv_defs]: "weak_inv s \<longleftrightarrow> index_ok s \<and> w_accepted s = w_got s @ load_bytes s @ rb_list (program_ring s) \<and>
     weak_prod_ok s (w_prod s) \<and> weak_cons_ok s (w_cons s)"

lemma program_ring_simps [simp]:
  "rb_head (program_ring s) = w_head s" "rb_tail (program_ring s) = w_tail s"
  "rb_data (program_ring s) = rb_data (w_ring s)"
  by (simp_all add: program_ring_def)

lemma weak_inv_init: "length (rb_data rb) = 256 \<Longrightarrow> weak_inv (weak_init rb)"
  using rb_init_ok [of rb]
  by (simp add: weak_inv_def index_ok_def weak_init_def program_ring_def load_bytes_def ring_buffer_init_def)

text \<open>The program counters do not matter to the indices, nor one program's to the other.\<close>

lemma pc_irrelevant [simp]:
  "index_ok (s\<lparr>w_prod := l\<rparr>) = index_ok s" "index_ok (s\<lparr>w_cons := k\<rparr>) = index_ok s"
  "index_ok (s\<lparr>p_data := w\<rparr>) = index_ok s"
  "program_ring (s\<lparr>w_prod := l\<rparr>) = program_ring s" "program_ring (s\<lparr>w_cons := k\<rparr>) = program_ring s"
  "program_ring (s\<lparr>p_data := w\<rparr>) = program_ring s"
  "load_bytes (s\<lparr>w_prod := l\<rparr>) = load_bytes s" "load_bytes (s\<lparr>w_cons := k\<rparr>) = load_bytes s"
  "load_bytes (s\<lparr>p_data := w\<rparr>) = load_bytes s"
  "room (s\<lparr>w_prod := l\<rparr>) = room s" "room (s\<lparr>w_cons := k\<rparr>) = room s" "room (s\<lparr>p_data := w\<rparr>) = room s"
  by (simp_all add: index_ok_def program_ring_def load_bytes_def room_def cong: option.case_cong)

lemma pc_irrelevant_prod [simp]: "weak_prod_ok (s\<lparr>w_cons := k\<rparr>) l = weak_prod_ok s l"
  "weak_prod_ok (s\<lparr>w_prod := l'\<rparr>) l = weak_prod_ok s l"
  by (cases l; simp cong: option.case_cong)+

lemma pc_irrelevant_cons [simp]: "weak_cons_ok (s\<lparr>w_prod := l\<rparr>) k = weak_cons_ok s k"
  "weak_cons_ok (s\<lparr>w_cons := k'\<rparr>) k = weak_cons_ok s k" "weak_cons_ok (s\<lparr>p_data := w\<rparr>) k = weak_cons_ok s k"
  by (cases k; simp)+

lemma index_bounds:
  assumes "index_ok s"
  shows "unat (w_head s) < 256" "unat (w_tail s) < 256" "unat (rb_head (w_ring s)) < 256"
    "unat (rb_tail (w_ring s)) < 256" "length (rb_data (w_ring s)) = 256"
  using assms by (simp_all add: index_ok_def rb_ok_def)

lemma room_program:
  assumes "index_ok s" "room s"
  shows "dist (w_tail s) (w_head s) \<noteq> 255" "rb_count (program_ring s) \<noteq> 255"
proof -
  have "dist (rb_tail (w_ring s)) (w_head s) < 256" using index_bounds [OF assms(1)] by (simp add: gap_bound)
  with assms show "dist (w_tail s) (w_head s) \<noteq> 255" by (simp add: index_ok_def room_def)
  then show "rb_count (program_ring s) \<noteq> 255" by (simp add: rb_count_def)
qed

text \<open>The slot a pending read will read is not the one the producer writes.\<close>

lemma pending_read_apart:
  assumes "index_ok s" "room s" "c_load s = Some i"
  shows "unat i \<noteq> unat (w_head s)"
proof
  assume "unat i = unat (w_head s)"
  then have "Suc (unat (w_head s)) mod 256 = unat (w_tail s)"
    using assms(1,3) by (auto simp: index_ok_def next_index_eq)
  then have "dist (w_tail s) (w_head s) = 255" using gap_full_iff index_bounds [OF assms(1)] by blast
  with room_program [OF assms(1,2)] show False by simp
qed

subsection \<open>The producer\<close>

lemma next_index_bound [simp]: "unat (next_index i) < 256"
  by (simp add: next_index_eq)

lemma put_keeps:
  assumes inv: "weak_inv s" and exec: "put_exec c s = Some t"
  shows "weak_inv t"
proof -
  have i: "index_ok s" and f: "w_accepted s = w_got s @ load_bytes s @ rb_list (program_ring s)"
    and p: "weak_prod_ok s (w_prod s)" and q: "weak_cons_ok s (w_cons s)"
    using inv by (simp_all add: weak_inv_def)
  note b = index_bounds [OF i]
  show ?thesis
  proof (cases "w_prod s")
    case WP_Idle
    with exec have t: "t = s\<lparr>w_prod := WP_Test c (next_index (w_head s))\<rparr>" by (simp add: put_exec_def)
    from i f p q WP_Idle show ?thesis
      by (auto simp: weak_inv_def t)
  next
    case (WP_Test d n)
    with exec have t: "t = s\<lparr>w_prod := if n = rb_tail (w_ring s) then WP_Idle else WP_Store d n\<rparr>"
      by (simp add: put_exec_def)
    have "room s" if "n \<noteq> rb_tail (w_ring s)"
      using that p WP_Test gap_full_iff [OF b(4) b(1)] by (auto simp: room_def word_unat_eq_iff next_index_eq)
    with i f p q WP_Test show ?thesis
      by (auto simp: weak_inv_def t)
  next
    case (WP_Store d n)
    with exec have t: "t = s\<lparr>p_data := Some (w_head s, d), w_prod := WP_Barrier d n\<rparr>" by (simp add: put_exec_def)
    from i f p q WP_Store show ?thesis
      by (auto simp: weak_inv_def t)
  next
    case (WP_Barrier d n)
    with exec have t: "t = s\<lparr>w_prod := WP_Publish d n\<rparr>" and none: "p_data s = None" "p_head s = None"
      by (auto simp: put_exec_def split: if_splits)
    from i f p q WP_Barrier none show ?thesis
      by (auto simp: weak_inv_def t)
  next
    case (WP_Publish d n)
    with p have n: "n = next_index (w_head s)" and room: "room s" and none: "p_data s = None" "p_head s = None"
      and byte: "rb_data (w_ring s) ! unat (w_head s) = d" by auto
    have t: "t = s\<lparr>p_head := Some n, w_head := n, w_accepted := w_accepted s @ [d], w_prod := WP_Idle\<rparr>"
      using exec WP_Publish by (simp add: put_exec_def)
    have pr: "program_ring t = (program_ring s)\<lparr>rb_head := next_index (rb_head (program_ring s))\<rparr>"
      by (simp add: t n program_ring_def)
    have ok: "rb_ok (program_ring s)" using i by (simp add: index_ok_def)
    note publish = rb_publish [OF ok room_program(2) [OF i room] pr]
    have "dist (rb_tail (w_ring s)) n = Suc (dist (rb_tail (w_ring s)) (w_head s))"
      "dist (w_tail s) n = Suc (dist (w_tail s) (w_head s))"
      using room room_program(1) [OF i room] b by (simp_all add: n next_index_eq gap_succ_head room_def)
    with i publish(1) have "index_ok t" by (auto simp: index_ok_def t cong: option.case_cong)
    moreover have "w_accepted t = w_got t @ load_bytes t @ rb_list (program_ring t)"
      unfolding publish(2) using f byte by (simp add: t load_bytes_def cong: option.case_cong)
    ultimately show ?thesis
      using q none by (cases "w_cons s") (auto simp: weak_inv_def t)
  qed
qed

subsection \<open>The consumer\<close>

lemma get_keeps:
  assumes inv: "weak_inv s" and exec: "get_exec s = Some t"
  shows "weak_inv t"
proof -
  have i: "index_ok s" and f: "w_accepted s = w_got s @ load_bytes s @ rb_list (program_ring s)"
    and p: "weak_prod_ok s (w_prod s)" and q: "weak_cons_ok s (w_cons s)"
    using inv by (simp_all add: weak_inv_def)
  note b = index_bounds [OF i]
  show ?thesis
  proof (cases "w_cons s")
    case WC_Idle
    with exec have t: "t = s\<lparr>w_cons := WC_Test (rb_head (w_ring s))\<rparr>" by (simp add: get_exec_def)
    from i f p b show ?thesis
      by (auto simp: weak_inv_def t)
  next
    case (WC_Test h)
    with exec have t: "t = s\<lparr>w_cons := if h = w_tail s then WC_Idle else WC_Barrier\<rparr>" by (simp add: get_exec_def)
    have "rb_head (w_ring s) \<noteq> w_tail s" if "h \<noteq> w_tail s"
      using that q WC_Test gap_0_iff [OF b(2), of "unat h"] gap_0_iff [OF b(2,3)] by (auto simp: word_unat_eq_iff)
    with i f p show ?thesis
      by (auto simp: weak_inv_def t)
  next
    case WC_Barrier
    with exec have t: "t = s\<lparr>w_cons := WC_Take\<rparr>" and none: "c_load s = None" "c_tail s = None"
      by (auto simp: get_exec_def split: if_splits)
    from i f p q WC_Barrier none show ?thesis
      by (auto simp: weak_inv_def t)
  next
    case WC_Take
    with q have some: "rb_head (w_ring s) \<noteq> w_tail s" and none: "c_load s = None" "c_tail s = None" by auto
    let ?n = "next_index (w_tail s)"
    have t: "t = s\<lparr>c_load := Some (w_tail s), c_tail := Some ?n, w_tail := ?n, w_cons := WC_Idle\<rparr>"
      using exec WC_Take by (simp add: get_exec_def Let_def)
    have pr: "program_ring t = (program_ring s)\<lparr>rb_tail := next_index (rb_tail (program_ring s))\<rparr>"
      by (simp add: t program_ring_def)
    have ok: "rb_ok (program_ring s)" using i by (simp add: index_ok_def)
    have near: "dist (w_tail s) (rb_head (w_ring s)) = Suc (dist ?n (rb_head (w_ring s)))"
      using some b by (simp add: next_index_eq gap_succ_tail word_unat_eq_iff)
    then have "dist (w_tail s) (w_head s) \<noteq> 0" using i by (auto simp: index_ok_def)
    then have list: "rb_list (program_ring s) \<noteq> []" and
      far: "dist (w_tail s) (w_head s) = Suc (dist ?n (w_head s))"
      using b gap_0_iff [OF b(2,1)] by (auto simp: rb_count_def next_index_eq gap_succ_tail simp flip: length_0_conv)
    note pop = rb_pop [OF ok list pr]
    have "index_ok t"
      using i near far pop(1) b none by (auto simp: index_ok_def t cong: option.case_cong)
    moreover have "w_accepted t = w_got t @ load_bytes t @ rb_list (program_ring t)"
      using f pop(2) none by (simp add: t load_bytes_def cong: option.case_cong)
    ultimately show ?thesis
      using p by (cases "w_prod s") (auto simp: weak_inv_def t room_def cong: option.case_cong)
  qed
qed

subsection \<open>What is pending takes effect\<close>

lemma data_lands_keeps:
  assumes inv: "weak_inv s" and exec: "weak_exec Data_Lands s = Some t"
  shows "weak_inv t"
proof -
  obtain d n where pc: "w_prod s = WP_Barrier d n" and w: "p_data s = Some (w_head s, d)"
    using assms by (cases "w_prod s") (auto simp: weak_inv_def weak_exec_def split: option.splits cong: option.case_cong)
  have i: "index_ok s" and f: "w_accepted s = w_got s @ load_bytes s @ rb_list (program_ring s)"
    and p: "n = next_index (w_head s)" "room s" and q: "weak_cons_ok s (w_cons s)"
    using inv pc by (simp_all add: weak_inv_def)
  note b = index_bounds [OF i]
  have t: "t = s\<lparr>w_ring := (w_ring s)\<lparr>rb_data := (rb_data (w_ring s))[unat (w_head s) := d]\<rparr>, p_data := None\<rparr>"
    using exec w by (simp add: weak_exec_def Let_def)
  have "program_ring t = (program_ring s)\<lparr>rb_data := (rb_data (program_ring s))[unat (rb_head (program_ring s)) := d]\<rparr>"
    by (simp add: t program_ring_def)
  from rb_store [OF _ this] i have st: "rb_ok (program_ring t)" "rb_list (program_ring t) = rb_list (program_ring s)"
    by (simp_all add: index_ok_def)
  moreover have "rb_ok (w_ring t)" using i by (simp add: t index_ok_def rb_ok_def)
  ultimately have "index_ok t" using i by (simp add: index_ok_def t cong: option.case_cong)
  moreover have "load_bytes t = load_bytes s"
    using pending_read_apart [OF i p(2)] by (auto simp: load_bytes_def t split: option.split)
  ultimately show ?thesis
    using f q p b pc st(2) by (cases "w_cons s") (auto simp: weak_inv_def t room_def)
qed

lemma head_lands_keeps:
  assumes inv: "weak_inv s" and exec: "weak_exec Head_Lands s = Some t"
  shows "weak_inv t"
proof -
  have i: "index_ok s" using inv by (simp add: weak_inv_def)
  obtain n where n: "p_head s = Some n" using exec by (auto simp: weak_exec_def)
  have n': "n = w_head s" using i n by (simp add: index_ok_def)
  have t: "t = s\<lparr>w_ring := (w_ring s)\<lparr>rb_head := w_head s\<rparr>, p_head := None\<rparr>"
    using exec n n' by (simp add: weak_exec_def Let_def)
  have pr: "program_ring t = program_ring s" by (simp add: t program_ring_def)
  have near: "dist (w_tail s) (rb_head (w_ring s)) \<le> dist (w_tail s) (w_head s)" using i by (simp add: index_ok_def)
  have ok: "index_ok t" using i pr by (simp add: index_ok_def t rb_ok_def cong: option.case_cong)
  note b = index_bounds [OF i]
  have "w_head s \<noteq> w_tail s" if "rb_head (w_ring s) \<noteq> w_tail s"
    using that near gap_0_iff [OF b(2,1)] gap_0_iff [OF b(2,3)] by (auto simp: word_unat_eq_iff)
  moreover have "weak_prod_ok t (w_prod t)"
    using inv n by (cases "w_prod s") (auto simp: weak_inv_def t room_def split: option.splits cong: option.case_cong)
  ultimately show ?thesis
    using inv ok near by (cases "w_cons s") (auto simp: weak_inv_def t pr [unfolded t] load_bytes_def cong: option.case_cong)
qed

lemma byte_lands_keeps:
  assumes inv: "weak_inv s" and exec: "weak_exec Byte_Lands s = Some t"
  shows "weak_inv t"
proof -
  obtain i where l: "c_load s = Some i" using exec by (auto simp: weak_exec_def)
  have t: "t = s\<lparr>w_got := w_got s @ [rb_data (w_ring s) ! unat i], c_load := None\<rparr>"
    using exec l by (simp add: weak_exec_def Let_def)
  have pr: "program_ring t = program_ring s" by (simp add: t program_ring_def)
  have "index_ok t" using inv by (simp add: weak_inv_def index_ok_def pr) (simp add: t cong: option.case_cong)
  moreover have "weak_prod_ok t (w_prod t)"
    using inv by (cases "w_prod s") (auto simp: weak_inv_def t room_def cong: option.case_cong)
  ultimately show ?thesis
    using inv l by (cases "w_cons s") (auto simp: weak_inv_def pr load_bytes_def, auto simp: t)
qed

lemma tail_lands_keeps:
  assumes inv: "weak_inv s" and exec: "weak_exec Tail_Lands s = Some t"
  shows "weak_inv t"
proof -
  have i: "index_ok s" using inv by (simp add: weak_inv_def)
  obtain n where n: "c_tail s = Some n" using exec by (auto simp: weak_exec_def)
  have n': "n = w_tail s" using i n by (simp add: index_ok_def)
  have t: "t = s\<lparr>w_ring := (w_ring s)\<lparr>rb_tail := w_tail s\<rparr>, c_tail := None\<rparr>"
    using exec n n' by (simp add: weak_exec_def Let_def)
  have pr: "program_ring t = program_ring s" by (simp add: t program_ring_def)
  have ok: "index_ok t" using i pr by (simp add: index_ok_def t rb_ok_def cong: option.case_cong)
  have "room t" if "room s" using room_program(1) [OF i that] by (simp add: room_def t)
  with inv have "weak_prod_ok t (w_prod t)"
    by (cases "w_prod s") (auto simp: weak_inv_def t split: option.splits cong: option.case_cong)
  with inv ok n show ?thesis
    by (cases "w_cons s") (auto simp: weak_inv_def t pr [unfolded t] load_bytes_def cong: option.case_cong)
qed

lemma weak_exec_keeps:
  assumes "weak_inv s" "weak_exec e s = Some t"
  shows "weak_inv t"
proof (cases e)
  case (Put c)
  with assms put_keeps [of s c] show ?thesis by (simp add: weak_exec_def)
next
  case Get
  with assms get_keeps [of s] show ?thesis by (simp add: weak_exec_def)
qed (use assms data_lands_keeps head_lands_keeps byte_lands_keeps tail_lands_keeps in blast)+

lemma weak_reach_inv: "weak_reach rb s \<Longrightarrow> length (rb_data rb) = 256 \<Longrightarrow> weak_inv s"
  by (induction rule: weak_reach.induct) (auto intro: weak_inv_init weak_exec_keeps)

section \<open>Properties\<close>

definition weak_run :: "weak_op list \<Rightarrow> weak \<Rightarrow> weak option" where
  "weak_run es s = fold (\<lambda>e r. Option.bind r (weak_exec e)) es (Some s)"

lemma fold_bind_None: "fold (\<lambda>e r. Option.bind r (weak_exec e)) es None = None"
  by (induction es) simp_all

lemma weak_run_reach:
  "weak_run es s = Some t \<Longrightarrow> weak_reach rb s \<Longrightarrow> weak_reach rb t"
proof (induction es arbitrary: s)
  case Nil
  then show ?case by (simp add: weak_run_def)
next
  case (Cons e es)
  then obtain u where "weak_exec e s = Some u"
    by (cases "weak_exec e s") (auto simp: weak_run_def fold_bind_None)
  with Cons show ?case by (auto simp: weak_run_def intro: weak_reach.step)
qed

text \<open>
  Property C13: the two barriers of the code are enough on Armv8.  In whatever order the pending
  stores and reads of the two cores take effect, the bytes delivered are the first of the bytes
  accepted, in order, none lost or doubled; at most 256 are under way; and when nothing is pending
  the rest is what the ring in memory holds.
\<close>
theorem weak_fifo:
  assumes "weak_reach rb s" and "length (rb_data rb) = 256"
  shows "w_got s = take (length (w_got s)) (w_accepted s) \<and>
    length (w_accepted s) \<le> length (w_got s) + 256 \<and>
    (p_head s = None \<and> c_load s = None \<and> c_tail s = None \<longrightarrow> w_accepted s = w_got s @ rb_list (w_ring s))"
proof -
  have inv: "index_ok s" "w_accepted s = w_got s @ load_bytes s @ rb_list (program_ring s)"
    using weak_reach_inv [OF assms] by (simp_all add: weak_inv_def)
  have "rb_count (program_ring s) < 256" using inv(1) by (simp add: index_ok_def rb_count_bound)
  moreover have "length (load_bytes s) \<le> 1" by (simp add: load_bytes_def split: option.split)
  moreover have "program_ring s = w_ring s" if "p_head s = None" "c_tail s = None"
    using that inv(1) by (simp add: index_ok_def program_ring_def)
  moreover have "load_bytes s = []" if "c_load s = None" using that by (simp add: load_bytes_def)
  ultimately show ?thesis using inv(2) by auto
qed

text \<open>
  The consumer's tail moves in memory before its byte has been read, and the producer already
  stores its next byte.
\<close>

definition early_free :: "weak_op list" where
  "early_free = [Put 65, Put 65, Put 65, Data_Lands, Put 65, Put 65, Head_Lands, Get, Get, Get, Get, Tail_Lands,
     Put 66, Put 66, Put 66, Data_Lands, Byte_Lands]"

definition empty_ring :: ring_buffer where
  "empty_ring = \<lparr>rb_head = 0, rb_tail = 0, rb_data = replicate 256 0\<rparr>"

lemma weak_fifo_witness:
  "\<exists>s. weak_run early_free (weak_init empty_ring) = Some s \<and> w_got s = [65] \<and> w_accepted s = [65] \<and>
     w_prod s = WP_Barrier 66 2 \<and> length (w_accepted s) \<le> length (w_got s) + 256"
proof -
  obtain s where s: "weak_run early_free (weak_init empty_ring) = Some s"
    "w_got s = [65]" "w_accepted s = [65]" "w_prod s = WP_Barrier 66 2"
    by (simp add: weak_run_def early_free_def weak_init_def empty_ring_def ring_buffer_init_def weak_exec_def put_exec_def
        get_exec_def next_index_def RING_BUFFER_SIZE_def Let_def)
  have "weak_reach empty_ring s" by (rule weak_run_reach [OF s(1) weak_reach.start])
  from weak_fifo [OF this] s show ?thesis by (simp add: empty_ring_def)
qed

end
