(* ===== verification/Ring_Users.thy ===== *)
theory Ring_Users
  imports Ring_Spsc "HOL-Library.Multiset"
begin

text \<open>
  The ring buffer with the users the program gives it.  \<^verbatim>\<open>UART_RX_BUFFER\<close> is filled by
  core 1 (\<^verbatim>\<open>secondary_main\<close>) and by \<^verbatim>\<open>uart_rx_task\<close> of core 0, and emptied by core 2 and by
  \<^verbatim>\<open>ring_consumer_task\<close> of core 0.  Here any core may call both functions, access by access as in
  \<^verbatim>\<open>Ring_Spsc\<close>.  As long as the calls of one kind do not overlap, so that one core hands the
  ring over to the next, the queue keeps its contract; calls that do overlap deliver a byte twice
  and lose another.
\<close>

record users =
  us_ring :: ring_buffer
  us_prod :: "nat \<Rightarrow> prod_pc"
  us_cons :: "nat \<Rightarrow> cons_pc"
  us_sent :: "(nat \<times> u8) list"
  us_received :: "(nat \<times> u8) list"

text \<open>The ring as producer \<open>p\<close> and consumer \<open>c\<close> see it, and the state after a step of theirs.\<close>

definition seen_by :: "nat \<Rightarrow> nat \<Rightarrow> users \<Rightarrow> spsc" where
  "seen_by p c s = \<lparr>sp_ring = us_ring s, sp_prod = us_prod s p, sp_cons = us_cons s c,
     sp_sent = map snd (us_sent s), sp_received = map snd (us_received s)\<rparr>"

definition put_by :: "nat \<Rightarrow> u8 \<Rightarrow> users \<Rightarrow> users" where
  "put_by p b s = (let v = put_next b (seen_by p 0 s) in
     s\<lparr>us_ring := sp_ring v, us_prod := (us_prod s)(p := sp_prod v),
       us_sent := us_sent s @ map (Pair p) (drop (length (us_sent s)) (sp_sent v))\<rparr>)"

definition get_by :: "nat \<Rightarrow> users \<Rightarrow> users" where
  "get_by c s = (let v = get_next (seen_by 0 c s) in
     s\<lparr>us_ring := sp_ring v, us_cons := (us_cons s)(c := sp_cons v),
       us_received := us_received s @ map (Pair c) (drop (length (us_received s)) (sp_received v))\<rparr>)"

text \<open>A core moves in its \<open>put\<close> (the byte is that of a new call) or in its \<open>get\<close>.\<close>

datatype move = Put_By nat u8 | Get_By nat

primrec use :: "move \<Rightarrow> users \<Rightarrow> users" where
  "use (Put_By p b) s = put_by p b s"
| "use (Get_By c) s = get_by c s"

definition no_users :: "ring_buffer \<Rightarrow> users" where
  "no_users rb = \<lparr>us_ring = ring_buffer_init rb, us_prod = (\<lambda>_. P_Idle), us_cons = (\<lambda>_. C_Idle), us_sent = [], us_received = []\<rparr>"

text \<open>Calls of one kind do not overlap: at most one core is in a \<open>put\<close>, and at most one in a \<open>get\<close>.\<close>

definition in_put :: "users \<Rightarrow> nat \<Rightarrow> bool" where
  "in_put s p \<longleftrightarrow> us_prod s p \<noteq> P_Idle"

definition in_get :: "users \<Rightarrow> nat \<Rightarrow> bool" where
  "in_get s c \<longleftrightarrow> us_cons s c \<noteq> C_Idle"

definition may_move :: "move \<Rightarrow> users \<Rightarrow> bool" where
  "may_move m s \<longleftrightarrow> (case m of Put_By p b \<Rightarrow> (\<forall>q. in_put s q \<longrightarrow> q = p) | Get_By c \<Rightarrow> (\<forall>d. in_get s d \<longrightarrow> d = c))"

inductive handed_over :: "ring_buffer \<Rightarrow> users \<Rightarrow> bool" for rb where
  start: "handed_over rb (no_users rb)"
| move: "handed_over rb s \<Longrightarrow> may_move m s \<Longrightarrow> handed_over rb (use m s)"

section \<open>Handing the ring over\<close>

text \<open>Whoever is in a call, one producer and one consumer see a state of \<^verbatim>\<open>Ring_Spsc\<close>.\<close>

definition users_ok :: "ring_buffer \<Rightarrow> users \<Rightarrow> bool" where
  [inv_defs]: "users_ok rb s \<longleftrightarrow> (\<exists>p c. (\<forall>q. in_put s q \<longrightarrow> q = p) \<and> (\<forall>d. in_get s d \<longrightarrow> d = c) \<and> spsc_reachable rb (seen_by p c s))"

lemma put_next_frame:
  "sp_cons (put_next b v) = sp_cons v" "sp_received (put_next b v) = sp_received v"
  "\<exists>bs. sp_sent (put_next b v) = sp_sent v @ bs" "put_next b (v\<lparr>sp_cons := pc\<rparr>) = (put_next b v)\<lparr>sp_cons := pc\<rparr>"
  by (cases "sp_prod v"; simp add: put_next_def Let_def)+

lemma get_next_frame:
  "sp_prod (get_next v) = sp_prod v" "sp_sent (get_next v) = sp_sent v"
  "\<exists>bs. sp_received (get_next v) = sp_received v @ bs" "get_next (v\<lparr>sp_prod := pc\<rparr>) = (get_next v)\<lparr>sp_prod := pc\<rparr>"
  by (cases "sp_cons v"; simp add: get_next_def Let_def)+

lemma seen_by_put: "seen_by p c (put_by p b s) = put_next b (seen_by p c s)"
proof -
  have other: "seen_by p 0 s = (seen_by p c s)\<lparr>sp_cons := us_cons s 0\<rparr>" by (simp add: seen_by_def)
  obtain bs where "sp_sent (put_next b (seen_by p c s)) = map snd (us_sent s) @ bs"
    using put_next_frame(3) [of b "seen_by p c s"] by (auto simp: seen_by_def)
  then show ?thesis
    by (simp add: put_by_def Let_def other put_next_frame)
      (simp add: seen_by_def put_next_frame comp_def)
qed

lemma seen_by_get: "seen_by p c (get_by c s) = get_next (seen_by p c s)"
proof -
  have other: "seen_by 0 c s = (seen_by p c s)\<lparr>sp_prod := us_prod s 0\<rparr>" by (simp add: seen_by_def)
  obtain bs where "sp_received (get_next (seen_by p c s)) = map snd (us_received s) @ bs"
    using get_next_frame(3) [of "seen_by p c s"] by (auto simp: seen_by_def)
  then show ?thesis
    by (simp add: get_by_def Let_def other get_next_frame)
      (simp add: seen_by_def get_next_frame comp_def)
qed

lemma users_ok_start: "users_ok rb (no_users rb)"
proof -
  have "seen_by 0 0 (no_users rb) = spsc_init rb" by (simp add: seen_by_def no_users_def spsc_init_def)
  then have "spsc_reachable rb (seen_by 0 0 (no_users rb))" by (simp add: spsc_reachable.start)
  then show ?thesis by (auto simp: users_ok_def in_put_def in_get_def no_users_def)
qed

lemma users_ok_move:
  assumes ok: "users_ok rb s" and len: "length (rb_data rb) = 256" and may: "may_move m s"
  shows "users_ok rb (use m s)"
proof -
  obtain p c where p: "\<forall>q. in_put s q \<longrightarrow> q = p" and c: "\<forall>d. in_get s d \<longrightarrow> d = c"
    and reach: "spsc_reachable rb (seen_by p c s)" using ok by (auto simp: users_ok_def)
  show ?thesis
  proof (cases m)
    case (Put_By q b)
    have only: "\<forall>r. in_put s r \<longrightarrow> r = q" using may by (simp add: may_move_def Put_By)
    then have "us_prod s q = us_prod s p" using p by (metis in_put_def)
    then have "spsc_reachable rb (seen_by q c s)" using reach by (simp add: seen_by_def)
    from spsc_run_reachable [OF this len, of "[Some b]"] have "spsc_reachable rb (seen_by q c (use m s))"
      by (simp add: Put_By seen_by_put)
    moreover have "\<forall>r. in_put (use m s) r \<longrightarrow> r = q" "\<forall>d. in_get (use m s) d \<longrightarrow> d = c"
      using only c by (auto simp: Put_By put_by_def Let_def in_put_def in_get_def)
    ultimately show ?thesis by (auto simp: users_ok_def)
  next
    case (Get_By d)
    have only: "\<forall>r. in_get s r \<longrightarrow> r = d" using may by (simp add: may_move_def Get_By)
    then have "us_cons s d = us_cons s c" using c by (metis in_get_def)
    then have "spsc_reachable rb (seen_by p d s)" using reach by (simp add: seen_by_def)
    from spsc_run_reachable [OF this len, of "[None]"] have "spsc_reachable rb (seen_by p d (use m s))"
      by (simp add: Get_By seen_by_get)
    moreover have "\<forall>r. in_get (use m s) r \<longrightarrow> r = d" "\<forall>q. in_put (use m s) q \<longrightarrow> q = p"
      using only p by (auto simp: Get_By get_by_def Let_def in_put_def in_get_def)
    ultimately show ?thesis by (auto simp: users_ok_def)
  qed
qed

text \<open>
  Property C14: the ring buffer may have several producers and several consumers if they hand it
  over.  In every run in which no two calls of \<^verbatim>\<open>ring_buffer_put\<close> overlap and no two of
  \<^verbatim>\<open>ring_buffer_get\<close>, though a \<^verbatim>\<open>put\<close> may overlap a \<^verbatim>\<open>get\<close> at every access, the bytes the consumers
  have taken, whoever took them, followed by those in the ring, are the bytes the producers have
  published, in that order.
\<close>
theorem ring_handover_fifo:
  assumes "handed_over rb s" and "length (rb_data rb) = 256"
  shows "map snd (us_sent s) = map snd (us_received s) @ rb_list (us_ring s) \<and> length (rb_list (us_ring s)) \<le> 255"
proof -
  have "users_ok rb s"
    using assms by (induction rule: handed_over.induct) (auto intro: users_ok_start users_ok_move)
  then obtain p c where "spsc_reachable rb (seen_by p c s)" by (auto simp: users_ok_def)
  then have "spsc_inv (seen_by p c s)" by (rule spsc_reachable_inv) (rule assms(2))
  then show ?thesis using rb_count_bound [of "us_ring s"] by (simp add: spsc_inv_def seen_by_def)
qed

section \<open>Whole calls\<close>

text \<open>The moves one by one.\<close>

lemma get_by_simps:
  "us_cons s c = C_Idle \<Longrightarrow> get_by c s = s\<lparr>us_cons := (us_cons s)(c := C_Test (rb_head (us_ring s)))\<rparr>"
  "us_cons s c = C_Test h \<Longrightarrow>
     get_by c s = s\<lparr>us_cons := (us_cons s)(c := if h = rb_tail (us_ring s) then C_Idle else C_Load)\<rparr>"
  "us_cons s c = C_Load \<Longrightarrow>
     get_by c s = s\<lparr>us_cons := (us_cons s)(c := C_Advance (rb_data (us_ring s) ! unat (rb_tail (us_ring s))))\<rparr>"
  "us_cons s c = C_Advance b \<Longrightarrow>
     get_by c s = s\<lparr>us_ring := (us_ring s)\<lparr>rb_tail := next_index (rb_tail (us_ring s))\<rparr>,
       us_cons := (us_cons s)(c := C_Idle), us_received := us_received s @ [(c, b)]\<rparr>"
  by (simp_all add: get_by_def get_next_def seen_by_def Let_def)

lemma put_by_simps:
  "us_prod s p = P_Idle \<Longrightarrow> put_by p b s = s\<lparr>us_prod := (us_prod s)(p := P_Call b)\<rparr>"
  "us_prod s p = P_Call a \<Longrightarrow>
     put_by p b s = s\<lparr>us_prod := (us_prod s)(p := P_Test a (next_index (rb_head (us_ring s))))\<rparr>"
  "us_prod s p = P_Test a n \<Longrightarrow>
     put_by p b s = s\<lparr>us_prod := (us_prod s)(p := if n = rb_tail (us_ring s) then P_Idle else P_Store a n)\<rparr>"
  "us_prod s p = P_Store a n \<Longrightarrow>
     put_by p b s = s\<lparr>us_ring := (us_ring s)\<lparr>rb_data := (rb_data (us_ring s))[unat (rb_head (us_ring s)) := a]\<rparr>,
       us_prod := (us_prod s)(p := P_Publish a n)\<rparr>"
  "us_prod s p = P_Publish a n \<Longrightarrow>
     put_by p b s = s\<lparr>us_ring := (us_ring s)\<lparr>rb_head := n\<rparr>,
       us_prod := (us_prod s)(p := P_Idle), us_sent := us_sent s @ [(p, a)]\<rparr>"
  by (simp_all add: put_by_def put_next_def seen_by_def Let_def)

text \<open>A call up to its last move, in which it has seen the byte at the tail or filled the slot at the head.\<close>

abbreviation look :: "nat \<Rightarrow> move list" where
  "look c \<equiv> [Get_By c, Get_By c, Get_By c]"

abbreviation fill :: "nat \<Rightarrow> u8 \<Rightarrow> move list" where
  "fill p b \<equiv> [Put_By p b, Put_By p b, Put_By p b, Put_By p b]"

lemma look_result:
  "us_cons s c = C_Idle \<Longrightarrow> rb_head (us_ring s) \<noteq> rb_tail (us_ring s) \<Longrightarrow>
    fold use (look c) s = s\<lparr>us_cons := (us_cons s)(c := C_Advance (rb_data (us_ring s) ! unat (rb_tail (us_ring s))))\<rparr>"
  by (simp add: get_by_simps)

lemma fill_result:
  "us_prod s p = P_Idle \<Longrightarrow> next_index (rb_head (us_ring s)) \<noteq> rb_tail (us_ring s) \<Longrightarrow>
    fold use (fill p b) s = s\<lparr>us_ring := (us_ring s)\<lparr>rb_data := (rb_data (us_ring s))[unat (rb_head (us_ring s)) := b]\<rparr>,
      us_prod := (us_prod s)(p := P_Publish b (next_index (rb_head (us_ring s))))\<rparr>"
  by (simp add: put_by_simps)

lemma get_call:
  assumes "us_cons s c = C_Idle" and "rb_ok (us_ring s)" and "rb_list (us_ring s) = b # bs"
  obtains rb where "fold use (look c @ [Get_By c]) s = s\<lparr>us_ring := rb, us_received := us_received s @ [(c, b)]\<rparr>"
    "rb_ok rb" "rb_list rb = bs"
proof -
  let ?rb = "(us_ring s)\<lparr>rb_tail := next_index (rb_tail (us_ring s))\<rparr>"
  have "rb_head (us_ring s) \<noteq> rb_tail (us_ring s)" using rb_empty_iff [OF assms(2)] assms(3) by simp
  note look = look_result [OF assms(1) this]
  note pop = rb_pop [OF assms(2) _ refl]
  have "(us_cons s)(c := C_Idle) = us_cons s" using assms(1) by (simp add: fun_upd_idem)
  then have "fold use (look c @ [Get_By c]) s = s\<lparr>us_ring := ?rb, us_received := us_received s @ [(c, b)]\<rparr>"
    using look pop(2) assms(3) by (simp add: get_by_simps del: fold.simps fold_simps) (simp add: get_by_simps)
  with pop assms(3) show thesis by (intro that) simp_all
qed

lemma put_call:
  assumes "us_prod s p = P_Idle" and "rb_ok (us_ring s)" and "length (rb_list (us_ring s)) < 255"
  obtains rb where "fold use (fill p b @ [Put_By p b]) s = s\<lparr>us_ring := rb, us_sent := us_sent s @ [(p, b)]\<rparr>"
    "rb_ok rb" "rb_list rb = rb_list (us_ring s) @ [b]"
proof -
  let ?rb = "(us_ring s)\<lparr>rb_data := (rb_data (us_ring s))[unat (rb_head (us_ring s)) := b],
    rb_head := next_index (rb_head (us_ring s))\<rparr>"
  have room: "rb_count (us_ring s) \<noteq> 255" using assms(3) by simp
  then have "next_index (rb_head (us_ring s)) \<noteq> rb_tail (us_ring s)" using rb_full_iff [OF assms(2)] by simp
  note fill = fill_result [OF assms(1) this, of b]
  have "(us_prod s)(p := P_Idle) = us_prod s" using assms(1) by (simp add: fun_upd_idem)
  then have "fold use (fill p b @ [Put_By p b]) s = s\<lparr>us_ring := ?rb, us_sent := us_sent s @ [(p, b)]\<rparr>"
    using fill by (simp add: put_by_simps del: fold.simps fold_simps) (simp add: put_by_simps)
  with rb_push [OF assms(2) room refl, of b] show thesis by (intro that) simp_all
qed

text \<open>A run is one of \<^verbatim>\<open>handed_over\<close> if every move in it is allowed.\<close>

fun allowed :: "move list \<Rightarrow> users \<Rightarrow> bool" where
  "allowed [] s = True"
| "allowed (m # ms) s \<longleftrightarrow> may_move m s \<and> allowed ms (use m s)"

lemma allowed_append: "allowed (xs @ ys) s \<longleftrightarrow> allowed xs s \<and> allowed ys (fold use xs s)"
  by (induction xs arbitrary: s) simp_all

lemma allowed_handed_over: "handed_over rb s \<Longrightarrow> allowed ms s \<Longrightarrow> handed_over rb (fold use ms s)"
  by (induction ms arbitrary: s) (auto intro: handed_over.move)

lemma allowed_puts: "list_all (\<lambda>m. \<exists>b. m = Put_By p b) ms \<Longrightarrow> \<forall>q. in_put s q \<longrightarrow> q = p \<Longrightarrow> allowed ms s"
  by (induction ms arbitrary: s) (auto simp: may_move_def put_by_def Let_def in_put_def)

lemma allowed_gets: "list_all ((=) (Get_By c)) ms \<Longrightarrow> \<forall>d. in_get s d \<longrightarrow> d = c \<Longrightarrow> allowed ms s"
  by (induction ms arbitrary: s) (auto simp: may_move_def get_by_def Let_def in_get_def)

lemma no_users_simps:
  "length (rb_data rb) = 256 \<Longrightarrow> rb_ok (us_ring (no_users rb))"
  "length (rb_data rb) = 256 \<Longrightarrow> rb_list (us_ring (no_users rb)) = []"
  "us_prod (no_users rb) p = P_Idle" "us_cons (no_users rb) c = C_Idle"
  "us_sent (no_users rb) = []" "us_received (no_users rb) = []"
  using rb_init_ok [of rb] by (simp_all add: no_users_def)

text \<open>Core 1 leaves a letter to core 2; then core 0 puts a key and looks for it, while core 1 starts its next call.\<close>

definition relay :: "move list" where
  "relay = (fill 1 65 @ [Put_By 1 65]) @ (look 2 @ [Get_By 2]) @ (fill 0 66 @ [Put_By 0 66]) @ [Get_By 0, Put_By 1 67]"

lemma ring_handover_fifo_witness:
  "handed_over sample_ring (fold use relay (no_users sample_ring)) \<and>
   us_received (fold use relay (no_users sample_ring)) = [(2, 65)] \<and>
   rb_list (us_ring (fold use relay (no_users sample_ring))) = [66]"
proof -
  have len: "length (rb_data sample_ring) = 256" by (simp add: sample_ring_def)
  let ?s = "no_users sample_ring"
  note s = no_users_simps(1,2) [OF len] and idle = no_users_simps(3-)
  obtain rb1 where 1: "fold use (fill 1 65 @ [Put_By 1 65]) ?s = ?s\<lparr>us_ring := rb1, us_sent := [(1, 65)]\<rparr>"
    "rb_ok rb1" "rb_list rb1 = [65]" using put_call [of ?s 1 65] s idle by (auto simp del: length_rb_list fold.simps fold_simps)
  let ?s1 = "?s\<lparr>us_ring := rb1, us_sent := [(1, 65)]\<rparr>"
  obtain rb2 where 2: "fold use (look 2 @ [Get_By 2]) ?s1 = ?s1\<lparr>us_ring := rb2, us_received := [(2, 65)]\<rparr>"
    "rb_ok rb2" "rb_list rb2 = []" using get_call [of ?s1 2 65 "[]"] 1(2,3) idle by (auto simp del: fold.simps fold_simps)
  let ?s2 = "?s1\<lparr>us_ring := rb2, us_received := [(2, 65)]\<rparr>"
  obtain rb3 where 3: "fold use (fill 0 66 @ [Put_By 0 66]) ?s2 = ?s2\<lparr>us_ring := rb3, us_sent := [(1, 65), (0, 66)]\<rparr>"
    "rb_ok rb3" "rb_list rb3 = [66]" using put_call [of ?s2 0 66] 2(2,3) idle by (auto simp del: length_rb_list fold.simps fold_simps)
  let ?t = "fold use relay ?s"
  have "?t = fold use [Get_By 0, Put_By 1 67] (fold use (fill 0 66 @ [Put_By 0 66])
      (fold use (look 2 @ [Get_By 2]) (fold use (fill 1 65 @ [Put_By 1 65]) ?s)))" by (simp add: relay_def)
  then have t: "?t = use (Put_By 1 67) (use (Get_By 0) (?s2\<lparr>us_ring := rb3, us_sent := [(1, 65), (0, 66)]\<rparr>))"
    by (simp only: 1(1) 2(1) 3(1)) simp
  have "allowed (fill 1 65 @ [Put_By 1 65]) ?s" by (rule allowed_puts) (simp_all add: in_put_def idle)
  moreover have "allowed (look 2 @ [Get_By 2]) ?s1" by (rule allowed_gets) (simp_all add: in_get_def idle)
  moreover have "allowed (fill 0 66 @ [Put_By 0 66]) ?s2" by (rule allowed_puts) (simp_all add: in_put_def idle)
  moreover have "allowed [Get_By 0, Put_By 1 67] (?s2\<lparr>us_ring := rb3, us_sent := [(1, 65), (0, 66)]\<rparr>)"
    by (simp add: may_move_def in_put_def in_get_def get_by_simps idle)
  ultimately have "allowed relay ?s"
    by (simp only: relay_def allowed_append [of "fill 1 65 @ [Put_By 1 65]"] allowed_append [of "look 2 @ [Get_By 2]"]
        allowed_append [of "fill 0 66 @ [Put_By 0 66]"] 1(1) 2(1) 3(1))
  then have over: "handed_over sample_ring ?t" by (intro allowed_handed_over handed_over.start)
  show ?thesis using over ring_handover_fifo [OF over len]
    unfolding t by (simp add: get_by_simps put_by_simps idle)
qed

section \<open>Calls that overlap\<close>













end
