(* ===== verification/Shared_Memory.thy ===== *)
theory Shared_Memory
  imports Mailbox Memory
begin

text \<open>
  The shared page as bytes.  \<open>System_State\<close> keeps the shared memory as a record of objects; the C
  code has struct pointers to fixed addresses.  Here the operations of \<^verbatim>\<open>ipc.c\<close>, \<^verbatim>\<open>ringbuf.c\<close> and
  \<^verbatim>\<open>hmac_sha256.c\<close> are again loads and stores, in the code's order, at the addresses the macros and
  the struct layouts give, on byte memory.  They refine the operations on the record, so
  no store hits another object; and they show what happens for a core number out of range.
\<close>

section \<open>Objects\<close>

text \<open>The structs with the offsets the layout rules give their fields.\<close>

definition mailbox_of :: "u8 list \<Rightarrow> mailbox" where
  "mailbox_of bs = (let field = \<lambda>k. from_le32 (take 4 (drop k bs)) in
     \<lparr>mb_lock = field 0, mb_msg_type = field 4, mb_msg_data = field 8, mb_sender_id = field 12,
      mb_status = field 16, mb_counter = field 20, mb_tag = take 32 (drop 24 bs)\<rparr>)"

definition ring_of :: "u8 list \<Rightarrow> ring_buffer" where
  "ring_of bs = \<lparr>rb_head = from_le32 (take 4 bs), rb_tail = from_le32 (take 4 (drop 4 bs)), rb_data = drop 8 bs\<rparr>"

lemma ring_of_update:
  assumes "length bs = 264"
  shows "ring_of (take 0 bs @ to_le32 v @ drop (0 + 4) bs) = (ring_of bs)\<lparr>rb_head := v\<rparr>"
    "ring_of (take 4 bs @ to_le32 v @ drop (4 + 4) bs) = (ring_of bs)\<lparr>rb_tail := v\<rparr>"
    "i < 256 \<Longrightarrow> ring_of (take (8 + i) bs @ [c] @ drop (8 + i + 1) bs) =
       (ring_of bs)\<lparr>rb_data := (rb_data (ring_of bs))[i := c]\<rparr>"
  using assms by (simp_all add: ring_of_def min_def drop_take upd_conv_take_nth_drop)

lemma mailbox_of_update:
  assumes "length bs = 56"
  shows "mailbox_of (take 0 bs @ to_le32 v @ drop (0 + 4) bs) = (mailbox_of bs)\<lparr>mb_lock := v\<rparr>"
    "mailbox_of (take 4 bs @ to_le32 v @ drop (4 + 4) bs) = (mailbox_of bs)\<lparr>mb_msg_type := v\<rparr>"
    "mailbox_of (take 8 bs @ to_le32 v @ drop (8 + 4) bs) = (mailbox_of bs)\<lparr>mb_msg_data := v\<rparr>"
    "mailbox_of (take 12 bs @ to_le32 v @ drop (12 + 4) bs) = (mailbox_of bs)\<lparr>mb_sender_id := v\<rparr>"
    "mailbox_of (take 16 bs @ to_le32 v @ drop (16 + 4) bs) = (mailbox_of bs)\<lparr>mb_status := v\<rparr>"
    "mailbox_of (take 20 bs @ to_le32 v @ drop (20 + 4) bs) = (mailbox_of bs)\<lparr>mb_counter := v\<rparr>"
    "length tag = 32 \<Longrightarrow> mailbox_of (take 24 bs @ tag @ drop (24 + 32) bs) = (mailbox_of bs)\<lparr>mb_tag := tag\<rparr>"
  using assms by (simp_all add: mailbox_of_def Let_def drop_take)

text \<open>What a core addresses: the bytes, and the text sent to the console.\<close>

record board =
  ram :: memory
  tty :: string

definition put_text :: "string \<Rightarrow> board \<Rightarrow> board" where
  "put_text t b = b\<lparr>tty := tty b @ t\<rparr>"

definition system_of :: "board \<Rightarrow> system" where
  "system_of b =
     \<lparr>sys_lock = load32 SPINLOCK_ADDR (ram b),
      sys_mailboxes = map (\<lambda>c. mailbox_of (bytes_at (GET_MAILBOX c) sizeof_mailbox (ram b))) [0, 1, 2, 3],
      sys_ring = ring_of (bytes_at RING_BUFFER_BASE sizeof_ring_buffer (ram b)),
      sys_key = bytes_at HMAC_KEY_ADDR HMAC_KEY_SIZE (ram b),
      sys_console = tty b\<rparr>"

definition poke :: "u64 \<Rightarrow> u8 list \<Rightarrow> board \<Rightarrow> board" where
  "poke a bs b = b\<lparr>ram := store_bytes a bs (ram b)\<rparr>"

text \<open>The objects are beside each other.\<close>

lemma GET_MAILBOX_core:
  assumes "core_ok c"
  shows "unat (GET_MAILBOX c) = 0x40220100 + 56 * nat c" "nat c < 4" "0 \<le> c"
proof -
  have "c = 0 \<or> c = 1 \<or> c = 2 \<or> c = 3" using assms by (auto simp: core_ok_def)
  then show "unat (GET_MAILBOX c) = 0x40220100 + 56 * nat c" "nat c < 4" "0 \<le> c"
    by (auto simp: memory_map_defs)
qed

lemma system_of_text [simp]: "system_of (put_text t b) = log_text t (system_of b)"
  by (simp add: system_of_def put_text_def log_text_def)

lemma system_of_ok: "rb_ok (sys_ring (system_of b)) \<Longrightarrow> sys_ok (system_of b)"
  by (auto simp: sys_ok_def system_of_def mailbox_of_def sizeof_mailbox_def HMAC_KEY_SIZE_def Let_def)

lemma beside_shift: "beside a n b k \<Longrightarrow> j + i \<le> n \<Longrightarrow> beside (a + of_nat j) i b k"
proof -
  assume h: "beside a n b k" "j + i \<le> n"
  show ?thesis
  proof (cases "unat a + j < 2 ^ 64")
    case True
    then have "unat (a + of_nat j) = unat a + j" by (rule unat_offset)
    with h show ?thesis by (auto simp: beside_def)
  next
    case False
    with h have "i = 0" "unat a + j = 2 ^ 64" by (auto simp: beside_def)
    with h show ?thesis by (auto simp: beside_def unat_add_of_nat)
  qed
qed

lemma mailboxes_beside:
  assumes "core_ok c" "core_ok d" "c \<noteq> d"
  shows "beside (GET_MAILBOX c) 56 (GET_MAILBOX d) 56"
  using GET_MAILBOX_core [OF assms(1)] GET_MAILBOX_core [OF assms(2)] assms(3)
  by (auto simp: beside_def)

lemma objects_beside:
  assumes "core_ok c"
  shows "beside (GET_MAILBOX c) 56 SPINLOCK_ADDR 4" "beside (GET_MAILBOX c) 56 RING_BUFFER_BASE 264"
    "beside (GET_MAILBOX c) 56 HMAC_KEY_ADDR 32"
    "beside SPINLOCK_ADDR 4 (GET_MAILBOX c) 56" "beside RING_BUFFER_BASE 264 (GET_MAILBOX c) 56"
    "beside HMAC_KEY_ADDR 32 (GET_MAILBOX c) 56"
  using GET_MAILBOX_core [OF assms]
  by (auto simp: beside_def SPINLOCK_ADDR_def RING_BUFFER_BASE_def HMAC_KEY_ADDR_def)

lemma singles_beside:
  "beside SPINLOCK_ADDR 4 RING_BUFFER_BASE 264" "beside SPINLOCK_ADDR 4 HMAC_KEY_ADDR 32"
  "beside RING_BUFFER_BASE 264 SPINLOCK_ADDR 4" "beside RING_BUFFER_BASE 264 HMAC_KEY_ADDR 32"
  "beside HMAC_KEY_ADDR 32 SPINLOCK_ADDR 4" "beside HMAC_KEY_ADDR 32 RING_BUFFER_BASE 264"
  by (simp_all add: beside_def SPINLOCK_ADDR_def RING_BUFFER_BASE_def HMAC_KEY_ADDR_def)

text \<open>A store into an object is an update of its field of the record.\<close>

lemma core_ok_cases: "core_ok c \<Longrightarrow> c = 0 \<or> c = 1 \<or> c = 2 \<or> c = 3"
  by (auto simp: core_ok_def)

lemma mbox_system_of:
  assumes "core_ok c"
  shows "mbox c (system_of b) = mailbox_of (bytes_at (GET_MAILBOX c) 56 (ram b))"
  using core_ok_cases [OF assms] by (auto simp: system_of_def sizeof_mailbox_def)

lemma length_mailboxes [simp]: "length (sys_mailboxes (system_of b)) = 4"
  by (simp add: system_of_def)

lemma system_eqI:
  assumes "sys_lock s = sys_lock t" "sys_ring s = sys_ring t" "sys_key s = sys_key t" "sys_console s = sys_console t"
    and "length (sys_mailboxes s) = 4" "length (sys_mailboxes t) = 4" "\<And>c. core_ok c \<Longrightarrow> mbox c s = mbox c t"
  shows "s = (t :: system)"
proof -
  have "sys_mailboxes s ! i = sys_mailboxes t ! i" if "i < 4" for i
    using assms(7) [of "int i"] that by (simp add: core_ok_def)
  then have "sys_mailboxes s = sys_mailboxes t" using assms(5,6) by (simp add: nth_equalityI)
  with assms(1-4) show ?thesis by (cases s; cases t) simp
qed

lemma poke_beside:
  assumes k: "k + length bs \<le> n"
  shows "beside a n SPINLOCK_ADDR 4 \<Longrightarrow> sys_lock (system_of (poke (a + of_nat k) bs b)) = sys_lock (system_of b)"
    "beside a n RING_BUFFER_BASE 264 \<Longrightarrow> sys_ring (system_of (poke (a + of_nat k) bs b)) = sys_ring (system_of b)"
    "beside a n HMAC_KEY_ADDR 32 \<Longrightarrow> sys_key (system_of (poke (a + of_nat k) bs b)) = sys_key (system_of b)"
    "sys_console (system_of (poke (a + of_nat k) bs b)) = sys_console (system_of b)"
    "beside a n (GET_MAILBOX c) 56 \<Longrightarrow> core_ok c \<Longrightarrow>
       mbox c (system_of (poke (a + of_nat k) bs b)) = mbox c (system_of b)"
  using bytes_at_store_beside [OF beside_shift [OF _ k]]
  by (simp_all add: mbox_system_of)
    (simp_all add: system_of_def poke_def load32_def sizeof_ring_buffer_def HMAC_KEY_SIZE_def)

lemma poke_mailbox:
  assumes c: "core_ok c" and k: "k + length bs \<le> 56"
  shows "system_of (poke (GET_MAILBOX c + of_nat k) bs b) = set_mailbox c (mailbox_of
    (take k (bytes_at (GET_MAILBOX c) 56 (ram b)) @ bs @ drop (k + length bs) (bytes_at (GET_MAILBOX c) 56 (ram b)))) (system_of b)"
  (is "?s = set_mailbox c ?mb (system_of b)")
proof (rule system_eqI)
  fix d assume d: "core_ok d"
  show "mbox d ?s = mbox d (set_mailbox c ?mb (system_of b))"
  proof (cases "d = c")
    case True
    then show ?thesis
      using GET_MAILBOX_core [OF c] bytes_at_store_inside [OF k, of "GET_MAILBOX c"]
      by (simp add: mbox_system_of [OF c] poke_def)
  next
    case False
    then have "mbox d ?s = mbox d (system_of b)"
      using mailboxes_beside [OF c d] d by (intro poke_beside [OF k]) simp_all
    with False show ?thesis
      using GET_MAILBOX_core [OF c] GET_MAILBOX_core [OF d] by (simp add: mbox_set_mailbox_other)
  qed
qed (use objects_beside [OF c] poke_beside [OF k] in simp_all)

lemma poke_ring:
  assumes k: "k + length bs \<le> 264"
  shows "system_of (poke (RING_BUFFER_BASE + of_nat k) bs b) = (system_of b)\<lparr>sys_ring := ring_of
    (take k (bytes_at RING_BUFFER_BASE 264 (ram b)) @ bs @ drop (k + length bs) (bytes_at RING_BUFFER_BASE 264 (ram b)))\<rparr>"
  using bytes_at_store_inside [OF k, of RING_BUFFER_BASE "ram b"] objects_beside singles_beside poke_beside [OF k]
  by (intro system_eqI) (auto, simp add: system_of_def poke_def sizeof_ring_buffer_def)

lemma poke_key:
  assumes k: "k + length bs \<le> 32"
  shows "system_of (poke (HMAC_KEY_ADDR + of_nat k) bs b) = (system_of b)\<lparr>sys_key :=
    take k (sys_key (system_of b)) @ bs @ drop (k + length bs) (sys_key (system_of b))\<rparr>"
  using bytes_at_store_inside [OF k, of HMAC_KEY_ADDR "ram b"] objects_beside singles_beside poke_beside [OF k]
  by (intro system_eqI) (auto, simp add: system_of_def poke_def HMAC_KEY_SIZE_def)

lemma poke_lock: "system_of (poke SPINLOCK_ADDR (to_le32 v) b) = (system_of b)\<lparr>sys_lock := v\<rparr>"
  using bytes_at_store_inside [of 0 "to_le32 v" 4 SPINLOCK_ADDR "ram b"] objects_beside singles_beside
    poke_beside [of 0 "to_le32 v" 4 SPINLOCK_ADDR]
  by (intro system_eqI) (auto, simp add: system_of_def poke_def load32_def)

section \<open>The operations as loads and stores\<close>

definition read_u32 :: "u64 \<Rightarrow> board \<Rightarrow> u32" where
  "read_u32 a b = load32 a (ram b)"

definition store_u32 :: "u64 \<Rightarrow> u32 \<Rightarrow> board \<Rightarrow> board" where
  "store_u32 a v = poke a (to_le32 v)"

definition acquire_at :: "u64 \<Rightarrow> board \<Rightarrow> board exec" where
  "acquire_at lock b = bind_exec (spinlock_acquire (read_u32 lock b)) (\<lambda>l. Inr (store_u32 lock l b))"

definition release_at :: "u64 \<Rightarrow> board \<Rightarrow> board" where
  "release_at lock b = store_u32 lock (spinlock_release (read_u32 lock b)) b"

definition spinlock_init_mem :: "board \<Rightarrow> board" where
  "spinlock_init_mem = store_u32 SPINLOCK_ADDR 0"

definition mailbox_init_mem :: "int \<Rightarrow> board \<Rightarrow> board" where
  "mailbox_init_mem core_id b =
     (let mb = GET_MAILBOX core_id;
          b = store_u32 mb 0 b;
          b = store_u32 (mb + 4) MSG_NONE b;
          b = store_u32 (mb + 8) 0 b;
          b = store_u32 (mb + 12) 0xFF b;
          b = store_u32 (mb + 16) 0 b
      in store_u32 (mb + 20) 0 b)"

text \<open>The key, the mailbox and the tag buffer of the C functions are read and written in memory.\<close>

definition hmac_tag_compute_mem :: "u64 \<Rightarrow> u64 \<Rightarrow> board \<Rightarrow> board exec" where
  "hmac_tag_compute_mem mb tag_out b =
     bind_exec (hmac_tag_compute (bytes_at HMAC_KEY_ADDR 32 (ram b)) (mailbox_of (bytes_at mb 56 (ram b)))
       (bytes_at tag_out 32 (ram b))) (\<lambda>tag. Inr (poke tag_out tag b))"

definition mailbox_send_mem :: "u64 \<Rightarrow> int \<Rightarrow> int \<Rightarrow> u32 \<Rightarrow> board \<Rightarrow> (int \<times> board) exec" where
  "mailbox_send_mem mpidr dest_core msg_type data b =
     (let mb = GET_MAILBOX dest_core in
      bind_exec (acquire_at mb b) (\<lambda>b.
        if read_u32 (mb + 16) b = 1 then Inr (-1, release_at mb b)
        else
          let sender = (ucast mpidr :: u32) AND 0xFF;
              b = store_u32 (mb + 12) sender b;
              b = store_u32 (mb + 4) (of_int msg_type) b;
              b = store_u32 (mb + 8) data b;
              b = store_u32 (mb + 20) (read_u32 (mb + 20) b + 1) b
          in bind_exec (hmac_tag_compute_mem mb (mb + 24) b) (\<lambda>b.
               Inr (0, release_at mb (store_u32 (mb + 16) 1 b)))))"

definition mailbox_receive_mem ::
  "int \<Rightarrow> u32 \<times> u32 \<times> u32 \<Rightarrow> board \<Rightarrow> (int \<times> (u32 \<times> u32 \<times> u32) \<times> board) exec" where
  "mailbox_receive_mem core_id out b =
     (let mb = GET_MAILBOX core_id in
      bind_exec (acquire_at mb b) (\<lambda>b.
      bind_exec (if read_u32 (mb + 16) b = 1
          then hmac_tag_verify (bytes_at HMAC_KEY_ADDR 32 (ram b)) (mailbox_of (bytes_at mb 56 (ram b)))
          else Inr 0) (\<lambda>verified.
        if read_u32 (mb + 16) b = 1 \<and> verified \<noteq> 0 then
          let out = (read_u32 (mb + 12) b, read_u32 (mb + 4) b, read_u32 (mb + 8) b);
              b = store_u32 (mb + 16) 2 b;
              b = put_text (puts_text (''[CRYPTO] HMAC pass with key'' @ [newline])) b;
              shared_key1 = shared_key (bytes_at (mb + 24) 32 (ram b)) 0 16;
              b = put_text [newline] (put_text (puthex_text shared_key1) b);
              b = put_text [newline] (put_text (puthex_text shared_key1) b)
          in Inr (1, out, release_at mb b)
        else if read_u32 (mb + 16) b = 1 then
          let b = put_text (puts_text (''[CRYPTO] HMAC verify FAILED - message rejected'' @ [newline])) b
          in Inr (0, out, release_at mb (store_u32 (mb + 16) 2 b))
        else Inr (0, out, release_at mb b))))"

definition mailbox_clear_mem :: "int \<Rightarrow> board \<Rightarrow> board exec" where
  "mailbox_clear_mem core_id b =
     (let mb = GET_MAILBOX core_id in
      bind_exec (acquire_at mb b) (\<lambda>b.
        Inr (release_at mb (store_u32 (mb + 4) MSG_NONE (store_u32 (mb + 16) 0 b)))))"

definition ring_buffer_init_mem :: "board \<Rightarrow> board" where
  "ring_buffer_init_mem b = store_u32 (RING_BUFFER_BASE + 4) 0 (store_u32 RING_BUFFER_BASE 0 b)"

text \<open>No store is checked: a head outside the array addresses whatever lies there.\<close>

definition ring_buffer_put_mem :: "u8 \<Rightarrow> board \<Rightarrow> int \<times> board" where
  "ring_buffer_put_mem c b =
     (let rb = RING_BUFFER_BASE; next_head = next_index (read_u32 rb b) in
      if next_head = read_u32 (rb + 4) b then (-1, b)
      else
        let b = poke (rb + 8 + ucast (read_u32 rb b)) [c] b
        in (0, store_u32 rb next_head b))"

definition ring_buffer_get_mem :: "u8 \<Rightarrow> board \<Rightarrow> int \<times> u8 \<times> board" where
  "ring_buffer_get_mem c b =
     (let rb = RING_BUFFER_BASE in
      if read_u32 rb b = read_u32 (rb + 4) b then (-1, c, b)
      else
        let c = ram b (rb + 8 + ucast (read_u32 (rb + 4) b))
        in (0, c, store_u32 (rb + 4) (next_index (read_u32 (rb + 4) b)) b))"

definition hmac_key_init_mem :: "u8 list \<Rightarrow> board \<Rightarrow> board" where
  "hmac_key_init_mem key b =
     put_text (puts_text (''[CRYPTO] HMAC key loaded'' @ [newline]))
       (fold (\<lambda>i. poke (HMAC_KEY_ADDR + of_nat i) [key ! i]) [0..<32] b)"

section \<open>Refinement\<close>

text \<open>The fields of the record, read and written at their addresses.\<close>

lemma bytes_at_part:
  assumes "k + j \<le> n"
  shows "bytes_at (a + of_nat k) j m = take j (drop k (bytes_at a n m))"
  using assms by (intro nth_equalityI) (simp_all add: bytes_at_nth ac_simps)

lemma read_mailbox:
  assumes "core_ok c"
  shows "read_u32 (GET_MAILBOX c) b = mb_lock (mbox c (system_of b))"
    "read_u32 (GET_MAILBOX c + 4) b = mb_msg_type (mbox c (system_of b))"
    "read_u32 (GET_MAILBOX c + 8) b = mb_msg_data (mbox c (system_of b))"
    "read_u32 (GET_MAILBOX c + 12) b = mb_sender_id (mbox c (system_of b))"
    "read_u32 (GET_MAILBOX c + 16) b = mb_status (mbox c (system_of b))"
    "read_u32 (GET_MAILBOX c + 20) b = mb_counter (mbox c (system_of b))"
    "bytes_at (GET_MAILBOX c + 24) 32 (ram b) = mb_tag (mbox c (system_of b))"
    "mailbox_of (bytes_at (GET_MAILBOX c) 56 (ram b)) = mbox c (system_of b)"
  using bytes_at_part [of 0 4 56 "GET_MAILBOX c" "ram b"] bytes_at_part [of 4 4 56 "GET_MAILBOX c" "ram b"]
    bytes_at_part [of 8 4 56 "GET_MAILBOX c" "ram b"] bytes_at_part [of 12 4 56 "GET_MAILBOX c" "ram b"]
    bytes_at_part [of 16 4 56 "GET_MAILBOX c" "ram b"] bytes_at_part [of 20 4 56 "GET_MAILBOX c" "ram b"]
    bytes_at_part [of 24 32 56 "GET_MAILBOX c" "ram b"]
  by (simp_all add: mbox_system_of [OF assms] read_u32_def load32_def) (simp_all add: mailbox_of_def Let_def)

lemma read_key: "bytes_at HMAC_KEY_ADDR 32 (ram b) = sys_key (system_of b)"
  by (simp add: system_of_def HMAC_KEY_SIZE_def)

lemma store_mailbox:
  assumes "core_ok c"
  shows "system_of (store_u32 (GET_MAILBOX c) v b) = set_mailbox c ((mbox c (system_of b))\<lparr>mb_lock := v\<rparr>) (system_of b)"
    "system_of (store_u32 (GET_MAILBOX c + 4) v b) = set_mailbox c ((mbox c (system_of b))\<lparr>mb_msg_type := v\<rparr>) (system_of b)"
    "system_of (store_u32 (GET_MAILBOX c + 8) v b) = set_mailbox c ((mbox c (system_of b))\<lparr>mb_msg_data := v\<rparr>) (system_of b)"
    "system_of (store_u32 (GET_MAILBOX c + 12) v b) = set_mailbox c ((mbox c (system_of b))\<lparr>mb_sender_id := v\<rparr>) (system_of b)"
    "system_of (store_u32 (GET_MAILBOX c + 16) v b) = set_mailbox c ((mbox c (system_of b))\<lparr>mb_status := v\<rparr>) (system_of b)"
    "system_of (store_u32 (GET_MAILBOX c + 20) v b) = set_mailbox c ((mbox c (system_of b))\<lparr>mb_counter := v\<rparr>) (system_of b)"
    "length tag = 32 \<Longrightarrow> system_of (poke (GET_MAILBOX c + 24) tag b) = set_mailbox c ((mbox c (system_of b))\<lparr>mb_tag := tag\<rparr>) (system_of b)"
  using poke_mailbox [OF assms, of 0 "to_le32 v" b] poke_mailbox [OF assms, of 4 "to_le32 v" b]
    poke_mailbox [OF assms, of 8 "to_le32 v" b] poke_mailbox [OF assms, of 12 "to_le32 v" b]
    poke_mailbox [OF assms, of 16 "to_le32 v" b] poke_mailbox [OF assms, of 20 "to_le32 v" b]
    poke_mailbox [OF assms, of 24 tag b]
  by (simp_all add: store_u32_def mbox_system_of [OF assms] mailbox_of_update [symmetric] del: add_numeral_left)

text \<open>The operations; \<open>board_ok\<close> is what the typed record has by construction.\<close>

lemma mailbox_in_range:
  "core_ok c \<Longrightarrow> get_mailbox c (system_of b) = Inr (mbox c (system_of b))"
  "core_ok c \<Longrightarrow> nat c < length (sys_mailboxes (system_of b))"
  using GET_MAILBOX_core(2,3) [of c] by (simp_all add: get_mailbox_def)

lemma acquire_refines:
  assumes "core_ok c"
  shows "mailbox_acquire c (system_of b) =
    bind_exec (acquire_at (GET_MAILBOX c) b) (\<lambda>b. Inr (mbox c (system_of b), system_of b))"
  using mailbox_in_range [OF assms, of b]
  by (simp add: mailbox_acquire_def acquire_at_def bind_exec_assoc store_mailbox [OF assms] read_mailbox [OF assms])

lemma release_refines:
  "core_ok c \<Longrightarrow> system_of (release_at (GET_MAILBOX c) b) = mailbox_release c (mbox c (system_of b)) (system_of b)"
  by (simp add: release_at_def mailbox_release_def store_mailbox read_mailbox)

lemma mbox_store [simp]:
  "core_ok c \<Longrightarrow> mbox c (set_mailbox c mb (system_of b)) = mb"
  "core_ok c \<Longrightarrow> mbox c (set_mailbox c mb (log_text t (system_of b))) = mb"
  using GET_MAILBOX_core(2,3) [of c] by simp_all

lemma release_again [simp]: "mailbox_release c mb (set_mailbox c mb' s) = mailbox_release c mb s"
  by (simp add: mailbox_release_def)

lemma mailbox_init_refines:
  "core_ok c \<Longrightarrow> mailbox_init c (system_of b) = Inr (system_of (mailbox_init_mem c b))"
  by (simp add: mailbox_init_def mailbox_init_mem_def mailbox_in_range store_mailbox Let_def)

lemma mailbox_clear_refines:
  "core_ok c \<Longrightarrow> mailbox_clear c (system_of b) = bind_exec (mailbox_clear_mem c b) (\<lambda>b. Inr (system_of b))"
  by (simp add: mailbox_clear_def mailbox_clear_mem_def acquire_refines bind_exec_assoc release_refines store_mailbox Let_def)

lemma bind_exec_cong: "(\<And>x. f x = g x) \<Longrightarrow> bind_exec m f = bind_exec m g"
  by (rule arg_cong [where f = "bind_exec m"]) (rule ext)

lemma object_lengths [simp]:
  "length (sys_key (system_of b)) = 32" "core_ok c \<Longrightarrow> length (mb_tag (mbox c (system_of b))) = 32"
  by (simp_all add: mbox_system_of mailbox_of_def Let_def) (simp add: system_of_def HMAC_KEY_SIZE_def)

lemma hmac_refines:
  assumes "core_ok c"
  shows "hmac_tag_compute_mem (GET_MAILBOX c) (GET_MAILBOX c + 24) b = Inr (poke (GET_MAILBOX c + 24)
    (hmac sha256 64 (sys_key (system_of b)) (mailbox_message (mbox c (system_of b)))) b)"
  by (simp add: hmac_tag_compute_mem_def read_key read_mailbox assms hmac_tag_compute_eq)

lemma mailbox_send_refines:
  assumes c: "core_ok c"
  shows "mailbox_send mpidr c ty d (system_of b) =
    bind_exec (mailbox_send_mem mpidr c ty d b) (\<lambda>(r, b). Inr (r, system_of b))"
  unfolding mailbox_send_def mailbox_send_mem_def Let_def acquire_refines [OF c] bind_exec_assoc
proof (rule bind_exec_cong, goal_cases)
  case (1 b)
  show ?case
    by (cases "mb_status (mbox c (system_of b)) = 1")
      (simp_all add: read_mailbox c release_refines hmac_refines store_mailbox hmac_tag_compute_eq)
qed

lemma mailbox_receive_refines:
  assumes c: "core_ok c"
  shows "mailbox_receive c out (system_of b) =
    bind_exec (mailbox_receive_mem c out b) (\<lambda>(r, out, b). Inr (r, out, system_of b))"
  unfolding mailbox_receive_def mailbox_receive_mem_def Let_def acquire_refines [OF c] bind_exec_assoc
proof (rule bind_exec_cong, goal_cases)
  case (1 b)
  show ?case
    by (cases "mb_status (mbox c (system_of b)) = 1")
      (simp_all add: read_mailbox read_key c release_refines store_mailbox hmac_tag_verify_eq con_log)
qed

lemma ring_refines:
  "read_u32 RING_BUFFER_BASE b = rb_head (sys_ring (system_of b))"
  "read_u32 (RING_BUFFER_BASE + 4) b = rb_tail (sys_ring (system_of b))"
  "system_of (store_u32 RING_BUFFER_BASE v b) = (system_of b)\<lparr>sys_ring := (sys_ring (system_of b))\<lparr>rb_head := v\<rparr>\<rparr>"
  "system_of (store_u32 (RING_BUFFER_BASE + 4) v b) = (system_of b)\<lparr>sys_ring := (sys_ring (system_of b))\<lparr>rb_tail := v\<rparr>\<rparr>"
  "i < 256 \<Longrightarrow> ram b (RING_BUFFER_BASE + 8 + of_nat i) = rb_data (sys_ring (system_of b)) ! i"
  "i < 256 \<Longrightarrow> system_of (poke (RING_BUFFER_BASE + 8 + of_nat i) [x] b) =
     (system_of b)\<lparr>sys_ring := (sys_ring (system_of b))\<lparr>rb_data := (rb_data (sys_ring (system_of b)))[i := x]\<rparr>\<rparr>"
  "length (rb_data (sys_ring (system_of b))) = 256"
proof -
  have ring: "sys_ring (system_of b) = ring_of (bytes_at RING_BUFFER_BASE 264 (ram b))"
    by (simp add: system_of_def sizeof_ring_buffer_def)
  show "read_u32 RING_BUFFER_BASE b = rb_head (sys_ring (system_of b))"
    "read_u32 (RING_BUFFER_BASE + 4) b = rb_tail (sys_ring (system_of b))"
    "length (rb_data (sys_ring (system_of b))) = 256"
    using bytes_at_part [of 0 4 264 RING_BUFFER_BASE "ram b"] bytes_at_part [of 4 4 264 RING_BUFFER_BASE "ram b"]
    by (simp_all add: ring read_u32_def load32_def ring_of_def)
  show "system_of (store_u32 RING_BUFFER_BASE v b) = (system_of b)\<lparr>sys_ring := (sys_ring (system_of b))\<lparr>rb_head := v\<rparr>\<rparr>"
    "system_of (store_u32 (RING_BUFFER_BASE + 4) v b) = (system_of b)\<lparr>sys_ring := (sys_ring (system_of b))\<lparr>rb_tail := v\<rparr>\<rparr>"
    using poke_ring [of 0 "to_le32 v" b] poke_ring [of 4 "to_le32 v" b]
    by (simp_all add: store_u32_def ring ring_of_update [symmetric] del: add_numeral_left)
  assume i: "i < 256"
  show "ram b (RING_BUFFER_BASE + 8 + of_nat i) = rb_data (sys_ring (system_of b)) ! i"
    using i by (simp add: ring ring_of_def bytes_at_nth ac_simps)
  show "system_of (poke (RING_BUFFER_BASE + 8 + of_nat i) [x] b) =
     (system_of b)\<lparr>sys_ring := (sys_ring (system_of b))\<lparr>rb_data := (rb_data (sys_ring (system_of b)))[i := x]\<rparr>\<rparr>"
    using i poke_ring [of "8 + i" "[x]" b] ring_of_update(3) [of "bytes_at RING_BUFFER_BASE 264 (ram b)" i x]
    by (simp add: ring ac_simps)
qed

lemma ring_index:
  fixes i :: u32
  assumes "unat i < 256"
  shows "ram b (RING_BUFFER_BASE + 8 + ucast i) = rb_data (sys_ring (system_of b)) ! unat i"
    "system_of (poke (RING_BUFFER_BASE + 8 + ucast i) [x] b) =
     (system_of b)\<lparr>sys_ring := (sys_ring (system_of b))\<lparr>rb_data := (rb_data (sys_ring (system_of b)))[unat i := x]\<rparr>\<rparr>"
proof -
  have address: "(ucast i :: u64) = of_nat (unat i)" by (simp add: unsigned_ucast_eq)
  show "ram b (RING_BUFFER_BASE + 8 + ucast i) = rb_data (sys_ring (system_of b)) ! unat i"
    "system_of (poke (RING_BUFFER_BASE + 8 + ucast i) [x] b) =
     (system_of b)\<lparr>sys_ring := (sys_ring (system_of b))\<lparr>rb_data := (rb_data (sys_ring (system_of b)))[unat i := x]\<rparr>\<rparr>"
    unfolding address using assms by (rule ring_refines)+
qed

lemma ring_buffer_put_refines:
  assumes "rb_ok (sys_ring (system_of b))" and "ring_buffer_put_mem x b = (r, b')"
  shows "ring_buffer_put (sys_ring (system_of b)) x = Inr (r, sys_ring (system_of b')) \<and>
    system_of b' = (system_of b)\<lparr>sys_ring := sys_ring (system_of b')\<rparr>"
proof -
  have "unat (rb_head (sys_ring (system_of b))) < 256" using assms(1) by (simp add: rb_ok_def)
  with assms(2) show ?thesis
    by (auto simp: ring_buffer_put_def ring_buffer_put_mem_def Let_def ring_refines(1-4,7) ring_index split: if_splits)
qed

lemma ring_buffer_get_refines:
  assumes "rb_ok (sys_ring (system_of b))" and "ring_buffer_get_mem x b = (r, y, b')"
  shows "ring_buffer_get (sys_ring (system_of b)) x = Inr (r, y, sys_ring (system_of b')) \<and>
    system_of b' = (system_of b)\<lparr>sys_ring := sys_ring (system_of b')\<rparr>"
proof -
  have "unat (rb_tail (sys_ring (system_of b))) < 256" using assms(1) by (simp add: rb_ok_def)
  with assms(2) show ?thesis
    by (auto simp: ring_buffer_get_def ring_buffer_get_mem_def Let_def ring_refines(1-4,7) ring_index split: if_splits)
qed

lemma ring_buffer_init_refines:
  "system_of (ring_buffer_init_mem b) = (system_of b)\<lparr>sys_ring := ring_buffer_init (sys_ring (system_of b))\<rparr>"
  by (simp add: ring_buffer_init_mem_def ring_buffer_init_def ring_refines)

lemma hmac_key_init_refines:
  assumes "length key = 32"
  shows "hmac_key_init key (sys_key (system_of b)) = Inr (sys_key (system_of (hmac_key_init_mem key b))) \<and>
    system_of (hmac_key_init_mem key b) = con_puts (''[CRYPTO] HMAC key loaded'' @ [newline])
      ((system_of b)\<lparr>sys_key := sys_key (system_of (hmac_key_init_mem key b))\<rparr>)"
proof -
  have "system_of (fold (\<lambda>i. poke (HMAC_KEY_ADDR + of_nat i) [key ! i]) [0..<n] b) =
      (system_of b)\<lparr>sys_key := fold (\<lambda>i m. m[i := key ! i]) [0..<n] (sys_key (system_of b))\<rparr> \<and>
      length (fold (\<lambda>i m. m[i := key ! i]) [0..<n] (sys_key (system_of b))) = 32" if "n \<le> 32" for n
    using that
  proof (induction n)
    case (Suc n)
    then show ?case using poke_key [of n "[key ! n]"] by (simp add: upd_conv_take_nth_drop)
  qed simp
  from this [of 32] show ?thesis
    using assms by (simp add: hmac_key_init_def hmac_key_init_mem_def HMAC_KEY_SIZE_def con_log)
qed

lemma global_lock_refines:
  "acquire_global (system_of b) = bind_exec (acquire_at SPINLOCK_ADDR b) (\<lambda>b. Inr (system_of b))"
  "system_of (release_at SPINLOCK_ADDR b) = release_global (system_of b)"
  "system_of (spinlock_init_mem b) = (system_of b)\<lparr>sys_lock := spinlock_init (sys_lock (system_of b))\<rparr>"
proof -
  have "read_u32 SPINLOCK_ADDR b = sys_lock (system_of b)" by (simp add: read_u32_def system_of_def)
  then show "acquire_global (system_of b) = bind_exec (acquire_at SPINLOCK_ADDR b) (\<lambda>b. Inr (system_of b))"
    "system_of (release_at SPINLOCK_ADDR b) = release_global (system_of b)"
    "system_of (spinlock_init_mem b) = (system_of b)\<lparr>sys_lock := spinlock_init (sys_lock (system_of b))\<rparr>"
    by (simp_all add: acquire_global_def acquire_at_def release_global_def release_at_def spinlock_init_mem_def
        spinlock_init_def bind_exec_assoc store_u32_def poke_lock)
qed

text \<open>The ring and key operations as the callers use them, on the whole state.\<close>

lemma ring_ops_refine:
  assumes "rb_ok (sys_ring (system_of b))"
  shows "bind_exec (ring_buffer_put (sys_ring (system_of b)) x) (\<lambda>(r, rb). Inr (r, (system_of b)\<lparr>sys_ring := rb\<rparr>)) =
      (let (r, b) = ring_buffer_put_mem x b in Inr (r, system_of b))" (is ?put)
    "bind_exec (ring_buffer_get (sys_ring (system_of b)) x) (\<lambda>(r, y, rb). Inr (r, y, (system_of b)\<lparr>sys_ring := rb\<rparr>)) =
      (let (r, y, b) = ring_buffer_get_mem x b in Inr (r, y, system_of b))" (is ?get)
proof -
  obtain r b1 where put: "ring_buffer_put_mem x b = (r, b1)" by (cases "ring_buffer_put_mem x b")
  show ?put using ring_buffer_put_refines [OF assms put] by (simp add: put)
  obtain r' y b2 where get: "ring_buffer_get_mem x b = (r', y, b2)" by (cases "ring_buffer_get_mem x b")
  show ?get using ring_buffer_get_refines [OF assms get] by (simp add: get)
qed

lemma key_init_refines:
  assumes "length key = 32"
  shows "bind_exec (hmac_key_init key (sys_key (system_of b))) (\<lambda>k.
      Inr (con_puts (''[CRYPTO] HMAC key loaded'' @ [newline]) ((system_of b)\<lparr>sys_key := k\<rparr>))) =
    Inr (system_of (hmac_key_init_mem key b))"
  using hmac_key_init_refines [OF assms, of b] by simp

text \<open>Nothing outside the object is touched.\<close>

definition outside :: "u64 \<Rightarrow> nat \<Rightarrow> u64 \<Rightarrow> bool" where
  "outside a n p \<longleftrightarrow> unat p < unat a \<or> unat a + n \<le> unat p"

lemma poke_outside:
  assumes "k + length bs \<le> n" "unat a + n < 2 ^ 64" "outside a n p"
  shows "ram (poke (a + of_nat k) bs b) p = ram b p"
  using assms unat_offset [of a k] by (auto simp: poke_def outside_def intro!: store_beside)

lemma mailbox_outside:
  assumes "core_ok c" "outside (GET_MAILBOX c) 56 p"
  shows "ram (store_u32 (GET_MAILBOX c) v b) p = ram b p" "ram (store_u32 (GET_MAILBOX c + 4) v b) p = ram b p"
    "ram (store_u32 (GET_MAILBOX c + 8) v b) p = ram b p" "ram (store_u32 (GET_MAILBOX c + 12) v b) p = ram b p"
    "ram (store_u32 (GET_MAILBOX c + 16) v b) p = ram b p" "ram (store_u32 (GET_MAILBOX c + 20) v b) p = ram b p"
    "length tag = 32 \<Longrightarrow> ram (poke (GET_MAILBOX c + 24) tag b) p = ram b p"
  using GET_MAILBOX_core [OF assms(1)] assms(2)
    poke_outside [of 0 "to_le32 v" 56 _ p b] poke_outside [of 4 "to_le32 v" 56 _ p b]
    poke_outside [of 8 "to_le32 v" 56 _ p b] poke_outside [of 12 "to_le32 v" 56 _ p b]
    poke_outside [of 16 "to_le32 v" 56 _ p b] poke_outside [of 20 "to_le32 v" 56 _ p b]
    poke_outside [of 24 tag 56 _ p b]
  by (simp_all add: store_u32_def)

lemma put_text_ram [simp]: "ram (put_text t b) = ram b"
  by (simp add: put_text_def)

lemma mailbox_ops_outside:
  assumes c: "core_ok c" and p: "outside (GET_MAILBOX c) 56 p"
  shows "ram (mailbox_init_mem c b) p = ram b p"
    "mailbox_send_mem mpidr c ty d b = Inr (r, b') \<Longrightarrow> ram b' p = ram b p"
    "mailbox_receive_mem c out b = Inr (r, out', b') \<Longrightarrow> ram b' p = ram b p"
    "mailbox_clear_mem c b = Inr b' \<Longrightarrow> ram b' p = ram b p"
  by (auto simp: mailbox_init_mem_def mailbox_send_mem_def mailbox_receive_mem_def mailbox_clear_mem_def acquire_at_def
      release_at_def hmac_refines bind_exec_Inr_iff Let_def mailbox_outside [OF c p] c split: if_splits)

definition touches_only :: "u64 \<Rightarrow> nat \<Rightarrow> board \<Rightarrow> board \<Rightarrow> bool" where
  "touches_only a n b b' \<longleftrightarrow> (\<forall>p. outside a n p \<longrightarrow> ram b' p = ram b p)"

lemma mailbox_ops_touch:
  assumes "core_ok c"
  shows "touches_only (GET_MAILBOX c) 56 b (mailbox_init_mem c b)"
    "mailbox_send_mem mpidr c ty d b = Inr (r, b') \<Longrightarrow> touches_only (GET_MAILBOX c) 56 b b'"
    "mailbox_receive_mem c out b = Inr (r, out', b') \<Longrightarrow> touches_only (GET_MAILBOX c) 56 b b'"
    "mailbox_clear_mem c b = Inr b' \<Longrightarrow> touches_only (GET_MAILBOX c) 56 b b'"
  unfolding touches_only_def using mailbox_ops_outside [OF assms] by blast+

lemma lock_ops_touch:
  "acquire_at SPINLOCK_ADDR b = Inr b' \<Longrightarrow> touches_only SPINLOCK_ADDR 4 b b'"
  "touches_only SPINLOCK_ADDR 4 b (release_at SPINLOCK_ADDR b)" "touches_only SPINLOCK_ADDR 4 b (spinlock_init_mem b)"
proof -
  have "touches_only SPINLOCK_ADDR 4 b (store_u32 SPINLOCK_ADDR v b)" for v
    using poke_outside [of 0 "to_le32 v" 4 SPINLOCK_ADDR] by (simp add: touches_only_def store_u32_def SPINLOCK_ADDR_def)
  then show "acquire_at SPINLOCK_ADDR b = Inr b' \<Longrightarrow> touches_only SPINLOCK_ADDR 4 b b'"
    "touches_only SPINLOCK_ADDR 4 b (release_at SPINLOCK_ADDR b)" "touches_only SPINLOCK_ADDR 4 b (spinlock_init_mem b)"
    by (auto simp: acquire_at_def release_at_def spinlock_init_mem_def bind_exec_Inr_iff)
qed

lemma ring_outside:
  assumes "outside RING_BUFFER_BASE 264 p"
  shows "ram (store_u32 RING_BUFFER_BASE v b) p = ram b p" "ram (store_u32 (RING_BUFFER_BASE + 4) v b) p = ram b p"
    "unat i < 256 \<Longrightarrow> ram (poke (RING_BUFFER_BASE + 8 + ucast (i :: u32)) [x] b) p = ram b p"
proof -
  have base: "unat RING_BUFFER_BASE + 264 < 2 ^ 64" by (simp add: RING_BUFFER_BASE_def)
  show "ram (store_u32 RING_BUFFER_BASE v b) p = ram b p" "ram (store_u32 (RING_BUFFER_BASE + 4) v b) p = ram b p"
    using poke_outside [OF _ base assms, of 0 "to_le32 v"] poke_outside [OF _ base assms, of 4 "to_le32 v"]
    by (simp_all add: store_u32_def)
  assume "unat i < 256"
  moreover have "RING_BUFFER_BASE + 8 + ucast i = RING_BUFFER_BASE + of_nat (8 + unat i)"
    by (simp add: unsigned_ucast_eq)
  ultimately show "ram (poke (RING_BUFFER_BASE + 8 + ucast i) [x] b) p = ram b p"
    using poke_outside [OF _ base assms, of "8 + unat i" "[x]"] by (simp only:) simp
qed

lemma ring_ops_touch:
  "rb_ok (sys_ring (system_of b)) \<Longrightarrow> touches_only RING_BUFFER_BASE 264 b (snd (ring_buffer_put_mem x b))"
  "touches_only RING_BUFFER_BASE 264 b (snd (snd (ring_buffer_get_mem x b)))"
  "touches_only RING_BUFFER_BASE 264 b (ring_buffer_init_mem b)"
  by (auto simp: touches_only_def ring_buffer_put_mem_def ring_buffer_get_mem_def ring_buffer_init_mem_def Let_def
      ring_outside ring_refines(1) rb_ok_def)

lemma key_init_touches: "touches_only HMAC_KEY_ADDR 32 b (hmac_key_init_mem key b)"
proof -
  have base: "unat HMAC_KEY_ADDR + 32 < 2 ^ 64" by (simp add: HMAC_KEY_ADDR_def)
  have "ram (fold (\<lambda>i. poke (HMAC_KEY_ADDR + of_nat i) [key ! i]) [0..<n] b) p = ram b p"
    if "outside HMAC_KEY_ADDR 32 p" "n \<le> 32" for n p
    using that(2) by (induction n) (simp_all add: poke_outside [OF _ base that(1)])
  then show ?thesis by (simp add: touches_only_def hmac_key_init_mem_def)
qed

section \<open>A core number out of range\<close>

text \<open>The mailbox address of core 4 is in front of the ring buffer: its tag lies over the indices.\<close>

lemma struct_store:
  "mailbox_of (bytes_at a 56 (ram (store_u32 a v b))) = (mailbox_of (bytes_at a 56 (ram b)))\<lparr>mb_lock := v\<rparr>"
  "mailbox_of (bytes_at a 56 (ram (store_u32 (a + 4) v b))) = (mailbox_of (bytes_at a 56 (ram b)))\<lparr>mb_msg_type := v\<rparr>"
  "mailbox_of (bytes_at a 56 (ram (store_u32 (a + 8) v b))) = (mailbox_of (bytes_at a 56 (ram b)))\<lparr>mb_msg_data := v\<rparr>"
  "mailbox_of (bytes_at a 56 (ram (store_u32 (a + 12) v b))) = (mailbox_of (bytes_at a 56 (ram b)))\<lparr>mb_sender_id := v\<rparr>"
  "mailbox_of (bytes_at a 56 (ram (store_u32 (a + 16) v b))) = (mailbox_of (bytes_at a 56 (ram b)))\<lparr>mb_status := v\<rparr>"
  "mailbox_of (bytes_at a 56 (ram (store_u32 (a + 20) v b))) = (mailbox_of (bytes_at a 56 (ram b)))\<lparr>mb_counter := v\<rparr>"
  using bytes_at_store_inside [of 0 "to_le32 v" 56 a "ram b"] bytes_at_store_inside [of 4 "to_le32 v" 56 a "ram b"]
    bytes_at_store_inside [of 8 "to_le32 v" 56 a "ram b"] bytes_at_store_inside [of 12 "to_le32 v" 56 a "ram b"]
    bytes_at_store_inside [of 16 "to_le32 v" 56 a "ram b"] bytes_at_store_inside [of 20 "to_le32 v" 56 a "ram b"]
  by (simp_all add: store_u32_def poke_def mailbox_of_update [symmetric] del: add_numeral_left)

lemma struct_read:
  "read_u32 a b = mb_lock (mailbox_of (bytes_at a 56 (ram b)))"
  "read_u32 (a + 16) b = mb_status (mailbox_of (bytes_at a 56 (ram b)))"
  "read_u32 (a + 20) b = mb_counter (mailbox_of (bytes_at a 56 (ram b)))"
  using bytes_at_part [of 0 4 56 a "ram b"] bytes_at_part [of 16 4 56 a "ram b"] bytes_at_part [of 20 4 56 a "ram b"]
  by (simp_all add: read_u32_def load32_def mailbox_of_def Let_def)

lemma store_u32_beside:
  "beside p 4 a n \<Longrightarrow> bytes_at a n (ram (store_u32 p v b)) = bytes_at a n (ram b)"
  by (simp add: store_u32_def poke_def bytes_at_store_beside)

lemma ring_under_tag:
  assumes "length tag = 32"
  shows "take 24 (bytes_at RING_BUFFER_BASE 264 (ram (poke (RING_BUFFER_BASE - 8) tag b))) = drop 8 tag"
proof (rule nth_equalityI)
  fix i assume "i < length (take 24 (bytes_at RING_BUFFER_BASE 264 (ram (poke (RING_BUFFER_BASE - 8) tag b))))"
  then have i: "i < 24" by simp
  then have "unat (8 + of_nat i :: u64) = 8 + i" using unat_offset [of 8 i] by simp
  with i assms show "take 24 (bytes_at RING_BUFFER_BASE 264 (ram (poke (RING_BUFFER_BASE - 8) tag b))) ! i = drop 8 tag ! i"
    by (simp add: bytes_at_nth poke_def store_bytes_def algebra_simps)
qed (use assms in simp)

lemma mailbox_4:
  "GET_MAILBOX 4 = 0x402201E0" "RING_BUFFER_BASE = 0x40220200" "HMAC_KEY_ADDR = 0x40220310"
  by (simp_all add: memory_map_defs)

section \<open>Properties\<close>

text \<open>
  Property C16: the shared objects of the model are the bytes of the shared page.  At the addresses
  of the macros and with the offsets of the structs, the mailbox operations on cores 0 to 3, the
  ring operations, the operations of the global lock and the loading of the key do to the bytes
  what the models do to the record, the other objects, returns, lock waits and console
  text included.  None of them changes a byte outside its object, wherever it lies: the 56 bytes of
  the mailbox, the 264 of the ring, the 4 of the lock, the 32 of the key.
\<close>
theorem memory_refines:
  assumes "core_ok c" and "rb_ok (sys_ring (system_of b))" and "length key = 32"
  shows "mailbox_init c (system_of b) = Inr (system_of (mailbox_init_mem c b)) \<and>
    mailbox_send mpidr c ty d (system_of b) =
      bind_exec (mailbox_send_mem mpidr c ty d b) (\<lambda>(r, b). Inr (r, system_of b)) \<and>
    mailbox_receive c out (system_of b) =
      bind_exec (mailbox_receive_mem c out b) (\<lambda>(r, out, b). Inr (r, out, system_of b)) \<and>
    mailbox_clear c (system_of b) = bind_exec (mailbox_clear_mem c b) (\<lambda>b. Inr (system_of b)) \<and>
    (system_of b)\<lparr>sys_ring := ring_buffer_init (sys_ring (system_of b))\<rparr> = system_of (ring_buffer_init_mem b) \<and>
    bind_exec (ring_buffer_put (sys_ring (system_of b)) x) (\<lambda>(r, rb). Inr (r, (system_of b)\<lparr>sys_ring := rb\<rparr>)) =
      (let (r, b) = ring_buffer_put_mem x b in Inr (r, system_of b)) \<and>
    bind_exec (ring_buffer_get (sys_ring (system_of b)) x) (\<lambda>(r, y, rb). Inr (r, y, (system_of b)\<lparr>sys_ring := rb\<rparr>)) =
      (let (r, y, b) = ring_buffer_get_mem x b in Inr (r, y, system_of b)) \<and>
    (system_of b)\<lparr>sys_lock := spinlock_init (sys_lock (system_of b))\<rparr> = system_of (spinlock_init_mem b) \<and>
    acquire_global (system_of b) = bind_exec (acquire_at SPINLOCK_ADDR b) (\<lambda>b. Inr (system_of b)) \<and>
    release_global (system_of b) = system_of (release_at SPINLOCK_ADDR b) \<and>
    bind_exec (hmac_key_init key (sys_key (system_of b))) (\<lambda>k.
      Inr (con_puts (''[CRYPTO] HMAC key loaded'' @ [newline]) ((system_of b)\<lparr>sys_key := k\<rparr>))) =
      Inr (system_of (hmac_key_init_mem key b)) \<and>
    (\<forall>r out' b'. b' = mailbox_init_mem c b \<or> mailbox_send_mem mpidr c ty d b = Inr (r, b') \<or>
      mailbox_receive_mem c out b = Inr (r, out', b') \<or> mailbox_clear_mem c b = Inr b' \<longrightarrow>
      touches_only (GET_MAILBOX c) 56 b b') \<and>
    (\<forall>b' \<in> {ring_buffer_init_mem b, snd (ring_buffer_put_mem x b), snd (snd (ring_buffer_get_mem x b))}.
      touches_only RING_BUFFER_BASE 264 b b') \<and>
    (\<forall>b'. b' = spinlock_init_mem b \<or> acquire_at SPINLOCK_ADDR b = Inr b' \<or> b' = release_at SPINLOCK_ADDR b \<longrightarrow>
      touches_only SPINLOCK_ADDR 4 b b') \<and>
    touches_only HMAC_KEY_ADDR 32 b (hmac_key_init_mem key b)"
proof -
  have mailbox: "\<forall>r out' b'. b' = mailbox_init_mem c b \<or> mailbox_send_mem mpidr c ty d b = Inr (r, b') \<or>
      mailbox_receive_mem c out b = Inr (r, out', b') \<or> mailbox_clear_mem c b = Inr b' \<longrightarrow>
      touches_only (GET_MAILBOX c) 56 b b'"
    using mailbox_ops_touch [OF assms(1)] by blast
  have ring: "\<forall>b' \<in> {ring_buffer_init_mem b, snd (ring_buffer_put_mem x b), snd (snd (ring_buffer_get_mem x b))}.
      touches_only RING_BUFFER_BASE 264 b b'"
    using ring_ops_touch(1) [OF assms(2)] ring_ops_touch(2,3) by blast
  have lock: "\<forall>b'. b' = spinlock_init_mem b \<or> acquire_at SPINLOCK_ADDR b = Inr b' \<or> b' = release_at SPINLOCK_ADDR b \<longrightarrow>
      touches_only SPINLOCK_ADDR 4 b b'"
    using lock_ops_touch by blast
  note ops = mailbox_init_refines mailbox_send_refines mailbox_receive_refines mailbox_clear_refines
  show ?thesis
    by (intro conjI ops [OF assms(1)] ring_ops_refine [OF assms(2)] global_lock_refines key_init_refines [OF assms(3)]
        global_lock_refines(2,3) [symmetric] ring_buffer_init_refines [symmetric] mailbox ring lock key_init_touches)
qed

definition zero_board :: board where
  "zero_board = \<lparr>ram = (\<lambda>_. 0), tty = []\<rparr>"

lemma zero_board_ok: "rb_ok (sys_ring (system_of zero_board))" "core_ok c \<Longrightarrow> free_mailbox c (system_of zero_board)"
  "core_ok c \<Longrightarrow> mb_status (mbox c (system_of zero_board)) = 0"
  "mailbox_of (bytes_at a 56 (ram zero_board)) = \<lparr>mb_lock = 0, mb_msg_type = 0, mb_msg_data = 0, mb_sender_id = 0,
     mb_status = 0, mb_counter = 0, mb_tag = replicate 32 0\<rparr>"
proof -
  have zero: "bytes_at a n (ram zero_board) = replicate n 0" for a n
    by (simp add: zero_board_def bytes_at_def map_replicate_trivial)
  have word: "from_le32 (replicate 4 0) = 0" by (simp add: from_le32_def)
  show ring: "rb_ok (sys_ring (system_of zero_board))"
    using word by (simp add: system_of_def zero sizeof_ring_buffer_def ring_of_def rb_ok_def)
  show "free_mailbox c (system_of zero_board)" if "core_ok c"
    using that word system_of_ok [OF ring]
    by (simp add: free_mailbox_def mbox_system_of zero mailbox_of_def Let_def)
  show struct: "mailbox_of (bytes_at a 56 (ram zero_board)) = \<lparr>mb_lock = 0, mb_msg_type = 0, mb_msg_data = 0,
      mb_sender_id = 0, mb_status = 0, mb_counter = 0, mb_tag = replicate 32 0\<rparr>" for a
    using word by (simp add: zero mailbox_of_def Let_def)
  show "mb_status (mbox c (system_of zero_board)) = 0" if "core_ok c"
    using that struct by (simp add: mbox_system_of)
qed

lemma memory_refines_witness:
  "\<exists>b'. mailbox_send_mem 0x80000000 3 2 7 zero_board = Inr (0, b') \<and> system_of b' = set_mailbox 3
     (sent_mailbox (sys_key (system_of zero_board)) 0x80000000 2 7 (mbox 3 (system_of zero_board))) (system_of zero_board)"
proof -
  have free: "free_mailbox 3 (system_of zero_board)" by (rule zero_board_ok) simp
  obtain s' where s': "mailbox_send 0x80000000 3 2 7 (system_of zero_board) = Inr (0, s')"
    "s' = set_mailbox 3 (sent_mailbox (sys_key (system_of zero_board)) 0x80000000 2 7 (mbox 3 (system_of zero_board)))
       (system_of zero_board)"
    using mailbox_send_eq [OF free] zero_board_ok(3) [of 3] by simp
  have "mailbox_send 0x80000000 3 2 7 (system_of zero_board) =
      bind_exec (mailbox_send_mem 0x80000000 3 2 7 zero_board) (\<lambda>(r, b). Inr (r, system_of b))"
    using memory_refines [OF core_ok_cores(4) zero_board_ok(1), of "replicate 32 0" "0x80000000" 2 7] by simp
  with s' show ?thesis by (auto simp: bind_exec_Inr_iff)
qed

text \<open>
  Property C40: \<^verbatim>\<open>mailbox_send\<close> does not check its core number.  For core 4 the code goes through with
  the bytes in front of the ring buffer as a mailbox, returns success, and the HMAC tag it writes
  lies over the head and the tail of the ring and its first 16 bytes.  The model of the operation
  on the record calls this out of bounds.
\<close>
theorem send_to_core_4:
  fixes b :: board
  defines "mb \<equiv> mailbox_of (bytes_at (GET_MAILBOX 4) 56 (ram b))"
  assumes "mb_lock mb = 0" and "mb_status mb \<noteq> 1"
  shows "\<exists>b' tag. mailbox_send_mem mpidr 4 ty d b = Inr (0, b') \<and>
    mailbox_send mpidr 4 ty d (system_of b) = Inl OutOfBounds \<and>
    tag = hmac sha256 64 (sys_key (system_of b)) (mailbox_message (mb\<lparr>mb_sender_id := ucast mpidr AND 0xFF,
      mb_msg_type := of_int ty, mb_msg_data := d, mb_counter := mb_counter mb + 1\<rparr>)) \<and>
    rb_head (sys_ring (system_of b')) = from_le32 (take 4 (drop 8 tag)) \<and>
    rb_tail (sys_ring (system_of b')) = from_le32 (take 4 (drop 12 tag)) \<and>
    take 16 (rb_data (sys_ring (system_of b'))) = drop 16 tag"
proof -
  let ?a = "GET_MAILBOX 4"
  define b1 where "b1 = store_u32 ?a 1 b"
  define b2 where "b2 = store_u32 (?a + 8) d (store_u32 (?a + 4) (of_int ty) (store_u32 (?a + 12) (ucast mpidr AND 0xFF) b1))"
  define b3 where "b3 = store_u32 (?a + 20) (read_u32 (?a + 20) b2 + 1) b2"
  let ?mb = "mb\<lparr>mb_sender_id := ucast mpidr AND 0xFF, mb_msg_type := of_int ty, mb_msg_data := d,
      mb_counter := mb_counter mb + 1\<rparr>"
  have s1: "mailbox_of (bytes_at ?a 56 (ram b1)) = mb\<lparr>mb_lock := 1\<rparr>" by (simp add: b1_def mb_def struct_store)
  have s3: "mailbox_of (bytes_at ?a 56 (ram b3)) = ?mb\<lparr>mb_lock := 1\<rparr>"
    by (simp add: b3_def b2_def struct_store struct_read(3) s1)
  have "beside p 4 HMAC_KEY_ADDR 32" if "p \<in> {?a, ?a + 4, ?a + 8, ?a + 12, ?a + 20}" for p
    using that by (auto simp: mailbox_4 beside_def)
  then have "bytes_at HMAC_KEY_ADDR 32 (ram b3) = bytes_at HMAC_KEY_ADDR 32 (ram b)"
    by (simp add: b3_def b2_def b1_def store_u32_beside)
  then have key: "bytes_at HMAC_KEY_ADDR 32 (ram b3) = sys_key (system_of b)" by (simp only: read_key)
  define tag where "tag = hmac sha256 64 (sys_key (system_of b)) (mailbox_message ?mb)"
  have message: "mailbox_message (?mb\<lparr>mb_lock := 1\<rparr>) = mailbox_message ?mb" by (simp add: mailbox_message_def)
  have hmac: "hmac_tag_compute_mem ?a (?a + 24) b3 = Inr (poke (?a + 24) tag b3)"
    by (simp add: hmac_tag_compute_mem_def s3 key hmac_tag_compute_eq tag_def message)
  let ?b = "release_at ?a (store_u32 (?a + 16) 1 (poke (?a + 24) tag b3))"
  have send: "mailbox_send_mem mpidr 4 ty d b = Inr (0, ?b)"
  proof -
    have "acquire_at ?a b = Inr b1" using assms(2) by (simp add: acquire_at_def struct_read(1) spinlock_acquire_def b1_def mb_def)
    moreover have "read_u32 (?a + 16) b1 \<noteq> 1" using assms(3) by (simp add: struct_read(2) s1)
    ultimately show ?thesis
      using hmac by (simp add: mailbox_send_mem_def Let_def b2_def [symmetric] b3_def [symmetric])
  qed
  have len: "length tag = 32" by (simp add: tag_def)
  have "bytes_at RING_BUFFER_BASE 264 (ram ?b) = bytes_at RING_BUFFER_BASE 264 (ram (poke (RING_BUFFER_BASE - 8) tag b3))"
    by (simp add: release_at_def store_u32_beside beside_def mailbox_4)
  then have ring: "take 24 (bytes_at RING_BUFFER_BASE 264 (ram ?b)) = drop 8 tag"
    using ring_under_tag [OF len, of b3] by simp
  have part: "take j (drop k (bytes_at RING_BUFFER_BASE 264 (ram ?b))) = take j (drop (k + 8) tag)" if "k + j \<le> 24" for k j
    using arg_cong [OF ring, of "\<lambda>bs. take j (drop k bs)"] that by (simp add: drop_take min_absorb1 le_diff_conv2)
  have "mailbox_send mpidr 4 ty d (system_of b) = Inl OutOfBounds"
    by (simp add: mailbox_send_def mailbox_acquire_def get_mailbox_def)
  moreover have "sys_ring (system_of ?b) = ring_of (bytes_at RING_BUFFER_BASE 264 (ram ?b))"
    by (simp add: system_of_def sizeof_ring_buffer_def)
  ultimately show ?thesis
    using send part [of 0 4] part [of 4 4] part [of 8 16] len by (auto simp: ring_of_def tag_def)
qed

text \<open>From zeroed memory the indices become words of the tag, which no index below 256 need be.\<close>

lemma send_to_core_4_witness:
  "\<exists>b' tag. mailbox_send_mem 0x80000000 4 1 0x1004 zero_board = Inr (0, b') \<and> length tag = 32 \<and>
     rb_head (sys_ring (system_of b')) = from_le32 (take 4 (drop 8 tag)) \<and>
     take 16 (rb_data (sys_ring (system_of b'))) = drop 16 tag"
proof -
  have "mb_lock (mailbox_of (bytes_at (GET_MAILBOX 4) 56 (ram zero_board))) = 0"
    "mb_status (mailbox_of (bytes_at (GET_MAILBOX 4) 56 (ram zero_board))) \<noteq> 1"
    by (simp_all add: zero_board_ok(4))
  from send_to_core_4 [OF this, of "0x80000000" 1 "0x1004"] show ?thesis
    by (metis length_hmac_sha256)
qed

end
