(* ===== verification/Mailbox_Steps.thy ===== *)
theory Mailbox_Steps
  imports Mailbox
begin

text \<open>
  The critical sections of \<^verbatim>\<open>ipc.c\<close> access by access.  \<open>Mailbox\<close> treats a mailbox operation as one
  step; here a core that holds a mailbox's lock makes one access to the struct at a time, its
  stores take effect later and in any order, as Armv8 allows, and the other cores do what they
  like in between.  The results are those of the one-step operations, run in the order in which
  the locks are released.
\<close>

section \<open>Programs\<close>

text \<open>
  What a core does between acquiring and releasing the lock, as a tree of accesses: a read goes on
  according to the value it finds.  Calls that only print are left out.
\<close>

datatype field = Msg_Type | Msg_Data | Sender_Id | Status | Counter

primrec get_field :: "field \<Rightarrow> mailbox \<Rightarrow> u32" where
  "get_field Msg_Type mb = mb_msg_type mb"
| "get_field Msg_Data mb = mb_msg_data mb"
| "get_field Sender_Id mb = mb_sender_id mb"
| "get_field Status mb = mb_status mb"
| "get_field Counter mb = mb_counter mb"

primrec put_field :: "field \<Rightarrow> u32 \<Rightarrow> mailbox \<Rightarrow> mailbox" where
  "put_field Msg_Type v mb = mb\<lparr>mb_msg_type := v\<rparr>"
| "put_field Msg_Data v mb = mb\<lparr>mb_msg_data := v\<rparr>"
| "put_field Sender_Id v mb = mb\<lparr>mb_sender_id := v\<rparr>"
| "put_field Status v mb = mb\<lparr>mb_status := v\<rparr>"
| "put_field Counter v mb = mb\<lparr>mb_counter := v\<rparr>"

datatype reply = Sent int | Received int message_out | Cleared

datatype store = Put_Field field u32 | Put_Tag nat u8

primrec do_store :: "store \<Rightarrow> mailbox \<Rightarrow> mailbox" where
  "do_store (Put_Field f v) mb = put_field f v mb"
| "do_store (Put_Tag i b) mb = mb\<lparr>mb_tag := (mb_tag mb)[i := b]\<rparr>"

datatype prog =
    Return reply
  | Read field "u32 \<Rightarrow> prog"
  | Read_Tag nat "u8 \<Rightarrow> prog"
  | Store store prog

abbreviation Write :: "field \<Rightarrow> u32 \<Rightarrow> prog \<Rightarrow> prog" where
  "Write f v \<equiv> Store (Put_Field f v)"

text \<open>
  One access of a core that sees the mailbox as \<open>mb\<close>, with the store it issues; none is left after
  \<open>Return\<close>.
\<close>

definition access :: "prog \<Rightarrow> mailbox \<Rightarrow> (prog \<times> store list) option" where
  "access p mb = (case p of
     Return r \<Rightarrow> None
   | Read f k \<Rightarrow> Some (k (get_field f mb), [])
   | Read_Tag i k \<Rightarrow> Some (k (mb_tag mb ! i), [])
   | Store st q \<Rightarrow> Some (q, [st]))"

text \<open>All accesses in one go.\<close>

primrec run :: "prog \<Rightarrow> mailbox \<Rightarrow> reply \<times> mailbox" where
  "run (Return r) mb = (r, mb)"
| "run (Read f k) mb = run (k (get_field f mb)) mb"
| "run (Read_Tag i k) mb = run (k (mb_tag mb ! i)) mb"
| "run (Store st q) mb = run q (do_store st mb)"

lemma run_access: "access p mb = Some (q, sts) \<Longrightarrow> run p mb = run q (fold do_store sts mb)"
  by (cases p) (auto simp: access_def)

text \<open>
  The sixteen message bytes of \<^verbatim>\<open>hmac_tag_compute\<close> are sixteen reads; the hash is computed in local
  variables.  The tag is written byte by byte by \<^verbatim>\<open>tc_sha256_final\<close>, compared byte by byte by
  \<^verbatim>\<open>hmac_tag_verify\<close>.
\<close>

definition message_layout :: "(field \<times> nat) list" where
  "message_layout = [(Sender_Id, 24), (Sender_Id, 16), (Sender_Id, 8), (Sender_Id, 0),
     (Msg_Type, 24), (Msg_Type, 16), (Msg_Type, 8), (Msg_Type, 0),
     (Msg_Data, 24), (Msg_Data, 16), (Msg_Data, 8), (Msg_Data, 0),
     (Counter, 24), (Counter, 16), (Counter, 8), (Counter, 0)]"

fun read_message :: "(field \<times> nat) list \<Rightarrow> u8 list \<Rightarrow> (u8 list \<Rightarrow> prog) \<Rightarrow> prog" where
  "read_message [] msg k = k msg"
| "read_message ((f, shift) # fs) msg k = Read f (\<lambda>v. read_message fs (msg @ [ucast (drop_bit shift v)]) k)"

fun write_tag :: "nat \<Rightarrow> u8 list \<Rightarrow> prog \<Rightarrow> prog" where
  "write_tag i [] q = q"
| "write_tag i (b # bs) q = Store (Put_Tag i b) (write_tag (Suc i) bs q)"

fun compare_tag :: "nat \<Rightarrow> u8 list \<Rightarrow> u8 \<Rightarrow> (u8 \<Rightarrow> prog) \<Rightarrow> prog" where
  "compare_tag i [] change k = k change"
| "compare_tag i (b # bs) change k = Read_Tag i (\<lambda>t. compare_tag (Suc i) bs (change OR (b XOR t)) k)"

primrec read_tags :: "nat list \<Rightarrow> prog \<Rightarrow> prog" where
  "read_tags [] q = q"
| "read_tags (i # is) q = Read_Tag i (\<lambda>_. read_tags is q)"

definition send_prog :: "u8 list \<Rightarrow> u64 \<Rightarrow> int \<Rightarrow> u32 \<Rightarrow> prog" where
  "send_prog key mpidr msg_type data = Read Status (\<lambda>status.
     if status = 1 then Return (Sent (-1))
     else Write Sender_Id (ucast mpidr AND 0xFF) (Write Msg_Type (of_int msg_type) (Write Msg_Data data
       (Read Counter (\<lambda>n. Write Counter (n + 1)
       (read_message message_layout [] (\<lambda>msg. write_tag 0 (hmac sha256 64 key msg)
       (Write Status 1 (Return (Sent 0))))))))))"

text \<open>The status is read again for the \<^verbatim>\<open>else if\<close>.  The tag bytes read last are the ones printed.\<close>

definition receive_prog :: "u8 list \<Rightarrow> message_out \<Rightarrow> prog" where
  "receive_prog key out =
     (let rejected = Read Status (\<lambda>status.
            if status = 1 then Write Status 2 (Return (Received 0 out)) else Return (Received 0 out))
      in Read Status (\<lambda>status.
        if status = 1 then
          read_message message_layout [] (\<lambda>msg. compare_tag 0 (hmac sha256 64 key msg) 0 (\<lambda>change.
            if change = 0 then
              Read Sender_Id (\<lambda>sender. Read Msg_Type (\<lambda>ty. Read Msg_Data (\<lambda>d.
                Write Status 2 (read_tags [0..<32] (Return (Received 1 (sender, ty, d)))))))
            else rejected))
        else rejected))"

definition clear_prog :: prog where
  "clear_prog = Write Status 0 (Write Msg_Type MSG_NONE (Return Cleared))"

section \<open>Run in one go, the programs are the operations\<close>

lemma run_read_message:
  "run (read_message fs msg k) mb = run (k (msg @ map (\<lambda>(f, sh). ucast (drop_bit sh (get_field f mb))) fs)) mb"
  by (induction fs msg k rule: read_message.induct) simp_all

lemma message_fields: "map (\<lambda>(f, sh). ucast (drop_bit sh (get_field f mb))) message_layout = mailbox_message mb"
  by (simp add: message_layout_def mailbox_message_def)

lemma run_write_tag:
  "i + length bs \<le> length (mb_tag mb) \<Longrightarrow>
    run (write_tag i bs q) mb = run q (mb\<lparr>mb_tag := take i (mb_tag mb) @ bs @ drop (i + length bs) (mb_tag mb)\<rparr>)"
proof (induction i bs q arbitrary: mb rule: write_tag.induct)
  case (2 i b bs q)
  then show ?case by (simp add: upd_conv_take_nth_drop take_Suc_conv_app_nth min_def nth_append ac_simps)
qed simp

lemma run_compare_tag:
  "i + length bs \<le> length (mb_tag mb) \<Longrightarrow> \<exists>change. run (compare_tag i bs c k) mb = run (k change) mb \<and>
    (change = 0 \<longleftrightarrow> c = 0 \<and> bs = take (length bs) (drop i (mb_tag mb)))"
proof (induction i bs c k rule: compare_tag.induct)
  case (2 i b bs c k)
  have "take (length (b # bs)) (drop i (mb_tag mb)) = mb_tag mb ! i # take (length bs) (drop (Suc i) (mb_tag mb))"
    using 2(2) by (simp flip: Cons_nth_drop_Suc)
  with 2(1) [of "mb_tag mb ! i"] 2(2) show ?case by auto
qed auto

lemma run_read_tags [simp]: "run (read_tags is q) mb = run q mb"
  by (induction "is") simp_all

lemma run_send:
  assumes "length (mb_tag mb) = 32"
  shows "run (send_prog key mpidr ty d) mb =
    (if mb_status mb = 1 then (Sent (-1), mb) else (Sent 0, sent_mailbox key mpidr ty d mb))"
  using assms by (simp add: send_prog_def run_read_message message_fields run_write_tag sent_mailbox_def Let_def)

lemma run_receive:
  assumes "length (mb_tag mb) = 32"
  shows "run (receive_prog key out) mb =
    (if mb_status mb = 1 then
       if authentic key mb then (Received 1 (mb_sender_id mb, mb_msg_type mb, mb_msg_data mb), mb\<lparr>mb_status := 2\<rparr>)
       else (Received 0 out, mb\<lparr>mb_status := 2\<rparr>)
     else (Received 0 out, mb))"
proof -
  let ?tag = "hmac sha256 64 key (mailbox_message mb)"
  have "?tag = take (length ?tag) (drop 0 (mb_tag mb)) \<longleftrightarrow> authentic key mb"
    using assms by (auto simp: authentic_def)
  then have compare: "run (compare_tag 0 ?tag 0 (\<lambda>change. if change = 0 then p else q)) mb =
      run (if authentic key mb then p else q) mb" for p q
    using run_compare_tag [of 0 ?tag mb 0 "\<lambda>change. if change = 0 then p else q"] assms by auto
  show ?thesis
    using assms by (simp add: receive_prog_def run_read_message message_fields Let_def compare)
qed

lemma run_clear: "run clear_prog mb = (Cleared, mb\<lparr>mb_status := 0, mb_msg_type := MSG_NONE\<rparr>)"
  by (simp add: clear_prog_def)

datatype call = Send_Call u64 int u32 | Receive_Call message_out | Clear_Call

primrec call_prog :: "u8 list \<Rightarrow> call \<Rightarrow> prog" where
  "call_prog key (Send_Call mpidr ty d) = send_prog key mpidr ty d"
| "call_prog key (Receive_Call out) = receive_prog key out"
| "call_prog key Clear_Call = clear_prog"

text \<open>The operation of \<open>Mailbox\<close> a call stands for, as one step.\<close>

primrec one_step :: "int \<Rightarrow> call \<Rightarrow> system \<Rightarrow> (reply \<times> system) exec" where
  "one_step c (Send_Call mpidr ty d) s = bind_exec (mailbox_send mpidr c ty d s) (\<lambda>(r, s). Inr (Sent r, s))"
| "one_step c (Receive_Call out) s =
     bind_exec (mailbox_receive c out s) (\<lambda>(r, out, s). Inr (Received r out, s))"
| "one_step c Clear_Call s = bind_exec (mailbox_clear c s) (\<lambda>s. Inr (Cleared, s))"

lemma one_step_run:
  assumes free: "free_mailbox c s"
  obtains str where "one_step c call s =
    (let (r, mb) = run (call_prog (sys_key s) call) ((mbox c s)\<lparr>mb_lock := 1\<rparr>)
     in Inr (r, set_mailbox c (mb\<lparr>mb_lock := 0\<rparr>) (log_text str s)))"
proof -
  note f = free_mailboxD [OF free]
  obtain mb where mb: "mbox c s = mb" "mb_lock mb = 0" "length (mb_tag mb) = 32" using f(3,5) by blast
  have tag: "length (mb_tag (mb\<lparr>mb_lock := 1\<rparr>)) = 32" using mb(3) by simp
  have none: "log_text [] s = s" by (simp add: log_text_def)
  have upd: "mb\<lparr>mb_lock := 0\<rparr> = mb" "mb\<lparr>mb_lock := 1, mb_lock := 0\<rparr> = mb"
    "mb\<lparr>mb_lock := 1, mb_status := st, mb_lock := 0\<rparr> = mb\<lparr>mb_status := st\<rparr>"
    "mb\<lparr>mb_lock := 1, mb_status := st, mb_msg_type := ty, mb_lock := 0\<rparr> = mb\<lparr>mb_status := st, mb_msg_type := ty\<rparr>"
    "(sent_mailbox key mpidr ty' d (mb\<lparr>mb_lock := 1\<rparr>))\<lparr>mb_lock := 0\<rparr> = sent_mailbox key mpidr ty' d mb"
    for st ty ty' d key mpidr
    using mb(2) by (cases mb; simp add: sent_mailbox_def mailbox_message_def Let_def)+
  have auth: "authentic key (mb\<lparr>mb_lock := 1\<rparr>) = authentic key mb" for key by (simp add: authentic_def)
  have same: "set_mailbox c mb s = s" using mb(1) by (rule set_mailbox_same)
  show thesis
  proof (cases call)
    case (Send_Call mpidr ty d)
    then show ?thesis
      using that [of "[]"] mailbox_send_eq [OF free] run_send [OF tag] mb(1) by (simp add: none upd same)
  next
    case (Receive_Call out)
    then show ?thesis
      using that [of "if mb_status mb = 1 then if authentic (sys_key s) mb then receive_log (mb_tag mb) else reject_log else []"]
        mailbox_receive_eq [OF free] run_receive [OF tag] mb(1) by (simp add: none upd same auth)
  next
    case Clear_Call
    then show ?thesis
      using that [of "[]"] mailbox_clear_eq [OF free] mb(1) by (simp add: none upd run_clear)
  qed
qed

section \<open>Cores taking steps\<close>

text \<open>
  A core is outside the mailbox code, waits for a lock, or is inside with the rest of its program
  and its pending stores, oldest first.  It sees its own pending stores.  A store takes effect when
  it lands, in any order but for stores to the same place.  The \<^verbatim>\<open>dmb\<close> of \<^verbatim>\<open>spinlock_release\<close> waits
  for all of them before the lock is freed, the \<^verbatim>\<open>dsb\<close> after it for that store.  \<open>f_log\<close> records the
  calls that have returned, with core, mailbox and result, in the order in which they release
  their locks.
\<close>

datatype activity = Elsewhere | Waiting int call | Inside int call prog "store list"

record fine =
  f_boxes :: "mailbox list"
  f_act :: "nat \<Rightarrow> activity"
  f_log :: "(nat \<times> int \<times> call \<times> reply) list"

abbreviation fbox :: "int \<Rightarrow> fine \<Rightarrow> mailbox" where
  "fbox c s \<equiv> f_boxes s ! nat c"

definition set_fbox :: "int \<Rightarrow> mailbox \<Rightarrow> fine \<Rightarrow> fine" where
  "set_fbox c mb s = s\<lparr>f_boxes := (f_boxes s)[nat c := mb]\<rparr>"

definition set_act :: "nat \<Rightarrow> activity \<Rightarrow> fine \<Rightarrow> fine" where
  "set_act n a s = s\<lparr>f_act := (f_act s)(n := a)\<rparr>"

definition drain :: "store list \<Rightarrow> mailbox \<Rightarrow> mailbox" where
  "drain = fold do_store"

definition same_place :: "store \<Rightarrow> store \<Rightarrow> bool" where
  "same_place a b \<longleftrightarrow> (case (a, b) of (Put_Field f _, Put_Field g _) \<Rightarrow> f = g | (Put_Tag i _, Put_Tag j _) \<Rightarrow> i = j
     | _ \<Rightarrow> False)"

datatype event = Begin nat int call | Step nat | Land nat nat

text \<open>One event; \<open>None\<close> is an event that cannot happen now, such as a step of a core that spins.\<close>

definition fine_exec :: "u8 list \<Rightarrow> event \<Rightarrow> fine \<Rightarrow> fine option" where
  "fine_exec key e s = (case e of
     Begin n c call \<Rightarrow>
       if f_act s n = Elsewhere \<and> core_ok c then Some (set_act n (Waiting c call) s) else None
   | Step n \<Rightarrow> (case f_act s n of
       Elsewhere \<Rightarrow> None
     | Waiting c call \<Rightarrow>
         if mb_lock (fbox c s) = 0
         then Some (set_act n (Inside c call (call_prog key call) []) (set_fbox c ((fbox c s)\<lparr>mb_lock := 1\<rparr>) s))
         else None
     | Inside c call p buf \<Rightarrow> (case access p (drain buf (fbox c s)) of
         Some (q, sts) \<Rightarrow> Some (set_act n (Inside c call q (buf @ sts)) s)
       | None \<Rightarrow>
           if buf = [] then Some (set_act n Elsewhere (set_fbox c ((fbox c s)\<lparr>mb_lock := 0\<rparr>)
             (s\<lparr>f_log := f_log s @ [(n, c, call, fst (run p (fbox c s)))]\<rparr>)))
           else None))
   | Land n i \<Rightarrow> (case f_act s n of
       Inside c call p buf \<Rightarrow>
         if i < length buf \<and> (\<forall>j < i. \<not> same_place (buf ! j) (buf ! i))
         then Some (set_act n (Inside c call p (take i buf @ drop (Suc i) buf)) (set_fbox c (do_store (buf ! i) (fbox c s)) s))
         else None
     | _ \<Rightarrow> None))"

inductive fine_reach :: "u8 list \<Rightarrow> mailbox list \<Rightarrow> fine \<Rightarrow> bool" for key boxes where
  start: "fine_reach key boxes \<lparr>f_boxes = boxes, f_act = \<lambda>n. Elsewhere, f_log = []\<rparr>"
| step: "fine_reach key boxes s \<Longrightarrow> fine_exec key e s = Some t \<Longrightarrow> fine_reach key boxes t"

text \<open>Stores to different places commute, so the order in which they land does not matter.\<close>

lemma put_field_swap: "f \<noteq> g \<Longrightarrow> put_field f v (put_field g w mb) = put_field g w (put_field f v mb)"
  by (cases f; cases g) simp_all

lemma do_store_swap: "\<not> same_place a b \<Longrightarrow> do_store a (do_store b mb) = do_store b (do_store a mb)"
proof -
  assume h: "\<not> same_place a b"
  have tag: "put_field f v (mb\<lparr>mb_tag := t\<rparr>) = (put_field f v mb)\<lparr>mb_tag := t\<rparr>" "mb_tag (put_field f v mb) = mb_tag mb"
    for f v t by (cases f; simp)+
  show ?thesis
    using h by (cases a; cases b) (auto simp: same_place_def put_field_swap tag list_update_swap)
qed

lemma drain_land:
  assumes "i < length buf" "\<forall>j < i. \<not> same_place (buf ! j) (buf ! i)"
  shows "drain (take i buf @ drop (Suc i) buf) (do_store (buf ! i) mb) = drain buf mb"
proof -
  have "fold do_store ys (do_store x mb) = do_store x (fold do_store ys mb)" if "\<forall>y \<in> set ys. \<not> same_place y x" for x ys mb
    using that
  proof (induction ys arbitrary: mb)
    case (Cons y ys)
    then show ?case using do_store_swap [of y x mb] by simp
  qed simp
  moreover have "\<forall>y \<in> set (take i buf). \<not> same_place y (buf ! i)" using assms by (auto simp: in_set_conv_nth)
  ultimately have "drain (take i buf @ drop (Suc i) buf) (do_store (buf ! i) mb) =
      drain (take i buf @ buf ! i # drop (Suc i) buf) mb"
    by (simp add: drain_def)
  also have "take i buf @ buf ! i # drop (Suc i) buf = buf" using assms(1) by (rule id_take_nth_drop [symmetric])
  finally show ?thesis .
qed

lemma do_store_lock [simp]: "mb_lock (do_store st mb) = mb_lock mb"
proof (cases st)
  case (Put_Field f v)
  then show ?thesis by (cases f) simp_all
qed simp

lemma drain_simps [simp]: "drain [] mb = mb" "drain (buf @ sts) mb = fold do_store sts (drain buf mb)"
  by (simp_all add: drain_def)

text \<open>The recorded calls as one-step operations, each with the recorded result.\<close>

fun replay :: "(nat \<times> int \<times> call \<times> reply) list \<Rightarrow> system \<Rightarrow> system option" where
  "replay [] s = Some s"
| "replay ((n, c, call, r) # es) s = (case one_step c call s of
     Inl stuck \<Rightarrow> None
   | Inr (r', s') \<Rightarrow> if r' = r then replay es s' else None)"

lemma replay_append: "replay (es @ es') s = Option.bind (replay es s) (replay es')"
  by (induction es s rule: replay.induct) (auto split: sum.split)

section \<open>Linearizability\<close>

definition inside :: "int \<Rightarrow> nat \<Rightarrow> fine \<Rightarrow> bool" where
  "inside c n s \<longleftrightarrow> (\<exists>call p buf. f_act s n = Inside c call p buf)"

text \<open>
  A mailbox that nobody is in is that of the one-step run; otherwise one core is in it, and what it
  has still to do, on top of its pending stores, leads to the result of the whole operation.
\<close>

definition box_ok :: "u8 list \<Rightarrow> system \<Rightarrow> fine \<Rightarrow> int \<Rightarrow> bool" where
  "box_ok key t s c \<longleftrightarrow> (if mb_lock (fbox c s) = 0 then fbox c s = mbox c t \<and> (\<forall>n. \<not> inside c n s)
     else \<exists>n call p buf. f_act s n = Inside c call p buf \<and> (\<forall>m. inside c m s \<longrightarrow> m = n) \<and> mb_lock (fbox c s) = 1 \<and>
       run p (drain buf (fbox c s)) = run (call_prog key call) ((mbox c t)\<lparr>mb_lock := 1\<rparr>))"

definition fine_ok :: "u8 list \<Rightarrow> system \<Rightarrow> system \<Rightarrow> fine \<Rightarrow> bool" where
  [inv_defs]: "fine_ok key u t s \<longleftrightarrow> length (f_boxes s) = 4 \<and>
     (\<forall>n c call p buf. f_act s n = Waiting c call \<or> f_act s n = Inside c call p buf \<longrightarrow> core_ok c) \<and>
     replay (f_log s) u = Some t \<and> (\<exists>k. mail_reach k t) \<and> sys_key t = key \<and> (\<forall>c. core_ok c \<longrightarrow> box_ok key t s c)"

lemma fine_okD:
  assumes "fine_ok key u t s"
  shows "length (f_boxes s) = 4" "f_act s n = Waiting c call \<or> f_act s n = Inside c call p buf \<Longrightarrow> core_ok c"
    "replay (f_log s) u = Some t" "\<exists>k. mail_reach k t" "sys_key t = key" "core_ok c \<Longrightarrow> box_ok key t s c"
  using assms unfolding fine_ok_def by blast+

lemma fine_ok_keep:
  assumes "fine_ok key u t s" "length (f_boxes s') = 4" "f_log s' = f_log s"
    "\<And>n c call p buf. f_act s' n = Waiting c call \<or> f_act s' n = Inside c call p buf \<Longrightarrow> core_ok c"
    "\<And>c. core_ok c \<Longrightarrow> box_ok key t s' c"
  shows "fine_ok key u t s'"
  using assms unfolding fine_ok_def by metis

lemma core_index: "core_ok c \<Longrightarrow> nat c < 4" "core_ok c \<Longrightarrow> core_ok d \<Longrightarrow> nat d = nat c \<longleftrightarrow> d = c"
  by (auto simp: core_ok_def)

lemma one_step_reach:
  assumes "mail_reach k t" "core_ok c" "one_step c call t = Inr (r, t')"
  shows "\<exists>k'. mail_reach k' t'"
  using assms
  by (cases call) (auto simp: bind_exec_Inr_iff intro: mail_reach.send mail_reach.recv mail_reach.clear)

lemma set_simps [simp]:
  "f_boxes (set_act n a s) = f_boxes s" "f_log (set_act n a s) = f_log s" "f_log (set_fbox c mb s) = f_log s"
  "f_act (set_fbox c mb s) = f_act s" "f_act (set_act n a s) = (f_act s)(n := a)"
  "f_boxes (set_fbox c mb s) = (f_boxes s)[nat c := mb]"
  by (simp_all add: set_act_def set_fbox_def)

lemma access_None: "access p mb = None \<Longrightarrow> \<exists>r. p = Return r"
  by (cases p) (simp_all add: access_def)

text \<open>A mailbox an event does not concern.\<close>

lemma box_ok_other:
  assumes "fbox d s' = fbox d s" "mbox d t' = mbox d t"
    and "\<And>n call p buf. f_act s' n = Inside d call p buf \<longleftrightarrow> f_act s n = Inside d call p buf"
  shows "box_ok key t' s' d = box_ok key t s d"
  unfolding box_ok_def inside_def assms ..

lemma box_ok_inside:
  assumes "box_ok key t s c" "f_act s n = Inside c call p buf"
  shows "mb_lock (fbox c s) = 1"
    "run p (drain buf (fbox c s)) = run (call_prog key call) ((mbox c t)\<lparr>mb_lock := 1\<rparr>)"
    "\<And>m. inside c m s \<Longrightarrow> m = n"
proof -
  have "inside c n s" using assms(2) by (auto simp: inside_def)
  then have "mb_lock (fbox c s) \<noteq> 0" using assms(1) by (auto simp: box_ok_def)
  then obtain m call' p' buf' where m: "f_act s m = Inside c call' p' buf'" "\<And>m'. inside c m' s \<Longrightarrow> m' = m"
    "mb_lock (fbox c s) = 1"
    "run p' (drain buf' (fbox c s)) = run (call_prog key call') ((mbox c t)\<lparr>mb_lock := 1\<rparr>)"
    using assms(1) unfolding box_ok_def by auto
  have "n = m" using m(2) \<open>inside c n s\<close> .
  with m assms(2) show "mb_lock (fbox c s) = 1"
    "run p (drain buf (fbox c s)) = run (call_prog key call) ((mbox c t)\<lparr>mb_lock := 1\<rparr>)"
    "\<And>m. inside c m s \<Longrightarrow> m = n"
    by auto
qed

text \<open>An event of the core inside mailbox \<open>c\<close> after which it is inside still.\<close>

lemma fine_ok_inside:
  assumes ok: "fine_ok key u t s" and n: "f_act s n = Inside c call p buf"
    and mb: "mb_lock mb = mb_lock (fbox c s)" "run q (drain buf' mb) = run p (drain buf (fbox c s))"
  shows "fine_ok key u t (set_act n (Inside c call q buf') (set_fbox c mb s))" (is "fine_ok key u t ?s")
proof -
  note inv = fine_okD [OF ok]
  have c: "core_ok c" using inv(2) n by blast
  note own = box_ok_inside [OF inv(6) [OF c] n]
  have "box_ok key t ?s d" if d: "core_ok d" for d
  proof (cases "d = c")
    case True
    have "run q (drain buf' mb) = run (call_prog key call) ((mbox c t)\<lparr>mb_lock := 1\<rparr>)" using own(2) mb(2) by simp
    moreover have "m = n" if "inside c m ?s" for m
      using that own(3) n by (auto simp: inside_def split: if_splits)
    ultimately show ?thesis
      using True own(1) mb(1) core_index(1) [OF c] inv(1) by (auto simp: box_ok_def)
  next
    case False
    then have "box_ok key t ?s d = box_ok key t s d"
      using n core_index(2) [OF c d] by (intro box_ok_other) auto
    with inv(6) [OF d] show ?thesis by simp
  qed
  with inv(1,2) c show ?thesis by (intro fine_ok_keep [OF ok]) (auto split: if_splits)
qed

lemma fine_ok_begin:
  assumes ok: "fine_ok key u t s" and n: "f_act s n = Elsewhere" "core_ok c"
  shows "fine_ok key u t (set_act n (Waiting c call) s)"
proof -
  have "box_ok key t (set_act n (Waiting c call) s) d = box_ok key t s d" for d
    using n by (intro box_ok_other) auto
  with n fine_okD [OF ok] show ?thesis by (intro fine_ok_keep [OF ok]) (auto split: if_splits)
qed

lemma fine_ok_acquire:
  assumes ok: "fine_ok key u t s" and n: "f_act s n = Waiting c call" and lock: "mb_lock (fbox c s) = 0"
  shows "fine_ok key u t (set_act n (Inside c call (call_prog key call) []) (set_fbox c ((fbox c s)\<lparr>mb_lock := 1\<rparr>) s))"
    (is "fine_ok key u t ?s")
proof -
  note inv = fine_okD [OF ok]
  have c: "core_ok c" using inv(2) n by blast
  have free: "fbox c s = mbox c t" "\<And>m. \<not> inside c m s" using inv(6) [OF c] lock by (simp_all add: box_ok_def)
  have "box_ok key t ?s d" if d: "core_ok d" for d
  proof (cases "d = c")
    case True
    then show ?thesis using free core_index [OF c] inv(1) by (auto simp: box_ok_def inside_def)
  next
    case False
    then have "box_ok key t ?s d = box_ok key t s d"
      using n core_index(2) [OF c d] by (intro box_ok_other) auto
    with inv(6) [OF d] show ?thesis by simp
  qed
  with inv(1,2) c show ?thesis by (intro fine_ok_keep [OF ok]) (auto split: if_splits)
qed

lemma fine_ok_release:
  assumes ok: "fine_ok key u t s" and n: "f_act s n = Inside c call (Return r) []"
  defines "mb \<equiv> (fbox c s)\<lparr>mb_lock := 0\<rparr>"
  shows "\<exists>t'. fine_ok key u t' (set_act n Elsewhere (set_fbox c mb (s\<lparr>f_log := f_log s @ [(n, c, call, r)]\<rparr>)))"
    (is "\<exists>t'. fine_ok key u t' ?s")
proof -
  note inv = fine_okD [OF ok]
  have c: "core_ok c" using inv(2) n by blast
  note own = box_ok_inside [OF inv(6) [OF c] n]
  obtain k where k: "mail_reach k t" using inv(4) ..
  have free: "free_mailbox c t" by (rule mail_inv_free [OF mail_reach_inv [OF k] c])
  obtain str where one: "one_step c call t = Inr (r, set_mailbox c mb (log_text str t))"
    using one_step_run [OF free, of call] own(2) inv(5) by (simp add: mb_def) (metis prod.case)
  let ?t = "set_mailbox c mb (log_text str t)"
  have "box_ok key ?t ?s d" if d: "core_ok d" for d
  proof (cases "d = c")
    case True
    have "\<not> inside c m ?s" for m using own(3) by (auto simp: inside_def split: if_splits)
    then show ?thesis
      using True free_mailboxD(2) [OF free] core_index(1) [OF c] inv(1) by (simp add: box_ok_def mb_def)
  next
    case False
    have "mbox d ?t = mbox d t" using False c d by (simp add: mbox_set_mailbox_other core_ok_def)
    then have "box_ok key ?t ?s d = box_ok key t s d"
      using False n core_index(2) [OF c d] by (intro box_ok_other) auto
    with inv(6) [OF d] show ?thesis by simp
  qed
  moreover have "core_ok d" if "f_act ?s m = Waiting d call' \<or> f_act ?s m = Inside d call' p' buf" for m d call' p' buf
    using that inv(2) by (auto split: if_splits)
  moreover have "replay (f_log ?s) u = Some ?t" by (simp add: replay_append inv(3) one)
  ultimately have "fine_ok key u ?t ?s"
    using one_step_reach [OF k c one] inv(1,5) unfolding fine_ok_def by simp
  then show ?thesis ..
qed

lemma set_same [simp]: "set_fbox c (fbox c s) s = s"
  by (simp add: set_fbox_def)

lemma fine_ok_step:
  assumes ok: "fine_ok key u t s" and exec: "fine_exec key (Step n) s = Some s'"
  shows "\<exists>t'. fine_ok key u t' s'"
proof (cases "f_act s n")
  case Elsewhere
  with exec show ?thesis by (simp add: fine_exec_def)
next
  case (Waiting c call)
  with exec fine_ok_acquire [OF ok] show ?thesis by (auto simp: fine_exec_def split: if_splits)
next
  case (Inside c call p buf)
  show ?thesis
  proof (cases "access p (drain buf (fbox c s))")
    case None
    then obtain r where "p = Return r" using access_None by blast
    with exec Inside fine_ok_release [OF ok] show ?thesis by (auto simp: fine_exec_def access_def split: if_splits)
  next
    case (Some qsts)
    then obtain q sts where acc: "access p (drain buf (fbox c s)) = Some (q, sts)" by (cases qsts) simp
    have "fine_ok key u t (set_act n (Inside c call q (buf @ sts)) (set_fbox c (fbox c s) s))"
      using run_access [OF acc] by (intro fine_ok_inside [OF ok Inside]) simp_all
    with exec Inside acc show ?thesis by (auto simp: fine_exec_def)
  qed
qed

lemma fine_ok_exec:
  assumes ok: "fine_ok key u t s" and exec: "fine_exec key e s = Some s'"
  shows "\<exists>t'. fine_ok key u t' s'"
proof (cases e)
  case (Begin n c call)
  with exec fine_ok_begin [OF ok] show ?thesis by (auto simp: fine_exec_def split: if_splits)
next
  case (Step n)
  with exec fine_ok_step [OF ok] show ?thesis by simp
next
  case (Land n i)
  then obtain c call p buf where n: "f_act s n = Inside c call p buf" "i < length buf"
      "\<forall>j < i. \<not> same_place (buf ! j) (buf ! i)"
    and s': "s' = set_act n (Inside c call p (take i buf @ drop (Suc i) buf)) (set_fbox c (do_store (buf ! i) (fbox c s)) s)"
    using exec by (auto simp: fine_exec_def split: activity.splits if_splits)
  have "fine_ok key u t s'"
    unfolding s' by (rule fine_ok_inside [OF ok n(1)]) (simp_all add: drain_land [OF n(2,3)] del: drain_simps)
  then show ?thesis ..
qed

lemma fine_reach_ok:
  assumes "fine_reach (sys_key u) (sys_mailboxes u) s" and "mail_reach k u"
  shows "\<exists>t. fine_ok (sys_key u) u t s"
  using assms(1)
proof (induction rule: fine_reach.induct)
  case start
  have "free_mailbox c u" if "core_ok c" for c using mail_inv_free [OF mail_reach_inv [OF assms(2)] that] .
  then have "box_ok (sys_key u) u \<lparr>f_boxes = sys_mailboxes u, f_act = \<lambda>n. Elsewhere, f_log = []\<rparr> c" if "core_ok c" for c
    using that free_mailboxD(5) [of c u] by (simp add: box_ok_def inside_def)
  moreover have "length (sys_mailboxes u) = 4"
    using mail_reach_inv [OF assms(2)] by (simp add: mail_inv_def sys_ok_def)
  ultimately show ?case using assms(2) by (intro exI [of _ u]) (auto simp: fine_ok_def)
next
  case (step s e t)
  then show ?case using fine_ok_exec by blast
qed

section \<open>Properties\<close>

text \<open>A core inside finishes in finitely many steps of its own, whatever the others do to other mailboxes.\<close>

fun fine_steps :: "u8 list \<Rightarrow> event list \<Rightarrow> fine \<Rightarrow> fine option" where
  "fine_steps key [] s = Some s"
| "fine_steps key (e # es) s = Option.bind (fine_exec key e s) (fine_steps key es)"

lemma fine_steps_reach: "fine_steps key es s = Some t \<Longrightarrow> fine_reach key boxes s \<Longrightarrow> fine_reach key boxes t"
proof (induction es arbitrary: s)
  case (Cons e es)
  then show ?case by (cases "fine_exec key e s") (auto intro: fine_reach.step)
qed simp

definition own_event :: "nat \<Rightarrow> event \<Rightarrow> bool" where
  "own_event n e \<longleftrightarrow> e = Step n \<or> (\<exists>i. e = Land n i)"

definition returns_alone :: "u8 list \<Rightarrow> nat \<Rightarrow> int \<Rightarrow> call \<Rightarrow> fine \<Rightarrow> bool" where
  "returns_alone key n c call s \<longleftrightarrow> (\<exists>es t r. list_all (own_event n) es \<and> fine_steps key es s = Some t \<and>
     f_act t n = Elsewhere \<and> f_log t = f_log s @ [(n, c, call, r)])"

lemma returns_alone_step:
  assumes "fine_exec key e s = Some s'" "own_event n e" "f_log s' = f_log s" "returns_alone key n c call s'"
  shows "returns_alone key n c call s"
proof -
  obtain es t r where "list_all (own_event n) es" "fine_steps key es s' = Some t" "f_act t n = Elsewhere"
    "f_log t = f_log s' @ [(n, c, call, r)]" using assms(4) by (auto simp: returns_alone_def)
  then have "list_all (own_event n) (e # es)" "fine_steps key (e # es) s = Some t" "f_log t = f_log s @ [(n, c, call, r)]"
    using assms(1-3) by simp_all
  with \<open>f_act t n = Elsewhere\<close> show ?thesis unfolding returns_alone_def by blast
qed

lemma return_drains: "f_act s n = Inside c call (Return r) buf \<Longrightarrow> returns_alone key n c call s"
proof (induction buf arbitrary: s)
  case Nil
  let ?t = "set_act n Elsewhere (set_fbox c ((fbox c s)\<lparr>mb_lock := 0\<rparr>) (s\<lparr>f_log := f_log s @ [(n, c, call, r)]\<rparr>))"
  have "fine_steps key [Step n] s = Some ?t" using Nil by (simp add: fine_exec_def access_def)
  moreover have "f_act ?t n = Elsewhere" "f_log ?t = f_log s @ [(n, c, call, r)]" by simp_all
  moreover have "list_all (own_event n) [Step n]" by (simp add: own_event_def)
  ultimately show ?case unfolding returns_alone_def by blast
next
  case (Cons st buf)
  show ?case
    by (rule returns_alone_step [where e = "Land n 0" and
        s' = "set_act n (Inside c call (Return r) buf) (set_fbox c (do_store st (fbox c s)) s)"])
      (use Cons in \<open>simp_all add: fine_exec_def own_event_def\<close>)
qed

lemma call_returns: "f_act s n = Inside c call p buf \<Longrightarrow> returns_alone key n c call s"
proof (induction p arbitrary: s buf)
  case (Return r)
  then show ?case by (rule return_drains)
next
  case (Read f k)
  let ?v = "get_field f (drain buf (fbox c s))"
  show ?case
    by (rule returns_alone_step [where e = "Step n" and s' = "set_act n (Inside c call (k ?v) buf) s"])
      (use Read.prems in \<open>simp_all add: fine_exec_def own_event_def access_def Read.IH [OF rangeI]\<close>)
next
  case (Read_Tag i k)
  let ?v = "mb_tag (drain buf (fbox c s)) ! i"
  show ?case
    by (rule returns_alone_step [where e = "Step n" and s' = "set_act n (Inside c call (k ?v) buf) s"])
      (use Read_Tag.prems in \<open>simp_all add: fine_exec_def own_event_def access_def Read_Tag.IH [OF rangeI]\<close>)
next
  case (Store st q)
  show ?case
    by (rule returns_alone_step [where e = "Step n" and s' = "set_act n (Inside c call q (buf @ [st])) s"])
      (use Store in \<open>auto simp: fine_exec_def own_event_def access_def\<close>)
qed

text \<open>
  Property C15: the mailbox operations are linearizable.  However the cores' accesses to the
  mailboxes interleave, and in whatever order their pending stores land, the calls that have returned have the results of the one-step operations
  run one after the other, in the order in which the locks were released.  A mailbox whose lock
  is free is as that run has left it, which is a state the one-step model reaches; in one whose
  lock is taken there is exactly one core, which returns after some more steps of its own.
\<close>
theorem mailbox_linearizable:
  assumes "mail_reach k u" and "fine_reach (sys_key u) (sys_mailboxes u) s"
  shows "\<exists>t k'. replay (f_log s) u = Some t \<and> mail_reach k' t \<and> (\<forall>c. core_ok c \<longrightarrow>
    (if mb_lock (fbox c s) = 0 then fbox c s = mbox c t
     else \<exists>n call. inside c n s \<and> (\<forall>m. inside c m s \<longrightarrow> m = n) \<and> returns_alone (sys_key u) n c call s))"
proof -
  obtain t where ok: "fine_ok (sys_key u) u t s" using fine_reach_ok [OF assms(2,1)] by blast
  have "if mb_lock (fbox c s) = 0 then fbox c s = mbox c t
      else \<exists>n call. inside c n s \<and> (\<forall>m. inside c m s \<longrightarrow> m = n) \<and> returns_alone (sys_key u) n c call s"
    if c: "core_ok c" for c
  proof (cases "mb_lock (fbox c s) = 0")
    case True
    then show ?thesis using fine_okD(6) [OF ok c] by (simp add: box_ok_def)
  next
    case False
    then obtain n call p buf where n: "f_act s n = Inside c call p buf" "\<forall>m. inside c m s \<longrightarrow> m = n"
      using fine_okD(6) [OF ok c] by (auto simp: box_ok_def)
    have "inside c n s" using n(1) by (auto simp: inside_def)
    then have "\<exists>n call. inside c n s \<and> (\<forall>m. inside c m s \<longrightarrow> m = n) \<and> returns_alone (sys_key u) n c call s"
      using n(2) call_returns [OF n(1)] by blast
    with False show ?thesis by simp
  qed
  then show ?thesis using fine_okD(3,4) [OF ok] by blast
qed

text \<open>
  Core 0 sends to mailbox 3 while core 3 looks into it: core 3 gets the lock first and finds nothing;
  then core 0's store of the message type lands before that of the sender.
\<close>

definition contention :: "event list" where
  "contention = [Begin 0 3 (Send_Call 0x80000000 2 7), Begin 3 3 (Receive_Call (0, 0, 0)), Step 3, Step 3, Step 3, Step 3,
     Step 0, Step 0, Step 0, Step 0, Land 0 1]"

lemma mailbox_linearizable_witness:
  "\<exists>s t k'. fine_steps (sys_key booted) contention \<lparr>f_boxes = sys_mailboxes booted, f_act = \<lambda>n. Elsewhere, f_log = []\<rparr> = Some s \<and>
     f_log s = [(3, 3, Receive_Call (0, 0, 0), Received 0 (0, 0, 0))] \<and> inside 3 0 s \<and>
     mb_msg_type (fbox 3 s) = 2 \<and> mb_sender_id (fbox 3 s) = 0xFF \<and>
     replay (f_log s) booted = Some t \<and> mail_reach k' t"
proof -
  let ?s = "\<lparr>f_boxes = sys_mailboxes booted, f_act = \<lambda>n. Elsewhere, f_log = []\<rparr>"
  have box: "length (sys_mailboxes booted) = 4" "mb_lock (sys_mailboxes booted ! 3) = 0" "mb_status (sys_mailboxes booted ! 3) = 0"
    using booted_valid [of 3] free_mailboxD [of 3 booted] by (auto simp: mailbox_valid_def mailbox_slot_def Let_def split: if_splits)
  have sender: "mb_sender_id (sys_mailboxes booted ! 3) = 0xFF" by (simp add: booted_def cleared_def)
  obtain s where s: "fine_steps (sys_key booted) contention ?s = Some s"
    "f_log s = [(3, 3, Receive_Call (0, 0, 0), Received 0 (0, 0, 0))]" "inside 3 0 s" "mb_msg_type (fbox 3 s) = 2" "mb_sender_id (fbox 3 s) = 0xFF"
    using box sender by (simp add: contention_def fine_exec_def same_place_def access_def receive_prog_def send_prog_def Let_def inside_def)
  have "fine_reach (sys_key booted) (sys_mailboxes booted) s"
    by (rule fine_steps_reach [OF s(1) fine_reach.start])
  from mailbox_linearizable [OF booted_reach this] s show ?thesis by blast
qed

end
