(* ===== verification/Spec2Isabelle.thy ===== *)
theory Spec2Isabelle
  imports Cores_Run Boot_Asm Exception_Entry Mmu Ring_Weak Ring_Users Shared_Memory Mailbox_Steps
begin

text \<open>
  A verification development for a bare-metal AArch64 kernel that runs on four cores of QEMU's
  \<^verbatim>\<open>virt\<close> board (and, for the UART, on a Raspberry Pi 5).  This file is the root; paths below are
  relative to \<^verbatim>\<open>src/\<close>.

  \<^bold>\<open>The program.\<close>  Core 0 initialises the shared memory, starts the other cores through the
  firmware, runs two test suites and then two cooperative tasks: one moves bytes from the UART
  into a ring buffer, one echoes them.  Cores 1 and 2 pass ten letters through the same ring
  buffer and sleep.  Core 3 runs a task that answers the messages in its mailbox.  Mailboxes are
  protected by spinlocks and carry HMAC-SHA256 tags; console output is protected by one global
  spinlock.

  \<^bold>\<open>Theories, bottom up.\<close>

  \<^item> \<open>Prelude\<close>: integer types as words, the outcome type \<open>exec\<close> of code that may spin, leave an
    array or halt; fact collections.
  \<^item> \<open>Bounded_Queue\<close>, \<open>Streaming_Hash\<close>, \<open>Slot_Channel\<close>, \<open>Critical_Section\<close>: the four interfaces, as
    locales with their client lemmas.  They are interpreted on the ring buffer, on the SHA-256 calls,
    on the mailbox operations, and on the global lock and the locks of the mailboxes.
  \<^item> \<open>Ring_Buffer\<close>, \<open>Ring_Spsc\<close> (\<^verbatim>\<open>include/ringbuffer/ringbuf.c\<close>): the operations as functions,
    which implement a list queue of capacity 255; and the same code as memory steps of a producer
    and a consumer core, which is FIFO in every interleaving.  \<open>Ring_Weak\<close>: the same steps with
    stores and reads that take effect late, on which the code's two barriers are enough.
    \<open>Ring_Users\<close>: the steps of any number of cores, FIFO as long as the cores hand the ring over to
    each other, and not when their calls overlap.
  \<^item> \<open>Sha256\<close>, \<open>Fips180\<close>, \<open>Sha256_Constants\<close>, \<open>Sha256_Correct\<close> (\<^verbatim>\<open>include/crypto/sha256.c\<close>): the
    code, an independent transcription of FIPS 180-4, the constants as roots of primes, and the
    refinement for any split of the message.
  \<^item> \<open>Ipc_Data\<close>, \<open>Hmac\<close> (\<^verbatim>\<open>ipc.h\<close>, \<^verbatim>\<open>hmac_sha256.c\<close>): mailbox data, the memory map, the tag as
    RFC 2104 HMAC; forging a tag exhibits a collision.
  \<^item> \<open>Uart\<close> (\<^verbatim>\<open>include/uart/uart0.c\<close>): the PL011 driver; the values its registers read as are the
    input, polling loops are partial functions and \<open>None\<close> is waiting for ever.
  \<^item> \<open>Spinlock\<close> (\<^verbatim>\<open>ipc.c\<close>): the LDXR/STXR sequences as a step relation with exclusive monitors and
    spurious failures: mutual exclusion, refinement of an atomic lock, progress; and the one-step
    form the sequential models use.
  \<^item> \<open>System_State\<close>: the shared memory as one record (global lock, mailboxes, ring, key) with the
    console text; critical sections under the global lock.
  \<^item> \<open>Mailbox\<close> (\<^verbatim>\<open>ipc.c\<close>): the operations, the states reachable when four cores interleave
    critical sections, and the one-place channel they implement.
  \<^item> \<open>Mailbox_Steps\<close>: the same operations access by access, interleaved by any number of cores, with
    stores that take effect late and out of order: they are linearizable, which is why one step
    each is enough in \<open>Mailbox\<close>.
  \<^item> \<open>Shared_Memory\<close>: the shared page as bytes; the operations of \<^verbatim>\<open>ipc.c\<close>, \<^verbatim>\<open>ringbuf.c\<close> and the key
    loading as loads and stores at their addresses, which refine those on the record.
  \<^item> \<open>Memory\<close>, \<open>Scheduler\<close>, \<open>Context_Switch\<close> (\<^verbatim>\<open>include/scheduler/scheduler.c\<close>, \<^verbatim>\<open>src/sched.S\<close>):
    byte memory, the cooperative scheduler as a refinement of a cyclic scheduler over task states,
    and every instruction of the context switch: tasks resume where they yielded.
  \<^item> \<open>Irq\<close>, \<open>Timer_Tests\<close> (\<^verbatim>\<open>include/interrupts/irq.c\<close>, \<^verbatim>\<open>tests/interrupt/timer_tests.c\<close>): the GICv2
    driver with a trace of device accesses; the interrupt handlers and tests, with the counter and
    the arriving interrupts as inputs.
  \<^item> \<open>Dispatcher\<close> (\<^verbatim>\<open>dispatcher/dispatcher.c\<close>): one iteration of each task; runs of the two keyboard
    tasks in any interleaving; the reply of the mailbox task.
  \<^item> \<open>Trivial_Tests\<close> (\<^verbatim>\<open>tests/trivial/tests.c\<close>): the communication tests, executed symbolically
    against core 3's mailbox task, or against cores that never answer.
  \<^item> \<open>Mmu\<close> (\<^verbatim>\<open>src/mmu.S\<close>): the cores building one translation table under a lock and switching
    their MMUs on, for any interleaving; what the table translates; progress, with a bound on the
    instructions, and the hang.  A step is one access to shared memory, with the register instructions
    around it; \<open>instructions\<close> says how many instructions it stands for.  The lock code is that of
    \<open>Spinlock\<close>, whose lemmas it uses.
  \<^item> \<open>Boot_Asm\<close> (\<^verbatim>\<open>src/boot.S\<close>): the first instructions of a core, the loops that prepare memory, with the
    alignment faults they can end in, and the call of \<^verbatim>\<open>mmu_on\<close>: memory as \<^verbatim>\<open>main\<close> finds it.
  \<^item> \<open>Exception_Entry\<close> (\<^verbatim>\<open>src/vector.S\<close>): the vectors and the instructions around the trap handler:
    exceptions are transparent, what frame the handler is given, and both with the C handler of
    \<open>Irq\<close> in between.  The compiled handler may write whatever it likes outside the frame.
  \<^item> \<open>Boot_Main\<close> (\<^verbatim>\<open>src/main.c\<close>): \<^verbatim>\<open>main\<close> from the reset to the first task, \<^verbatim>\<open>secondary_main\<close>.  The ring
    test of cores 1 and 2 has the event registers that its \<^verbatim>\<open>wfe\<close> waits for.
  \<^item> \<open>Core_Run\<close>: scheduler and tasks together, slice after slice: from the reset core 0 echoes what is
    typed, key by key; core 3 is its mailbox task over and over.
  \<^item> \<open>Cores_Run\<close>: cores 0 and 3 running together after the boot, with messages sent in between, also
    between the parts of core 3's iterations.

  \<^bold>\<open>How the state corresponds.\<close>  A C struct is a record (\<open>mailbox\<close>, \<open>ring_buffer\<close>, \<open>tcb\<close>,
  \<open>sha256_state\<close>), the arrays indexed by core are lists, integers are words of their width and wrap
  as in C.  A function that changes memory takes and returns the record; status codes are the C
  values.  \<open>Inl Spinning\<close> is a lock that is taken, \<open>Inl OutOfBounds\<close> an index outside an array,
  \<open>Inl Halted\<close> a wait that no event ends (what was printed before it is not kept, except in the
  echo task, where parking is a result of its own).  A critical section is one atomic step of the
  mailbox model, which \<open>Mailbox_Steps\<close> and the spinlock theory justify; the two tasks of core 0 only
  change places at \<^verbatim>\<open>task_yield\<close>.  What a function prints without the global lock (\<^verbatim>\<open>mailbox_receive\<close>,
  the timer tests) stays together in the model, while on the machine another core's text can come
  in between.  The console functions of \<open>System_State\<close> append what \<open>Uart\<close> proves to be
  sent on a device that does not stay full for ever.

  \<^bold>\<open>Bounds.\<close>  There is no fuel.  Waiting loops are partial functions (\<open>poll_fr\<close>, \<open>busy_wait\<close>) or
  recursion over the list of arriving interrupts (\<open>wait_irqs\<close>), the loops of \<open>Boot_Asm\<close> are while
  combinators, the other loops are structural or have a measure.  Endless task loops are modelled by
  one iteration, in \<open>Core_Run\<close> by any number of them, in \<open>Cores_Run\<close> by their parts.

  \<^bold>\<open>Parameters.\<close>  The register values read from \<^verbatim>\<open>mpidr_el1\<close>, \<^verbatim>\<open>CurrentEL\<close>, the stack pointer, the
  timer and the devices; the answer of the firmware; the addresses the linker gives \<^verbatim>\<open>task_pool\<close>
  and the task functions; what other cores do while a core executes \<^verbatim>\<open>delay\<close>.  \<open>main\<close> is proved
  to reach the scheduler for a \<open>delay\<close> in which core 3 runs its task and cores 1 and 2, whose ring
  test uses the same ring, rest.  Of the receiving side of the UART the echo needs that a byte which the flag register
  has reported is reported again until it is read (\<open>rx_fair\<close>).

  \<^bold>\<open>Not modelled.\<close>  Caches and TLBs; and weak memory ordering outside \<open>Ring_Weak\<close> and
  \<open>Mailbox_Steps\<close>: elsewhere memory steps are sequentially consistent, the barriers and
  invalidations of the code have no further effect.  \<^verbatim>\<open>wfe\<close> and \<^verbatim>\<open>sev\<close> count in the ring test of
  \<open>Boot_Main\<close>; elsewhere they are in loops that poll or park, and only delay.  The address
  translation is stated about \<open>Mmu\<close>'s registers and memory; the C models use the addresses as they
  are, which is what its identity map says.  What the compiler makes of the C handler is a parameter
  of \<open>Exception_Entry\<close>, as far as registers and stack go; \<open>Timer_Tests\<close> lets interrupts arrive
  between C steps.  \<^verbatim>\<open>read_sp\<close>, \<^verbatim>\<open>read_sctlr\<close> and \<^verbatim>\<open>delay\<close> have no logic.  The Raspberry Pi build
  differs in \<open>Uart\<close> only; its linker script does not fit \<^verbatim>\<open>boot.S\<close>.
\<close>

end
